(* ===== verification/Prelude.thy ===== *)
theory Prelude
  imports Main "HOL-Library.Word" "HOL-Library.Char_ord" "HOL-Library.List_Lexorder"
begin

text \<open>
  What the components of netserver share: C strings and buffers as lists of
  characters, the functions of the C library the sources call on them
  (\<^verbatim>\<open>strlen\<close> and NUL termination, \<^verbatim>\<open>snprintf\<close>, \<^verbatim>\<open>memchr\<close>, \<^verbatim>\<open>memmem\<close>,
  \<^verbatim>\<open>strtol\<close>, \<^verbatim>\<open>atoi\<close>, \<^verbatim>\<open>strncasecmp\<close>) and the generic list lemmas of the proofs.
  A character buffer is the list of its bytes; \<open>cstr\<close> is the part a C string
  function sees. Integers of the sources that can wrap are machine words, the
  others are \<^typ>\<open>int\<close> or \<^typ>\<open>nat\<close> with their bounds proved.
\<close>

section \<open>Types and collections\<close>

type_synonym byte = "8 word"
type_synonym fd = int

named_theorems ns_defs "definitions unfolded by the component proofs"
named_theorems ns_len "bounds on the length of rendered text"

abbreviation NUL :: char where "NUL \<equiv> CHR 0x00"
abbreviation BS :: char where "BS \<equiv> CHR 0x08"
abbreviation TAB :: char where "TAB \<equiv> CHR 0x09"
abbreviation LF :: char where "LF \<equiv> CHR 0x0A"
abbreviation CR :: char where "CR \<equiv> CHR 0x0D"
abbreviation ESC :: char where "ESC \<equiv> CHR 0x1B"
abbreviation DQ :: char where "DQ \<equiv> CHR 0x22"
abbreviation BSL :: char where "BSL \<equiv> CHR 0x5C"
abbreviation DEL :: char where "DEL \<equiv> CHR 0x7F"
abbreviation crlf :: string where "crlf \<equiv> [CR, LF]"

text \<open>The non-ASCII characters of the screens, in UTF-8.\<close>

definition EMDASH :: string where "EMDASH = [CHR 0xE2, CHR 0x80, CHR 0x94]"
definition MIDDOT :: string where "MIDDOT = [CHR 0xC2, CHR 0xB7]"
definition hline :: "nat \<Rightarrow> string" where
  "hline n = concat (replicate n [CHR 0xE2, CHR 0x94, CHR 0x80])"

abbreviation ord :: "char \<Rightarrow> nat" where "ord c \<equiv> of_char c"

section \<open>C strings and bounded buffers\<close>

definition cstr :: "string \<Rightarrow> string" where
  "cstr s = takeWhile (\<lambda>c. c \<noteq> NUL) s"

definition nul_free :: "string \<Rightarrow> bool" where
  "nul_free s \<longleftrightarrow> NUL \<notin> set s"

text \<open>\<^verbatim>\<open>snprintf (dst, sz, ...)\<close>: the bytes stored before the terminating NUL, and the
  length the whole text would have had.\<close>

definition snprintf :: "nat \<Rightarrow> string \<Rightarrow> string \<times> nat" where
  "snprintf sz s = (take (sz - 1) s, length s)"

text \<open>\<^verbatim>\<open>snprintf (dst, sizeof dst, "%s", src)\<close>: a truncating string copy.\<close>

definition str_copy :: "nat \<Rightarrow> string \<Rightarrow> string" where
  "str_copy sz s = fst (snprintf sz (cstr s))"

lemma cstr_Nil [simp]: "cstr [] = []"
  by (simp add: cstr_def)

lemma cstr_Cons [simp]: "cstr (c # s) = (if c = NUL then [] else c # cstr s)"
  by (simp add: cstr_def)

lemma nul_free_cstr [simp, intro]: "nul_free (cstr s)"
  by (auto simp: nul_free_def cstr_def dest: set_takeWhileD)

lemma nul_free_Nil [simp]: "nul_free []"
  by (simp add: nul_free_def)

lemma nul_free_Cons [simp]: "nul_free (c # s) \<longleftrightarrow> c \<noteq> NUL \<and> nul_free s"
  by (auto simp: nul_free_def)

lemma nul_free_append [simp]: "nul_free (s @ t) \<longleftrightarrow> nul_free s \<and> nul_free t"
  by (auto simp: nul_free_def)

lemma nul_free_take [intro]: "nul_free s \<Longrightarrow> nul_free (take n s)"
  by (auto simp: nul_free_def dest: in_set_takeD)

lemma cstr_nul_free [simp]: "nul_free s \<Longrightarrow> cstr s = s"
  by (induction s) auto

lemma length_cstr_le [simp]: "length (cstr s) \<le> length s"
  by (simp add: cstr_def length_takeWhile_le)

lemma set_cstr_subset: "set (cstr s) \<subseteq> set s"
  by (auto simp: cstr_def dest: set_takeWhileD)

lemma str_copy_length [ns_len]: "length (str_copy sz s) \<le> sz - 1"
  by (simp add: str_copy_def snprintf_def)

lemma str_copy_fits [simp]: "nul_free s \<Longrightarrow> length s < sz \<Longrightarrow> str_copy sz s = s"
  by (simp add: str_copy_def snprintf_def)

lemma nul_free_str_copy [simp]: "nul_free (str_copy sz s)"
  by (auto simp: str_copy_def snprintf_def)

lemma set_str_copy: "set (str_copy sz s) \<subseteq> set s"
  using set_cstr_subset by (fastforce simp: str_copy_def snprintf_def dest: in_set_takeD)

section \<open>Character classes\<close>

definition is_digit :: "char \<Rightarrow> bool" where
  "is_digit c \<longleftrightarrow> 48 \<le> ord c \<and> ord c \<le> 57"

definition is_alpha :: "char \<Rightarrow> bool" where
  "is_alpha c \<longleftrightarrow> (97 \<le> ord c \<and> ord c \<le> 122) \<or> (65 \<le> ord c \<and> ord c \<le> 90)"

definition is_printable :: "char \<Rightarrow> bool" where
  "is_printable c \<longleftrightarrow> 32 \<le> ord c \<and> ord c \<le> 126"

definition is_word_char :: "char \<Rightarrow> bool" where
  "is_word_char c \<longleftrightarrow> is_alpha c \<or> is_digit c \<or> c = CHR ''_''"

definition is_space :: "char \<Rightarrow> bool" where
  "is_space c \<longleftrightarrow> c = CHR '' '' \<or> (9 \<le> ord c \<and> ord c \<le> 13)"

definition to_lower :: "char \<Rightarrow> char" where
  "to_lower c = (if 65 \<le> ord c \<and> ord c \<le> 90 then char_of (ord c + 32) else c)"

lemmas char_class_defs = is_digit_def is_alpha_def is_printable_def is_word_char_def is_space_def

lemma word_char_printable: "is_word_char c \<Longrightarrow> is_printable c"
  by (auto simp: char_class_defs)

lemma printable_not_NUL: "is_printable c \<Longrightarrow> c \<noteq> NUL"
  by (auto simp: is_printable_def)

lemma digit_not_space: "is_digit c \<Longrightarrow> \<not> is_space c"
  by (auto simp: char_class_defs)

section \<open>Searching: \<^verbatim>\<open>memchr\<close>, \<^verbatim>\<open>memmem\<close>, prefix tests\<close>

fun memchr :: "char \<Rightarrow> string \<Rightarrow> nat option" where
  "memchr c [] = None"
| "memchr c (x # xs) = (if x = c then Some 0 else map_option Suc (memchr c xs))"

lemma memchr_Some_iff:
  "memchr c s = Some i \<longleftrightarrow> i < length s \<and> s ! i = c \<and> (\<forall>j < i. s ! j \<noteq> c)"
proof (induction s arbitrary: i)
  case (Cons x xs)
  then show ?case
    by (cases i) (auto simp: less_Suc_eq_0_disj)
qed simp

lemma memchr_None_iff: "memchr c s = None \<longleftrightarrow> c \<notin> set s"
  by (induction s) auto

lemma memchr_append:
  "memchr c (s @ t) = (case memchr c s of Some i \<Rightarrow> Some i
     | None \<Rightarrow> map_option (\<lambda>i. i + length s) (memchr c t))"
proof (induction s)
  case Nil
  show ?case by (simp add: option.map_ident)
next
  case (Cons x s)
  then show ?case by (cases "memchr c s") (simp_all add: option.map_comp comp_def)
qed

lemma memchr_Some_less: "memchr c s = Some i \<Longrightarrow> i < length s"
  by (simp add: memchr_Some_iff)

lemma memchr_take_no: "memchr c s = Some i \<Longrightarrow> c \<notin> set (take i s)"
  by (auto simp: memchr_Some_iff in_set_conv_nth)

lemma memchr_split: "c \<notin> set s \<Longrightarrow> memchr c (s @ c # t) = Some (length s)"
  by (induction s) auto

fun memmem :: "string \<Rightarrow> string \<Rightarrow> nat option" where
  "memmem [] pat = (if pat = [] then Some 0 else None)"
| "memmem (x # xs) pat =
     (if take (length pat) (x # xs) = pat then Some 0 else map_option Suc (memmem xs pat))"

lemma memmem_Some: "memmem s pat = Some i \<Longrightarrow> i + length pat \<le> length s \<and> take (length pat) (drop i s) = pat"
proof (induction s arbitrary: i)
  case (Cons x xs)
  show ?case
  proof (cases "take (length pat) (x # xs) = pat")
    case True
    then have "length pat \<le> length (x # xs)"
      by (metis length_take min.cobounded1)
    with True Cons.prems show ?thesis by simp
  next
    case False
    with Cons.prems obtain j where "memmem xs pat = Some j" "i = Suc j" by auto
    with Cons.IH show ?thesis by fastforce
  qed
qed (simp split: if_splits)

text \<open>\<^verbatim>\<open>strncmp (s, p, strlen p) == 0\<close> and its case-insensitive form.\<close>

definition starts_with :: "string \<Rightarrow> string \<Rightarrow> bool" where
  "starts_with p s \<longleftrightarrow> take (length p) s = p"

definition starts_with_nocase :: "string \<Rightarrow> string \<Rightarrow> bool" where
  "starts_with_nocase p s \<longleftrightarrow> map to_lower (take (length p) s) = map to_lower p"

lemma starts_with_append [simp]: "starts_with p (p @ s)"
  by (simp add: starts_with_def)

lemma starts_with_drop: "starts_with p s \<Longrightarrow> s = p @ drop (length p) s"
  by (metis append_take_drop_id starts_with_def)

section \<open>Decimal numbers: \<^verbatim>\<open>printf\<close> and \<^verbatim>\<open>strtol\<close>\<close>

definition digit_char :: "nat \<Rightarrow> char" where
  "digit_char d = char_of (48 + d)"

fun show_nat :: "nat \<Rightarrow> string" where
  "show_nat n = (if n < 10 then [digit_char n] else show_nat (n div 10) @ [digit_char (n mod 10)])"

declare show_nat.simps [simp del]

definition show_int :: "int \<Rightarrow> string" where
  "show_int i = (if i < 0 then CHR ''-'' # show_nat (nat (- i)) else show_nat (nat i))"

definition LONG_MAX :: int where "LONG_MAX = 9223372036854775807"
definition LONG_MIN :: int where "LONG_MIN = - 9223372036854775808"

definition clamp_long :: "int \<Rightarrow> int" where
  "clamp_long v = max LONG_MIN (min LONG_MAX v)"

definition digits_value :: "string \<Rightarrow> int" where
  "digits_value ds = foldl (\<lambda>acc c. 10 * acc + int (ord c - 48)) 0 ds"

text \<open>\<^verbatim>\<open>strtol (s, &e, 10)\<close>: the value and the rest of the string at \<^verbatim>\<open>e\<close>. Leading
  white space is skipped, one sign is taken, an out-of-range value saturates, and
  without a digit the value is 0 and \<^verbatim>\<open>e = s\<close>.\<close>

definition strtol :: "string \<Rightarrow> int \<times> string" where
  "strtol s =
     (let t = dropWhile is_space s;
          neg = (t \<noteq> [] \<and> hd t = CHR ''-'');
          u = (if t \<noteq> [] \<and> (hd t = CHR ''-'' \<or> hd t = CHR ''+'') then tl t else t);
          ds = takeWhile is_digit u
      in if ds = [] then (0, s)
         else (clamp_long (if neg then - digits_value ds else digits_value ds),
               dropWhile is_digit u))"

text \<open>\<^verbatim>\<open>atoi\<close> is \<^verbatim>\<open>(int) strtol (s, NULL, 10)\<close>: the low 32 bits, read as signed.\<close>

definition atoi :: "string \<Rightarrow> int" where
  "atoi s = sint (of_int (fst (strtol s)) :: 32 word)"

lemma strtol_range: "LONG_MIN \<le> fst (strtol s) \<and> fst (strtol s) \<le> LONG_MAX"
  by (auto simp: strtol_def Let_def clamp_long_def LONG_MIN_def LONG_MAX_def)

lemma ord_digit_char [simp]: "d < 10 \<Longrightarrow> ord (digit_char d) = 48 + d"
  by (simp add: digit_char_def)

lemma is_digit_digit_char [simp]: "d < 10 \<Longrightarrow> is_digit (digit_char d)"
  by (simp add: is_digit_def)

lemma show_nat_digits: "\<forall>c \<in> set (show_nat n). is_digit c"
proof (induction n rule: show_nat.induct)
  case (1 n)
  then show ?case
    by (subst show_nat.simps) auto
qed

lemma show_nat_nonempty [simp]: "show_nat n \<noteq> []"
  by (subst show_nat.simps) simp

lemma digits_value_snoc: "digits_value (ds @ [c]) = 10 * digits_value ds + int (ord c - 48)"
  by (simp add: digits_value_def)

lemma digits_value_show_nat [simp]: "digits_value (show_nat n) = int n"
proof (induction n rule: show_nat.induct)
  case (1 n)
  show ?case
  proof (cases "n < 10")
    case True
    then show ?thesis by (simp add: show_nat.simps digits_value_def)
  next
    case False
    have "digits_value (show_nat n) = 10 * int (n div 10) + int (n mod 10)"
      using False "1.IH" by (subst show_nat.simps) (simp add: digits_value_snoc)
    also have "\<dots> = int (10 * (n div 10) + n mod 10)"
      by (simp only: of_nat_add of_nat_mult of_nat_numeral)
    finally show ?thesis by simp
  qed
qed

lemma length_show_nat: "n < 10 ^ Suc k \<Longrightarrow> length (show_nat n) \<le> Suc k"
proof (induction k arbitrary: n)
  case 0
  then show ?case by (subst show_nat.simps) simp
next
  case (Suc k)
  show ?case
  proof (cases "n < 10")
    case False
    have "n div 10 < 10 ^ Suc k"
      using Suc.prems by (simp add: less_mult_imp_div_less)
    then have "length (show_nat (n div 10)) \<le> Suc k"
      by (rule Suc.IH)
    with False show ?thesis by (subst show_nat.simps) simp
  qed (simp add: show_nat.simps)
qed

lemma length_show_int: "LONG_MIN \<le> i \<Longrightarrow> i \<le> LONG_MAX \<Longrightarrow> length (show_int i) \<le> 20"
proof -
  assume "LONG_MIN \<le> i" "i \<le> LONG_MAX"
  then have "nat i < 10 ^ Suc 18" "nat (- i) < 10 ^ Suc 18"
    by (simp_all add: LONG_MIN_def LONG_MAX_def nat_less_iff)
  then have "length (show_nat (nat i)) \<le> Suc 18" "length (show_nat (nat (- i))) \<le> Suc 18"
    using length_show_nat by blast+
  then show ?thesis by (simp add: show_int_def)
qed

lemma strtol_digits:
  assumes "ds \<noteq> []" and "\<forall>c \<in> set ds. is_digit c" and "rest = [] \<or> \<not> is_digit (hd rest)"
  shows "strtol (ds @ rest) = (clamp_long (digits_value ds), rest)"
proof -
  obtain d ds' where ds: "ds = d # ds'" using assms(1) by (cases ds) auto
  with assms(2) have d: "is_digit d" by simp
  then have dw: "dropWhile is_space (ds @ rest) = ds @ rest"
    using ds digit_not_space by simp
  from d have sg: "d \<noteq> CHR ''-''" "d \<noteq> CHR ''+''"
    by (auto simp: is_digit_def)
  have tw: "takeWhile is_digit (ds @ rest) = ds" "dropWhile is_digit (ds @ rest) = rest"
    using assms(2,3) by (cases rest; simp add: takeWhile_append2 dropWhile_append2)+
  show ?thesis
    unfolding strtol_def Let_def dw using ds sg tw by simp
qed

lemma strtol_show_nat:
  assumes "int n \<le> LONG_MAX" and "rest = [] \<or> \<not> is_digit (hd rest)"
  shows "strtol (show_nat n @ rest) = (int n, rest)"
  using strtol_digits [OF show_nat_nonempty show_nat_digits assms(2)] assms(1)
  by (simp add: clamp_long_def LONG_MIN_def LONG_MAX_def)

end
