(* ===== verification/Errors.thy ===== *)
theory Errors
  imports Prelude
begin

text \<open>
  The error domain of \<^verbatim>\<open>core/err.h\<close>: the codes, their names, and the propagation
  macros. \<^verbatim>\<open>NS_ERROR_CHECK\<close> aborts the process, so a computation that uses it
  has an outcome type of its own.
\<close>

type_synonym ns_err = int

definition NS_OK :: ns_err where "NS_OK = 0"
definition NS_FAIL :: ns_err where "NS_FAIL = -1"
definition NS_ERR_NO_MEM :: ns_err where "NS_ERR_NO_MEM = 0x101"
definition NS_ERR_INVALID_ARG :: ns_err where "NS_ERR_INVALID_ARG = 0x110"
definition NS_ERR_INVALID_STATE :: ns_err where "NS_ERR_INVALID_STATE = 0x111"
definition NS_ERR_BIND_FAILED :: ns_err where "NS_ERR_BIND_FAILED = 0x201"
definition NS_ERR_LISTEN_FAILED :: ns_err where "NS_ERR_LISTEN_FAILED = 0x202"
definition NS_ERR_CONN_FAILED :: ns_err where "NS_ERR_CONN_FAILED = 0x203"
definition NS_ERR_CONN_LOST :: ns_err where "NS_ERR_CONN_LOST = 0x204"
definition NS_ERR_MAX_CONNECTIONS :: ns_err where "NS_ERR_MAX_CONNECTIONS = 0x205"
definition NS_ERR_PROTO_INVALID :: ns_err where "NS_ERR_PROTO_INVALID = 0x301"
definition NS_ERR_PROTO_OVERFLOW :: ns_err where "NS_ERR_PROTO_OVERFLOW = 0x302"
definition NS_ERR_TIMEOUT :: ns_err where "NS_ERR_TIMEOUT = 0x303"
definition NS_ERR_PRIV_DROP :: ns_err where "NS_ERR_PRIV_DROP = 0x401"
definition NS_ERR_THREAD :: ns_err where "NS_ERR_THREAD = 0x402"

lemmas ns_err_defs [ns_defs] = NS_OK_def NS_FAIL_def NS_ERR_NO_MEM_def NS_ERR_INVALID_ARG_def
  NS_ERR_INVALID_STATE_def NS_ERR_BIND_FAILED_def NS_ERR_LISTEN_FAILED_def NS_ERR_CONN_FAILED_def
  NS_ERR_CONN_LOST_def NS_ERR_MAX_CONNECTIONS_def NS_ERR_PROTO_INVALID_def
  NS_ERR_PROTO_OVERFLOW_def NS_ERR_TIMEOUT_def NS_ERR_PRIV_DROP_def NS_ERR_THREAD_def

definition ns_err_to_name :: "ns_err \<Rightarrow> string" where
  "ns_err_to_name e =
     (if e = NS_OK then ''NS_OK''
      else if e = NS_FAIL then ''NS_FAIL''
      else if e = NS_ERR_NO_MEM then ''NS_ERR_NO_MEM''
      else if e = NS_ERR_INVALID_ARG then ''NS_ERR_INVALID_ARG''
      else if e = NS_ERR_INVALID_STATE then ''NS_ERR_INVALID_STATE''
      else if e = NS_ERR_BIND_FAILED then ''NS_ERR_BIND_FAILED''
      else if e = NS_ERR_LISTEN_FAILED then ''NS_ERR_LISTEN_FAILED''
      else if e = NS_ERR_CONN_FAILED then ''NS_ERR_CONN_FAILED''
      else if e = NS_ERR_CONN_LOST then ''NS_ERR_CONN_LOST''
      else if e = NS_ERR_MAX_CONNECTIONS then ''NS_ERR_MAX_CONNECTIONS''
      else if e = NS_ERR_PROTO_INVALID then ''NS_ERR_PROTO_INVALID''
      else if e = NS_ERR_PROTO_OVERFLOW then ''NS_ERR_PROTO_OVERFLOW''
      else if e = NS_ERR_TIMEOUT then ''NS_ERR_TIMEOUT''
      else if e = NS_ERR_PRIV_DROP then ''NS_ERR_PRIV_DROP''
      else if e = NS_ERR_THREAD then ''NS_ERR_THREAD''
      else ''NS_ERR_UNKNOWN'')"

text \<open>The process outcome: \<^verbatim>\<open>abort ()\<close> with the code that caused it, or a normal result.\<close>

datatype 'a outcome = Abort ns_err | Done 'a

definition NS_ERROR_CHECK :: "ns_err \<Rightarrow> 'a outcome \<Rightarrow> 'a outcome" where
  "NS_ERROR_CHECK rc k = (if rc \<noteq> NS_OK then Abort rc else k)"

definition NS_RETURN_ON_ERROR :: "ns_err \<Rightarrow> ns_err \<Rightarrow> ns_err" where
  "NS_RETURN_ON_ERROR rc k = (if rc \<noteq> NS_OK then rc else k)"

definition ns_codes :: "ns_err list" where
  "ns_codes = [NS_OK, NS_FAIL, NS_ERR_NO_MEM, NS_ERR_INVALID_ARG, NS_ERR_INVALID_STATE,
     NS_ERR_BIND_FAILED, NS_ERR_LISTEN_FAILED, NS_ERR_CONN_FAILED, NS_ERR_CONN_LOST,
     NS_ERR_MAX_CONNECTIONS, NS_ERR_PROTO_INVALID, NS_ERR_PROTO_OVERFLOW, NS_ERR_TIMEOUT,
     NS_ERR_PRIV_DROP, NS_ERR_THREAD]"

lemma ns_codes_distinct: "distinct (map ns_err_to_name (ns_codes))"
  by (simp add: ns_codes_def ns_err_to_name_def ns_err_defs)

lemma NS_ERROR_CHECK_Done: "NS_ERROR_CHECK rc k = Done x \<longleftrightarrow> rc = NS_OK \<and> k = Done x"
  by (simp add: NS_ERROR_CHECK_def)

end
