(* ===== verification/Ansi_Menu.thy ===== *)
theory Ansi_Menu
  imports Prelude
begin

text \<open>
  The escape-sequence builders of \<^verbatim>\<open>ui/ansi.c\<close> and the generic menu of \<^verbatim>\<open>ui/menu.c\<close>. A
  builder is the pair \<^verbatim>\<open>snprintf\<close> gives: the text in the buffer and the length it
  returns. The renderers of this program write through an append that checks the space
  left; the interface \<open>bounded_append\<close> states what such an append promises, and the
  renderers are then equal to a plain concatenation that fits or is refused as a whole.
\<close>

section \<open>Escape sequences\<close>

datatype ansi_attr = ANSI_RESET | ANSI_BOLD | ANSI_DIM | ANSI_ITALIC | ANSI_BLINK | ANSI_REVERSE

datatype ansi_color = ANSI_BLACK | ANSI_RED | ANSI_GREEN | ANSI_YELLOW | ANSI_BLUE | ANSI_MAGENTA
  | ANSI_CYAN | ANSI_WHITE | ANSI_DEFAULT

fun attr_code :: "ansi_attr \<Rightarrow> nat" where
  "attr_code ANSI_RESET = 0"
| "attr_code ANSI_BOLD = 1"
| "attr_code ANSI_DIM = 2"
| "attr_code ANSI_ITALIC = 3"
| "attr_code ANSI_BLINK = 5"
| "attr_code ANSI_REVERSE = 7"

fun color_code :: "ansi_color \<Rightarrow> nat" where
  "color_code ANSI_BLACK = 0"
| "color_code ANSI_RED = 1"
| "color_code ANSI_GREEN = 2"
| "color_code ANSI_YELLOW = 3"
| "color_code ANSI_BLUE = 4"
| "color_code ANSI_MAGENTA = 5"
| "color_code ANSI_CYAN = 6"
| "color_code ANSI_WHITE = 7"
| "color_code ANSI_DEFAULT = 9"

abbreviation csi :: "string \<Rightarrow> string" where "csi s \<equiv> ESC # CHR ''['' # s"

definition ansi_cursor_pos :: "nat \<Rightarrow> 16 word \<Rightarrow> 16 word \<Rightarrow> string \<times> nat" where
  "ansi_cursor_pos sz row col =
     snprintf sz (csi (show_nat (unat row) @ '';'' @ show_nat (unat col) @ ''H''))"

definition ansi_clear_screen :: "nat \<Rightarrow> string \<times> nat" where
  "ansi_clear_screen sz = snprintf sz (csi ''2J'')"

definition ansi_clear_line :: "nat \<Rightarrow> string \<times> nat" where
  "ansi_clear_line sz = snprintf sz (csi ''2K'')"

definition ansi_hide_cursor :: "nat \<Rightarrow> string \<times> nat" where
  "ansi_hide_cursor sz = snprintf sz (csi ''?25l'')"

definition ansi_show_cursor :: "nat \<Rightarrow> string \<times> nat" where
  "ansi_show_cursor sz = snprintf sz (csi ''?25h'')"

definition ansi_reset :: "nat \<Rightarrow> string \<times> nat" where
  "ansi_reset sz = snprintf sz (csi ''0m'')"

definition ansi_sgr :: "nat \<Rightarrow> ansi_attr \<Rightarrow> ansi_color \<Rightarrow> ansi_color \<Rightarrow> string \<times> nat" where
  "ansi_sgr sz attr fg bg =
     snprintf sz (csi (show_nat (attr_code attr) @ '';3'' @ show_nat (color_code fg) @ '';4''
       @ show_nat (color_code bg) @ ''m''))"

lemma attr_code_less: "attr_code a < 10"
  by (cases a) auto

lemma color_code_less: "color_code c < 10"
  by (cases c) auto

text \<open>Every sequence fits the 64-byte scratch buffer the menu renders through, so
  \<^verbatim>\<open>snprintf\<close> stores all of it and returns its length.\<close>

lemma ansi_sgr_64:
  "ansi_sgr 64 a f b = (csi (show_nat (attr_code a) @ '';3'' @ show_nat (color_code f) @ '';4''
       @ show_nat (color_code b) @ ''m''), 10)"
  using attr_code_less [of a] color_code_less [of f] color_code_less [of b]
  by (simp add: ansi_sgr_def snprintf_def show_nat.simps)

section \<open>Bounded appends\<close>

locale bounded_append =
  fixes cap :: nat
    and put :: "string \<Rightarrow> 'st \<Rightarrow> 'st"
    and content :: "'st \<Rightarrow> string option"
  assumes put_content:
    "content (put s st) =
       (case content st of None \<Rightarrow> None
        | Some b \<Rightarrow> if length b + length s < cap then Some (b @ s) else None)"
begin

lemma fold_put_None: "content st = None \<Longrightarrow> content (fold put ss st) = None"
  by (induction ss arbitrary: st) (simp_all add: put_content)

lemma fold_put:
  "content st = Some b \<Longrightarrow> length b < cap \<Longrightarrow>
   content (fold put ss st) = (if length b + length (concat ss) < cap then Some (b @ concat ss) else None)"
proof (induction ss arbitrary: st b)
  case (Cons s ss)
  show ?case
  proof (cases "length b + length s < cap")
    case True
    with Cons.prems have "content (put s st) = Some (b @ s)" by (simp add: put_content)
    from Cons.IH [OF this] True show ?thesis by (simp add: add.assoc)
  next
    case False
    with Cons.prems have "content (put s st) = None" by (simp add: put_content)
    from fold_put_None [OF this, of ss] False show ?thesis by simp
  qed
qed simp

end

section \<open>Menus\<close>

definition MENU_MAX_ITEMS :: nat where "MENU_MAX_ITEMS = 16"
definition MENU_LABEL_MAX :: nat where "MENU_LABEL_MAX = 48"

text \<open>\<open>'g\<close> is what \<^verbatim>\<open>user_data\<close> points to; \<open>None\<close> is the null pointer.\<close>

record 'g menu_item =
  mi_label :: string
  mi_key :: char
  mi_user_data :: "'g option"

record 'g menu =
  m_title :: "string option"
  m_subtitle :: "string option"
  m_items :: "'g menu_item list"
  m_title_color :: ansi_color
  m_item_color :: ansi_color
  m_key_color :: ansi_color

text \<open>The macros \<^verbatim>\<open>APPEND\<close> and \<^verbatim>\<open>APPEND_STR\<close> of \<^verbatim>\<open>menu_render\<close>: \<open>None\<close> is the early
  \<^verbatim>\<open>return -1\<close>.\<close>

definition menu_put :: "nat \<Rightarrow> string \<Rightarrow> string option \<Rightarrow> string option" where
  "menu_put bufsz s st =
     (case st of None \<Rightarrow> None
      | Some b \<Rightarrow> if length b + length s \<ge> bufsz then None else Some (b @ s))"

text \<open>\<^verbatim>\<open>n = ansi_... (tmp, sizeof tmp, ...); if (n > 0) APPEND (tmp, n)\<close>\<close>

definition menu_put_tmp :: "nat \<Rightarrow> string \<times> nat \<Rightarrow> string option \<Rightarrow> string option" where
  "menu_put_tmp bufsz tn st = (if snd tn > 0 then menu_put bufsz (take (snd tn) (fst tn)) st else st)"

definition menu_put_item :: "nat \<Rightarrow> 'g menu \<Rightarrow> 'g menu_item \<Rightarrow> string option \<Rightarrow> string option" where
  "menu_put_item bufsz m it st =
     (let st = menu_put_tmp bufsz (ansi_sgr 64 ANSI_BOLD (m_key_color m) ANSI_DEFAULT) st;
          st = menu_put_tmp bufsz (snprintf 64 (''  ['' @ [mi_key it] @ ''] '')) st;
          st = menu_put_tmp bufsz (ansi_sgr 64 ANSI_RESET (m_item_color m) ANSI_DEFAULT) st;
          st = menu_put bufsz (mi_label it) st;
          st = menu_put_tmp bufsz (ansi_reset 64) st
      in menu_put bufsz crlf st)"

definition menu_render :: "'g menu \<Rightarrow> nat \<Rightarrow> string option" where
  "menu_render m bufsz =
     (if bufsz = 0 then None
      else
       let st = Some [];
           st = menu_put_tmp bufsz (ansi_clear_screen 64) st;
           st = menu_put_tmp bufsz (ansi_cursor_pos 64 1 1) st;
           st = menu_put_tmp bufsz (ansi_sgr 64 ANSI_BOLD (m_title_color m) ANSI_DEFAULT) st;
           st = (case m_title m of None \<Rightarrow> st | Some t \<Rightarrow> menu_put bufsz t st);
           st = menu_put_tmp bufsz (ansi_reset 64) st;
           st = menu_put bufsz crlf st;
           st = (case m_subtitle m of None \<Rightarrow> st
                 | Some t \<Rightarrow>
                    let st = menu_put_tmp bufsz (ansi_sgr 64 ANSI_DIM ANSI_WHITE ANSI_DEFAULT) st;
                        st = menu_put bufsz t st;
                        st = menu_put_tmp bufsz (ansi_reset 64) st
                    in menu_put bufsz crlf st);
           st = menu_put bufsz crlf st;
           st = fold (menu_put_item bufsz m) (m_items m) st;
           st = menu_put bufsz crlf st;
           st = menu_put_tmp bufsz (ansi_sgr 64 ANSI_DIM ANSI_WHITE ANSI_DEFAULT) st;
           st = menu_put bufsz ''Press a key to select: '' st
       in menu_put_tmp bufsz (ansi_reset 64) st)"

text \<open>The lookup returns the index of the item, \<open>-1\<close> when no item has the key.\<close>

fun menu_scan :: "'g menu_item list \<Rightarrow> char \<Rightarrow> nat \<Rightarrow> int" where
  "menu_scan [] key i = -1"
| "menu_scan (it # its) key i = (if mi_key it = key then int i else menu_scan its key (Suc i))"

definition menu_handle_key :: "'g menu \<Rightarrow> char \<Rightarrow> int" where
  "menu_handle_key m key = menu_scan (m_items m) key 0"

section \<open>The rendered text\<close>

interpretation menu_buf: bounded_append bufsz "menu_put bufsz" "\<lambda>st. st" for bufsz
  by unfold_locales (auto simp: menu_put_def split: option.splits)

abbreviation sgr_text :: "ansi_attr \<Rightarrow> ansi_color \<Rightarrow> string" where
  "sgr_text a f \<equiv> csi (show_nat (attr_code a) @ '';3'' @ show_nat (color_code f) @ '';49m'')"

definition item_parts :: "'g menu \<Rightarrow> 'g menu_item \<Rightarrow> string list" where
  "item_parts m it = [sgr_text ANSI_BOLD (m_key_color m), ''  ['' @ [mi_key it] @ ''] '',
     sgr_text ANSI_RESET (m_item_color m), mi_label it, csi ''0m'', crlf]"

definition menu_parts :: "'g menu \<Rightarrow> string list" where
  "menu_parts m =
     [csi ''2J'', csi ''1;1H'', sgr_text ANSI_BOLD (m_title_color m)]
     @ (case m_title m of None \<Rightarrow> [] | Some t \<Rightarrow> [t]) @ [csi ''0m'', crlf]
     @ (case m_subtitle m of None \<Rightarrow> []
        | Some t \<Rightarrow> [sgr_text ANSI_DIM ANSI_WHITE, t, csi ''0m'', crlf])
     @ [crlf] @ concat (map (item_parts m) (m_items m))
     @ [crlf, sgr_text ANSI_DIM ANSI_WHITE, ''Press a key to select: '', csi ''0m'']"

lemma show_nat_digit [simp]: "n < 10 \<Longrightarrow> show_nat n = [digit_char n]"
  by (simp add: show_nat.simps)

lemma digit_char_9 [simp]: "digit_char 9 = CHR ''9''" "digit_char (Suc 0) = CHR ''1''"
  by code_simp+

lemma put_tmp_sgr:
  "menu_put_tmp bufsz (ansi_sgr 64 a f ANSI_DEFAULT) st = menu_put bufsz (sgr_text a f) st"
  using attr_code_less [of a] color_code_less [of f]
  by (simp add: menu_put_tmp_def ansi_sgr_64)

lemma put_tmp_consts:
  "menu_put_tmp bufsz (ansi_reset 64) st = menu_put bufsz (csi ''0m'') st"
  "menu_put_tmp bufsz (ansi_clear_screen 64) st = menu_put bufsz (csi ''2J'') st"
  "menu_put_tmp bufsz (ansi_cursor_pos 64 1 1) st = menu_put bufsz (csi ''1;1H'') st"
  "menu_put_tmp bufsz (snprintf 64 (''  ['' @ [k] @ ''] '')) st = menu_put bufsz (''  ['' @ [k] @ ''] '') st"
  by (simp_all add: menu_put_tmp_def ansi_reset_def ansi_clear_screen_def ansi_cursor_pos_def
        snprintf_def)

lemma menu_put_item_fold: "menu_put_item bufsz m it st = fold (menu_put bufsz) (item_parts m it) st"
  unfolding menu_put_item_def item_parts_def put_tmp_sgr put_tmp_consts Let_def by simp

lemma menu_items_fold:
  "fold (menu_put_item bufsz m) its st = fold (menu_put bufsz) (concat (map (item_parts m) its)) st"
  by (induction its arbitrary: st) (simp_all add: menu_put_item_fold)

lemma menu_render_fold:
  "0 < bufsz \<Longrightarrow> menu_render m bufsz = fold (menu_put bufsz) (menu_parts m) (Some [])"
  unfolding menu_render_def menu_parts_def put_tmp_sgr put_tmp_consts Let_def menu_items_fold
  by (simp split: option.split)

text \<open>\<^verbatim>\<open>menu_render\<close> writes the menu text exactly when it fits below the buffer size (with
  room for the NUL), and reports failure otherwise; it never writes a truncated menu and
  never past the buffer.\<close>

theorem menu_render_exact:
  "menu_render m bufsz =
     (if length (concat (menu_parts m)) < bufsz then Some (concat (menu_parts m)) else None)"
proof (cases "bufsz = 0")
  case True
  then show ?thesis by (simp add: menu_render_def)
next
  case False
  then show ?thesis
    using menu_buf.fold_put [of "Some []" "[]" bufsz "menu_parts m"]
    by (simp add: menu_render_fold)
qed

lemma menu_scan_spec:
  "menu_scan its key i = (case memchr key (map mi_key its) of None \<Rightarrow> -1 | Some k \<Rightarrow> int (i + k))"
  by (induction its arbitrary: i) (auto split: option.splits)

lemma menu_handle_key_range:
  "menu_handle_key m key = -1 \<or> (0 \<le> menu_handle_key m key \<and> nat (menu_handle_key m key) < length (m_items m))"
  by (auto simp: menu_handle_key_def menu_scan_spec split: option.splits dest: memchr_Some_less)

text \<open>the key lookup returns the first item with that key, and \<open>-1\<close> exactly when no
  item has it.\<close>

theorem menu_handle_key_first:
  "(menu_handle_key m key = -1 \<and> key \<notin> mi_key ` set (m_items m))
   \<or> (\<exists>i < length (m_items m). menu_handle_key m key = int i \<and> mi_key (m_items m ! i) = key
        \<and> key \<notin> mi_key ` set (take i (m_items m)))"
proof (cases "memchr key (map mi_key (m_items m))")
  case None
  then have "key \<notin> mi_key ` set (m_items m)" by (simp add: memchr_None_iff)
  with None show ?thesis by (simp add: menu_handle_key_def menu_scan_spec)
next
  case (Some i)
  then have "i < length (m_items m)" "mi_key (m_items m ! i) = key"
    by (auto simp: memchr_Some_iff)
  moreover from memchr_take_no [OF Some] have "key \<notin> mi_key ` set (take i (m_items m))"
    by (simp add: take_map)
  ultimately show ?thesis
    using Some by (auto simp: menu_handle_key_def menu_scan_spec)
qed

end
