(* ===== verification/Bbs.thy ===== *)
theory Bbs
  imports Ansi_Menu
begin

text \<open>
  The main screen of the BBS, \<^verbatim>\<open>ui/bbs.c\<close>: logo, tagline, date and online count, the
  two-column menu and the legend, written through an overflow-guarded append. The
  broken-down local time is an argument (the C code calls \<^verbatim>\<open>time\<close> and \<^verbatim>\<open>localtime_r\<close>).
  The row and column indices are \<^verbatim>\<open>uint8_t\<close> there; the one sum of two of them is
  reduced modulo 256 here.
\<close>

record tm =
  tm_wday :: nat
  tm_mday :: nat
  tm_mon :: nat
  tm_year :: nat
  tm_hour :: nat
  tm_min :: nat

record 'g bbs_screen =
  bs_hostname :: string
  bs_online :: "32 word"
  bs_items :: "'g menu_item list"
  bs_left_count :: nat

definition two_digits :: "nat \<Rightarrow> string" where
  "two_digits n = [digit_char (n div 10 mod 10), digit_char (n mod 10)]"

definition name_at :: "string list \<Rightarrow> nat \<Rightarrow> string" where
  "name_at ns i = (if i < length ns then ns ! i else ''?'')"

text \<open>\<^verbatim>\<open>strftime\<close> with the format \<^verbatim>\<open>%a %e %b %Y  %H:%M\<close> in the C locale.\<close>

definition strftime_date :: "tm \<Rightarrow> string" where
  "strftime_date t =
     name_at [''Sun'', ''Mon'', ''Tue'', ''Wed'', ''Thu'', ''Fri'', ''Sat''] (tm_wday t) @ '' ''
     @ (if tm_mday t < 10 then '' '' @ [digit_char (tm_mday t)] else two_digits (tm_mday t)) @ '' ''
     @ name_at [''Jan'', ''Feb'', ''Mar'', ''Apr'', ''May'', ''Jun'', ''Jul'', ''Aug'', ''Sep'',
                ''Oct'', ''Nov'', ''Dec''] (tm_mon t) @ '' ''
     @ show_nat (tm_year t) @ ''  '' @ two_digits (tm_hour t) @ '':'' @ two_digits (tm_min t)"

definition RST :: string where "RST = csi ''0m''"
definition DIM :: string where "DIM = csi ''2m''"
definition GRN :: string where "GRN = csi ''1;32m''"
definition YLW :: string where "YLW = csi ''33m''"
definition CYN :: string where "CYN = csi ''1;36m''"

text \<open>The macro \<^verbatim>\<open>APPEND\<close>: the flag \<^verbatim>\<open>ok\<close> and the bytes written so far.\<close>

definition bbs_put :: "nat \<Rightarrow> string \<Rightarrow> bool \<times> string \<Rightarrow> bool \<times> string" where
  "bbs_put bufsz s st =
     (case st of (ok, buf) \<Rightarrow>
        if ok then (if snd (snprintf (bufsz - length buf) s) \<ge> bufsz - length buf then (False, buf)
                    else (True, buf @ s))
        else (ok, buf))"

text \<open>\<^verbatim>\<open>%-ns\<close>\<close>

definition pad_right :: "nat \<Rightarrow> string \<Rightarrow> string" where
  "pad_right n s = s @ replicate (n - length s) (CHR '' '')"

definition LOGO :: string where
  "LOGO = GRN
     @ ''  ___  _____ _____ _____ _    _  __'' @ crlf
     @ '' / _ '' @ [BSL] @ ''| ____|_   _| ____| |   '' @ [BSL] @ '' '' @ [BSL] @ ''/ /'' @ crlf
     @ ''| | | |  _|   | | |  _| | |    '' @ [BSL] @ ''  / '' @ crlf
     @ ''| |_| | |___  | | | |___| |___ /  '' @ [BSL] @ '' '' @ crlf
     @ '' '' @ [BSL] @ ''___/|_____| |_| |_____|_____/_/'' @ [BSL] @ ''_'' @ [BSL] @ crlf
     @ RST"

text \<open>An array slot past the last item is a zeroed item.\<close>

definition item_at :: "'g menu_item list \<Rightarrow> nat \<Rightarrow> 'g menu_item" where
  "item_at its i =
     (if i < length its then its ! i else \<lparr>mi_label = [], mi_key = NUL, mi_user_data = None\<rparr>)"

definition right_end :: "'g bbs_screen \<Rightarrow> nat" where
  "right_end sc = (if length (bs_items sc) > 0 then length (bs_items sc) - 1 else 0)"

definition bbs_rows :: "'g bbs_screen \<Rightarrow> nat" where
  "bbs_rows sc =
     (let right_rows = (if right_end sc > bs_left_count sc then right_end sc - bs_left_count sc else 0)
      in if right_rows > bs_left_count sc then right_rows else bs_left_count sc)"

definition bbs_row :: "nat \<Rightarrow> 'g bbs_screen \<Rightarrow> nat \<Rightarrow> bool \<times> string \<Rightarrow> bool \<times> string" where
  "bbs_row bufsz sc row st =
     (let st = (if row < bs_left_count sc
                then (let it = item_at (bs_items sc) row
                      in bbs_put bufsz (YLW @ ''  ['' @ [mi_key it] @ '']'' @ RST @ '' '' @ pad_right 24 (mi_label it)) st)
                else bbs_put bufsz (''  '' @ ''   '' @ ''  '' @ pad_right 24 []) st);
          ri = (bs_left_count sc + row) mod 256;
          st = (if ri < right_end sc
                then (let it = item_at (bs_items sc) ri
                      in bbs_put bufsz (YLW @ ''  ['' @ [mi_key it] @ '']'' @ RST @ '' '' @ mi_label it) st)
                else st)
      in bbs_put bufsz crlf st)"

definition bbs_render :: "tm \<Rightarrow> 'g bbs_screen \<Rightarrow> nat \<Rightarrow> string option" where
  "bbs_render now sc bufsz =
     (let st = (True, []);
          st = bbs_put bufsz (csi ''2J'' @ csi ''H'') st;
          st = bbs_put bufsz LOGO st;
          st = bbs_put bufsz (YLW @ ''  B'' @ MIDDOT @ ''B'' @ MIDDOT @ ''S'' @ RST @ DIM @ ''  '' @ EMDASH
                 @ ''  '' @ bs_hostname sc @ RST @ crlf) st;
          st = bbs_put bufsz (DIM @ ''  '' @ strftime_date now @ ''  '' @ MIDDOT @ ''  Users online: ''
                 @ show_nat (unat (bs_online sc)) @ RST @ crlf) st;
          st = bbs_put bufsz crlf st;
          st = bbs_put bufsz (CYN @ ''  '' @ pad_right 29 (hline 2 @ '' GAMES '' @ hline 17) @ ''  ''
                 @ hline 2 @ '' BBS '' @ hline 18 @ crlf @ RST) st;
          st = fold (bbs_row bufsz sc) [0..<bbs_rows sc] st;
          st = bbs_put bufsz crlf st;
          st = bbs_put bufsz (DIM @ ''  '' @ hline 58 @ crlf @ ''  Druk een letter om te selecteren''
                 @ RST @ ''  '' @ YLW @ ''[Q]'' @ RST @ DIM @ '' Uitloggen'' @ RST @ crlf) st
      in case st of (ok, buf) \<Rightarrow> if \<not> ok then None else Some buf)"

section \<open>The rendered text\<close>

interpretation bbs_buf: bounded_append bufsz "bbs_put bufsz" "\<lambda>(ok, buf). if ok then Some buf else None"
  for bufsz
  by unfold_locales (auto simp: bbs_put_def snprintf_def split: prod.splits)

definition row_parts :: "'g bbs_screen \<Rightarrow> nat \<Rightarrow> string list" where
  "row_parts sc row =
     [if row < bs_left_count sc
      then YLW @ ''  ['' @ [mi_key (item_at (bs_items sc) row)] @ '']'' @ RST @ '' ''
        @ pad_right 24 (mi_label (item_at (bs_items sc) row))
      else ''  '' @ ''   '' @ ''  '' @ pad_right 24 []]
     @ (let ri = (bs_left_count sc + row) mod 256
        in if ri < right_end sc
           then [YLW @ ''  ['' @ [mi_key (item_at (bs_items sc) ri)] @ '']'' @ RST @ '' ''
                   @ mi_label (item_at (bs_items sc) ri)]
           else [])
     @ [crlf]"

definition bbs_head :: "tm \<Rightarrow> 'g bbs_screen \<Rightarrow> string list" where
  "bbs_head now sc =
     [csi ''2J'' @ csi ''H'', LOGO,
      YLW @ ''  B'' @ MIDDOT @ ''B'' @ MIDDOT @ ''S'' @ RST @ DIM @ ''  '' @ EMDASH
        @ ''  '' @ bs_hostname sc @ RST @ crlf,
      DIM @ ''  '' @ strftime_date now @ ''  '' @ MIDDOT @ ''  Users online: ''
        @ show_nat (unat (bs_online sc)) @ RST @ crlf,
      crlf,
      CYN @ ''  '' @ pad_right 29 (hline 2 @ '' GAMES '' @ hline 17) @ ''  ''
        @ hline 2 @ '' BBS '' @ hline 18 @ crlf @ RST]"

definition bbs_foot :: "string list" where
  "bbs_foot =
     [crlf, DIM @ ''  '' @ hline 58 @ crlf @ ''  Druk een letter om te selecteren''
        @ RST @ ''  '' @ YLW @ ''[Q]'' @ RST @ DIM @ '' Uitloggen'' @ RST @ crlf]"

definition bbs_parts :: "tm \<Rightarrow> 'g bbs_screen \<Rightarrow> string list" where
  "bbs_parts now sc = bbs_head now sc @ concat (map (row_parts sc) [0..<bbs_rows sc]) @ bbs_foot"

lemma bbs_row_fold: "bbs_row bufsz sc row st = fold (bbs_put bufsz) (row_parts sc row) st"
  unfolding bbs_row_def row_parts_def Let_def by (cases "row < bs_left_count sc") simp_all

lemma bbs_rows_fold:
  "fold (bbs_row bufsz sc) rows st = fold (bbs_put bufsz) (concat (map (row_parts sc) rows)) st"
  by (induction rows arbitrary: st) (simp_all add: bbs_row_fold)

lemma bbs_render_fold:
  "bbs_render now sc bufsz =
     (case fold (bbs_put bufsz) (bbs_parts now sc) (True, []) of (ok, buf) \<Rightarrow> if ok then Some buf else None)"
  unfolding bbs_render_def bbs_parts_def bbs_head_def bbs_foot_def Let_def bbs_rows_fold fold_append
  by (simp add: if_not_P split: prod.split)

lemma bbs_render_exact_pos:
  assumes "0 < bufsz"
  shows "bbs_render now sc bufsz =
     (if length (concat (bbs_parts now sc)) < bufsz then Some (concat (bbs_parts now sc)) else None)"
  using bbs_buf.fold_put [of "(True, [])" "[]" bufsz "bbs_parts now sc"] assms
  by (simp add: bbs_render_fold)

section \<open>The main screen always fits\<close>

lemma length_hline [ns_len, simp]: "length (hline n) = 3 * n"
  by (induction n) (simp_all add: hline_def)

lemma length_pad_right [ns_len]: "length (pad_right n s) = max n (length s)"
  by (simp add: pad_right_def)

lemma length_name_at: "\<forall>n \<in> set ns. length n \<le> 3 \<Longrightarrow> length (name_at ns i) \<le> 3"
  by (auto simp: name_at_def)

lemma length_strftime: "tm_year t < 10000 \<Longrightarrow> length (strftime_date t) \<le> 22"
  using length_show_nat [of "tm_year t" 3]
    length_name_at [of "[''Sun'', ''Mon'', ''Tue'', ''Wed'', ''Thu'', ''Fri'', ''Sat'']" "tm_wday t"]
    length_name_at [of "[''Jan'', ''Feb'', ''Mar'', ''Apr'', ''May'', ''Jun'', ''Jul'', ''Aug'', ''Sep'',
                ''Oct'', ''Nov'', ''Dec'']" "tm_mon t"]
  by (simp add: strftime_date_def two_digits_def)

lemma length_row_parts:
  assumes "\<forall>it \<in> set (bs_items sc). length (mi_label it) < MENU_LABEL_MAX"
  shows "length (concat (row_parts sc row)) \<le> 130"
proof -
  have lab: "length (mi_label (item_at (bs_items sc) i)) < 48" for i
    using assms by (auto simp: item_at_def MENU_LABEL_MAX_def)
  have "length (concat (row_parts sc row)) \<le> (5 + 5 + 4 + 48) + (5 + 5 + 4 + 48) + 2"
    using lab [of row] lab [of "(bs_left_count sc + row) mod 256"]
    by (auto simp: row_parts_def Let_def YLW_def RST_def length_pad_right max_def)
  then show ?thesis by simp
qed

lemma length_rows:
  assumes "\<forall>it \<in> set (bs_items sc). length (mi_label it) < MENU_LABEL_MAX"
  shows "length (concat (concat (map (row_parts sc) rows))) \<le> 130 * length rows"
  using length_row_parts [OF assms] by (induction rows) (auto intro: add_mono)

lemma bbs_rows_bound: "length (bs_items sc) \<le> MENU_MAX_ITEMS \<Longrightarrow> bbs_rows sc \<le> max 16 (bs_left_count sc)"
  by (auto simp: bbs_rows_def right_end_def Let_def MENU_MAX_ITEMS_def)

lemma length_bbs_head:
  assumes "tm_year now < 10000"
  shows "length (concat (bbs_head now sc)) \<le> 600 + length (bs_hostname sc)"
proof -
  have "unat (bs_online sc) < 2 ^ LENGTH(32)" by (rule unsigned_less)
  then have "unat (bs_online sc) < 10 ^ Suc 9" by simp
  then have "length (show_nat (unat (bs_online sc))) \<le> 10"
    using length_show_nat by fastforce
  then show ?thesis
    using length_strftime [OF assms]
    by (simp add: bbs_head_def LOGO_def YLW_def RST_def DIM_def GRN_def CYN_def MIDDOT_def EMDASH_def
          length_pad_right)
qed

text \<open>the main screen is never refused for lack of space: with at most 16 items whose
  labels fit their 48-byte fields, a host name of up to 255 bytes and a four-digit year,
  \<^verbatim>\<open>bbs_render\<close> into a buffer of \<^verbatim>\<open>TELNET_SEND_BUFSZ\<close> (8192) bytes returns the whole
  screen, and it is shorter than the buffer.\<close>

theorem bbs_render_fits:
  assumes "length (bs_items sc) \<le> MENU_MAX_ITEMS" and "bs_left_count sc \<le> MENU_MAX_ITEMS"
    and "\<forall>it \<in> set (bs_items sc). length (mi_label it) < MENU_LABEL_MAX"
    and "length (bs_hostname sc) \<le> 255" and "tm_year now < 10000"
  shows "bbs_render now sc 8192 = Some (concat (bbs_parts now sc)) \<and> length (concat (bbs_parts now sc)) < 8192"
proof -
  have rows: "bbs_rows sc \<le> 16"
    using bbs_rows_bound [OF assms(1)] assms(2) by (simp add: MENU_MAX_ITEMS_def)
  have foot: "length (concat bbs_foot) \<le> 300"
    by (simp add: bbs_foot_def YLW_def RST_def DIM_def)
  have "length (concat (bbs_parts now sc)) \<le> (600 + 255) + 130 * 16 + 300"
    using length_bbs_head [OF assms(5), of sc] length_rows [OF assms(3), of "[0..<bbs_rows sc]"]
      foot rows assms(4) by (simp add: bbs_parts_def)
  then have "length (concat (bbs_parts now sc)) < 8192" by simp
  then show ?thesis by (simp add: bbs_render_exact_pos)
qed

theorem bbs_render_fits_witness:
  "\<exists>s. bbs_render \<lparr>tm_wday = 6, tm_mday = 7, tm_mon = 5, tm_year = 2025, tm_hour = 12, tm_min = 34\<rparr>
     \<lparr>bs_hostname = ''oetelx.nl'', bs_online = 3,
      bs_items = [\<lparr>mi_label = ''Chess'', mi_key = CHR ''c'', mi_user_data = Some True\<rparr>,
                  \<lparr>mi_label = ''Uitloggen'', mi_key = CHR ''q'', mi_user_data = None\<rparr>],
      bs_left_count = 1\<rparr> 8192 = Some s \<and> length s < 8192"
  by (rule exI, rule bbs_render_fits) (simp_all add: MENU_MAX_ITEMS_def MENU_LABEL_MAX_def)

end
