(* ===== verification/Iac_Parser.thy ===== *)
theory Iac_Parser
  imports Prelude
begin

text \<open>
  The telnet command decoder of \<^verbatim>\<open>protocol/telnet/telnet_proto.c\<close>: a push parser that is
  fed raw socket bytes and calls back with plain data, option negotiations and
  subnegotiation blocks. The callbacks update a context \<open>'c\<close>, so one feed maps a parser
  and a context to a parser and a context. The outgoing builders \<^verbatim>\<open>iac_write_*\<close> are at
  the end of the model. The lemmas show that what is decoded does not depend on how
  the stream was cut into reads, and that decoding inverts the telnet encoding.
\<close>

section \<open>The model\<close>

definition TELNET_IAC :: byte where "TELNET_IAC = 255"
definition TELNET_DONT :: byte where "TELNET_DONT = 254"
definition TELNET_DO :: byte where "TELNET_DO = 253"
definition TELNET_WONT :: byte where "TELNET_WONT = 252"
definition TELNET_WILL :: byte where "TELNET_WILL = 251"
definition TELNET_SB :: byte where "TELNET_SB = 250"
definition TELNET_SE :: byte where "TELNET_SE = 240"
definition TELOPT_ECHO :: byte where "TELOPT_ECHO = 1"
definition TELOPT_SGA :: byte where "TELOPT_SGA = 3"
definition TELOPT_NAWS :: byte where "TELOPT_NAWS = 31"

lemmas telnet_codes [ns_defs] = TELNET_IAC_def TELNET_DONT_def TELNET_DO_def TELNET_WONT_def
  TELNET_WILL_def TELNET_SB_def TELNET_SE_def TELOPT_ECHO_def TELOPT_SGA_def TELOPT_NAWS_def

datatype iac_parse_state = IAC_DATA | IAC_IAC | IAC_CMD | IAC_SB | IAC_SB_IAC

record iac_option_event =
  oe_opt :: byte
  oe_cmd :: byte

text \<open>The payload array of the C event is cut to its \<^verbatim>\<open>len\<close> valid bytes.\<close>

record iac_sb_event =
  se_opt :: byte
  se_data :: "byte list"
  se_len :: "8 word"

record 'c iac_callbacks =
  cb_on_data :: "('c \<Rightarrow> byte list \<Rightarrow> 'c) option"
  cb_on_option :: "('c \<Rightarrow> iac_option_event \<Rightarrow> 'c) option"
  cb_on_subneg :: "('c \<Rightarrow> iac_sb_event \<Rightarrow> 'c) option"

record iac_parser =
  ip_state :: iac_parse_state
  ip_cmd :: byte
  sb_buf :: "byte list"
  sb_len :: "8 word"
  sb_opt :: byte

definition SB_BUFSZ :: nat where "SB_BUFSZ = 255"

definition iac_parser_init :: iac_parser where
  "iac_parser_init = \<lparr>ip_state = IAC_DATA, ip_cmd = 0, sb_buf = replicate SB_BUFSZ 0,
     sb_len = 0, sb_opt = 0\<rparr>"

definition call_data :: "'c iac_callbacks \<Rightarrow> byte list \<Rightarrow> 'c \<Rightarrow> 'c" where
  "call_data cbs d c = (case cb_on_data cbs of None \<Rightarrow> c | Some f \<Rightarrow> f c d)"

definition call_option :: "'c iac_callbacks \<Rightarrow> iac_option_event \<Rightarrow> 'c \<Rightarrow> 'c" where
  "call_option cbs ev c = (case cb_on_option cbs of None \<Rightarrow> c | Some f \<Rightarrow> f c ev)"

definition call_subneg :: "'c iac_callbacks \<Rightarrow> iac_sb_event \<Rightarrow> 'c \<Rightarrow> 'c" where
  "call_subneg cbs ev c = (case cb_on_subneg cbs of None \<Rightarrow> c | Some f \<Rightarrow> f c ev)"

text \<open>The macro \<^verbatim>\<open>FLUSH_DATA\<close>; the pending slice is the list \<open>d\<close>.\<close>

definition flush_data :: "'c iac_callbacks \<Rightarrow> byte list \<Rightarrow> 'c \<Rightarrow> 'c" where
  "flush_data cbs d c = (if d \<noteq> [] then call_data cbs d c else c)"

text \<open>One iteration of the byte loop of \<^verbatim>\<open>iac_parser_feed\<close>.\<close>

definition iac_byte ::
  "'c iac_callbacks \<Rightarrow> byte \<Rightarrow> iac_parser \<times> byte list \<times> 'c \<Rightarrow> iac_parser \<times> byte list \<times> 'c" where
  "iac_byte cbs b st =
     (case st of (p, d, c) \<Rightarrow>
       (case ip_state p of
          IAC_DATA \<Rightarrow>
            (if b = TELNET_IAC then (p\<lparr>ip_state := IAC_IAC\<rparr>, [], flush_data cbs d c)
             else (p, d @ [b], c))
        | IAC_IAC \<Rightarrow>
            (if b = TELNET_IAC then (p\<lparr>ip_state := IAC_DATA\<rparr>, d, call_data cbs [0xFF] c)
             else if b = TELNET_SB then (p\<lparr>sb_len := 0, ip_state := IAC_SB\<rparr>, d, c)
             else if b = TELNET_WILL \<or> b = TELNET_WONT \<or> b = TELNET_DO \<or> b = TELNET_DONT
               then (p\<lparr>ip_cmd := b, ip_state := IAC_CMD\<rparr>, d, c)
             else (p\<lparr>ip_state := IAC_DATA\<rparr>, d, c))
        | IAC_CMD \<Rightarrow>
            (p\<lparr>ip_state := IAC_DATA\<rparr>, d, call_option cbs \<lparr>oe_opt = b, oe_cmd = ip_cmd p\<rparr> c)
        | IAC_SB \<Rightarrow>
            (if b = TELNET_IAC then (p\<lparr>ip_state := IAC_SB_IAC\<rparr>, d, c)
             else if sb_len p = 0 then (p\<lparr>sb_opt := b, sb_len := sb_len p + 1\<rparr>, d, c)
             else if sb_len p < of_nat SB_BUFSZ
               then (p\<lparr>sb_buf := (sb_buf p)[unat (sb_len p - 1) := b], sb_len := sb_len p + 1\<rparr>, d, c)
             else (p, d, c))
        | IAC_SB_IAC \<Rightarrow>
            (if b = TELNET_SE
             then (let len = (if sb_len p > 1 then sb_len p - 1 else 0)
                   in (p\<lparr>ip_state := IAC_DATA\<rparr>, d,
                       call_subneg cbs \<lparr>se_opt = sb_opt p, se_data = take (unat len) (sb_buf p),
                                        se_len = len\<rparr> c))
             else (p\<lparr>ip_state := IAC_SB\<rparr>, d, c))))"

definition iac_parser_feed :: "'c iac_callbacks \<Rightarrow> iac_parser \<Rightarrow> byte list \<Rightarrow> 'c \<Rightarrow> iac_parser \<times> 'c" where
  "iac_parser_feed cbs p raw c =
     (if raw = [] then (p, c)
      else (case fold (iac_byte cbs) raw (p, [], c) of (p', d, c') \<Rightarrow> (p', flush_data cbs d c')))"

text \<open>The builders: \<open>None\<close> is the return code \<open>-1\<close> for a buffer that is too small.\<close>

definition iac_write :: "byte \<Rightarrow> nat \<Rightarrow> byte \<Rightarrow> byte list option" where
  "iac_write cmd sz opt = (if sz < 3 then None else Some [TELNET_IAC, cmd, opt])"

definition iac_write_will :: "nat \<Rightarrow> byte \<Rightarrow> byte list option" where
  "iac_write_will = iac_write TELNET_WILL"
definition iac_write_wont :: "nat \<Rightarrow> byte \<Rightarrow> byte list option" where
  "iac_write_wont = iac_write TELNET_WONT"
definition iac_write_do :: "nat \<Rightarrow> byte \<Rightarrow> byte list option" where
  "iac_write_do = iac_write TELNET_DO"
definition iac_write_dont :: "nat \<Rightarrow> byte \<Rightarrow> byte list option" where
  "iac_write_dont = iac_write TELNET_DONT"

section \<open>Cutting the stream into reads\<close>

text \<open>
  A sink is a set of callbacks for which two adjacent data slices have the effect of one:
  what a read boundary inside plain data does to the callbacks. For a sink the parser is
  a function of the byte stream alone.
\<close>

definition settle :: "'c iac_callbacks \<Rightarrow> iac_parser \<times> byte list \<times> 'c \<Rightarrow> iac_parser \<times> 'c" where
  "settle cbs st = (case st of (p, d, c) \<Rightarrow> (p, flush_data cbs d c))"

lemma feed_settle: "iac_parser_feed cbs p raw c = settle cbs (fold (iac_byte cbs) raw (p, [], c))"
  by (simp add: iac_parser_feed_def settle_def flush_data_def)

lemma iac_byte_pending:
  assumes "ip_state p \<noteq> IAC_DATA" and "iac_byte cbs b (p, d, c) = (p', d', c')"
  shows "d' = d"
  using assms
  by (auto simp: iac_byte_def Let_def split: iac_parse_state.splits if_splits)

locale iac_sink =
  fixes cbs :: "'c iac_callbacks"
  assumes data_append:
    "x \<noteq> [] \<Longrightarrow> y \<noteq> [] \<Longrightarrow> call_data cbs (x @ y) c = call_data cbs y (call_data cbs x c)"
begin

lemma flush_append: "flush_data cbs (x @ y) c = flush_data cbs y (flush_data cbs x c)"
  using data_append by (cases "x = []"; cases "y = []") (simp_all add: flush_data_def)

text \<open>Outside plain data nothing is pending, so the pending slice commutes with a step.\<close>

definition quiet :: "iac_parser \<times> byte list \<times> 'c \<Rightarrow> bool" where
  "quiet st \<longleftrightarrow> (case st of (p, d, c) \<Rightarrow> ip_state p \<noteq> IAC_DATA \<longrightarrow> d = [])"

lemma quiet_byte: "quiet st \<Longrightarrow> quiet (iac_byte cbs b st)"
  by (auto simp: quiet_def iac_byte_def Let_def split: prod.splits iac_parse_state.splits if_splits)

lemma byte_settle:
  "quiet (p, d, c) \<Longrightarrow>
   settle cbs (iac_byte cbs b (p, d, c)) = settle cbs (iac_byte cbs b (p, [], flush_data cbs d c))"
  by (cases "ip_state p")
     (auto simp: quiet_def iac_byte_def settle_def Let_def flush_data_def data_append
           split: if_splits)

lemma byte_settle_eq:
  assumes "quiet st" "quiet st'" "settle cbs st = settle cbs st'"
  shows "settle cbs (iac_byte cbs b st) = settle cbs (iac_byte cbs b st')"
proof -
  obtain p d c where st: "st = (p, d, c)" by (cases st)
  obtain p' d' c' where st': "st' = (p', d', c')" by (cases st')
  from assms(3) have "p' = p" "flush_data cbs d' c' = flush_data cbs d c"
    by (simp_all add: st st' settle_def)
  with byte_settle [of p d c b] byte_settle [of p' d' c' b] assms(1,2) show ?thesis
    by (simp add: st st')
qed

lemma fold_settle:
  "quiet st \<Longrightarrow> quiet st' \<Longrightarrow> settle cbs st = settle cbs st' \<Longrightarrow>
   settle cbs (fold (iac_byte cbs) bs st) = settle cbs (fold (iac_byte cbs) bs st')"
proof (induction bs arbitrary: st st')
  case (Cons b bs)
  from Cons.IH [OF quiet_byte [OF Cons.prems(1)] quiet_byte [OF Cons.prems(2)]
      byte_settle_eq [OF Cons.prems, of b]]
  show ?case by simp
qed simp

lemma quiet_fold: "quiet st \<Longrightarrow> quiet (fold (iac_byte cbs) bs st)"
proof (induction bs arbitrary: st)
  case (Cons b bs)
  from Cons.IH [OF quiet_byte [OF Cons.prems, of b]] show ?case by simp
qed simp

lemma feed_append:
  "iac_parser_feed cbs p (xs @ ys) c = (case iac_parser_feed cbs p xs c of (p', c') \<Rightarrow> iac_parser_feed cbs p' ys c')"
proof -
  let ?st = "fold (iac_byte cbs) xs (p, [], c)"
  obtain p' d c' where st: "?st = (p', d, c')" by (cases ?st)
  have "quiet ?st" by (rule quiet_fold) (simp add: quiet_def)
  then have "settle cbs (fold (iac_byte cbs) ys ?st)
      = settle cbs (fold (iac_byte cbs) ys (p', [], flush_data cbs d c'))"
    by (rule fold_settle) (simp_all add: st quiet_def settle_def flush_data_def)
  then show ?thesis by (simp add: feed_settle st settle_def [of _ "(p', d, c')"])
qed

lemma feed_Cons:
  "iac_parser_feed cbs p (b # bs) c = (case iac_parser_feed cbs p [b] c of (p', c') \<Rightarrow> iac_parser_feed cbs p' bs c')"
  using feed_append [of p "[b]" bs c] by simp

end

section \<open>The decoded stream\<close>

text \<open>The items a telnet stream carries, and callbacks that collect them in order.\<close>

datatype telnet_item =
    TData byte
  | TOption byte byte
  | TSubneg byte "byte list"

definition collect_cbs :: "telnet_item list iac_callbacks" where
  "collect_cbs = \<lparr>cb_on_data = Some (\<lambda>c d. c @ map TData d),
     cb_on_option = Some (\<lambda>c ev. c @ [TOption (oe_cmd ev) (oe_opt ev)]),
     cb_on_subneg = Some (\<lambda>c ev. c @ [TSubneg (se_opt ev) (se_data ev)])\<rparr>"

interpretation collect: iac_sink collect_cbs
  by unfold_locales (simp add: call_data_def collect_cbs_def)

definition encode_byte :: "byte \<Rightarrow> byte list" where
  "encode_byte b = (if b = TELNET_IAC then [TELNET_IAC, TELNET_IAC] else [b])"

fun encode_item :: "telnet_item \<Rightarrow> byte list" where
  "encode_item (TData b) = encode_byte b"
| "encode_item (TOption cmd opt) = [TELNET_IAC, cmd, opt]"
| "encode_item (TSubneg opt dat) = [TELNET_IAC, TELNET_SB, opt] @ concat (map encode_byte dat) @ [TELNET_IAC, TELNET_SE]"

fun item_ok :: "telnet_item \<Rightarrow> bool" where
  "item_ok (TData b) = True"
| "item_ok (TOption cmd opt) \<longleftrightarrow> cmd \<in> {TELNET_WILL, TELNET_WONT, TELNET_DO, TELNET_DONT}"
| "item_ok (TSubneg opt dat) \<longleftrightarrow> opt \<noteq> TELNET_IAC"

text \<open>What arrives of an item: of a subnegotiation the first 254 payload bytes other than 255.\<close>

fun received :: "telnet_item \<Rightarrow> telnet_item" where
  "received (TSubneg opt dat) = TSubneg opt (take 254 (filter (\<lambda>b. b \<noteq> TELNET_IAC) dat))"
| "received it = it"

text \<open>The items that arrive whole.\<close>

fun item_whole :: "telnet_item \<Rightarrow> bool" where
  "item_whole (TSubneg opt dat) \<longleftrightarrow> TELNET_IAC \<notin> set dat \<and> length dat < SB_BUFSZ"
| "item_whole it = True"

lemma received_iff: "map received its = its \<longleftrightarrow> list_all item_whole its"
proof -
  have "take 254 (filter (\<lambda>b. b \<noteq> TELNET_IAC) dat) = dat \<longleftrightarrow> TELNET_IAC \<notin> set dat \<and> length dat < SB_BUFSZ" for dat
  proof
    assume eq: "take 254 (filter (\<lambda>b. b \<noteq> TELNET_IAC) dat) = dat"
    then have "set dat \<subseteq> set (filter (\<lambda>b. b \<noteq> TELNET_IAC) dat)" by (metis set_take_subset)
    moreover have "length dat \<le> 254" using arg_cong [OF eq, of length] by simp
    ultimately show "TELNET_IAC \<notin> set dat \<and> length dat < SB_BUFSZ" by (auto simp: SB_BUFSZ_def)
  next
    assume w: "TELNET_IAC \<notin> set dat \<and> length dat < SB_BUFSZ"
    then have "filter (\<lambda>b. b \<noteq> TELNET_IAC) dat = dat" by (auto simp: filter_id_conv)
    with w show "take 254 (filter (\<lambda>b. b \<noteq> TELNET_IAC) dat) = dat" by (simp add: SB_BUFSZ_def)
  qed
  then have "received it = it \<longleftrightarrow> item_whole it" for it by (cases it) simp_all
  then show ?thesis by (induction its) simp_all
qed

lemmas collect_simps = encode_byte_def call_data_def call_option_def call_subneg_def collect_cbs_def flush_data_def

text \<open>The payload loop: from a block whose option byte is in, \<open>k\<close> bytes stored.\<close>

lemma sb_payload:
  assumes "ip_state p = IAC_SB" and "sb_len p = of_nat (Suc k)" and "length (sb_buf p) = SB_BUFSZ"
    and "TELNET_IAC \<notin> set dat" and "k \<le> 254"
  shows "\<exists>p'. fold (iac_byte cbs) dat (p, d, c) = (p', d, c) \<and> ip_state p' = IAC_SB
     \<and> sb_len p' = of_nat (Suc (min 254 (k + length dat))) \<and> sb_opt p' = sb_opt p
     \<and> length (sb_buf p') = SB_BUFSZ
     \<and> take (min 254 (k + length dat)) (sb_buf p') = take 254 (take k (sb_buf p) @ dat)"
  using assms
proof (induction dat arbitrary: p k)
  case Nil
  then show ?case by (auto simp: min_absorb2 SB_BUFSZ_def)
next
  case (Cons b dat)
  have len: "unat (sb_len p) = Suc k"
    using Cons.prems by (simp add: unat_of_nat SB_BUFSZ_def del: of_nat_Suc)
  then have nz: "sb_len p \<noteq> 0" by auto
  have um: "unat (sb_len p - 1) = k"
    using len nz by (simp add: unat_minus_one)
  from Cons.prems have b: "b \<noteq> TELNET_IAC" "TELNET_IAC \<notin> set dat" by auto
  show ?case
  proof (cases "k < 254")
    case True
    let ?p = "p\<lparr>sb_buf := (sb_buf p)[k := b], sb_len := sb_len p + 1\<rparr>"
    have lt: "sb_len p < of_nat SB_BUFSZ"
      using True len by (simp add: word_less_nat_alt SB_BUFSZ_def)
    have step: "iac_byte cbs b (p, d, c) = (?p, d, c)"
      using Cons.prems(1) b nz lt um by (simp add: iac_byte_def)
    have tk: "take (Suc k) (sb_buf ?p) @ dat = take k (sb_buf p) @ b # dat"
      using Cons.prems True by (simp add: SB_BUFSZ_def take_Suc_conv_app_nth)
    have ih: "\<exists>p'. fold (iac_byte cbs) dat (?p, d, c) = (p', d, c) \<and> ip_state p' = IAC_SB
     \<and> sb_len p' = of_nat (Suc (min 254 (Suc k + length dat))) \<and> sb_opt p' = sb_opt ?p
     \<and> length (sb_buf p') = SB_BUFSZ
     \<and> take (min 254 (Suc k + length dat)) (sb_buf p') = take 254 (take (Suc k) (sb_buf ?p) @ dat)"
      by (rule Cons.IH) (use Cons.prems True b in \<open>auto simp: SB_BUFSZ_def\<close>)
    have "sb_opt ?p = sb_opt p" by simp
    with ih show ?thesis
      unfolding tk by (simp only: fold_Cons comp_apply step list.size add_Suc add_Suc_right
        add_0_right)
  next
    case False
    with Cons.prems have k: "k = 254" by simp
    have step: "iac_byte cbs b (p, d, c) = (p, d, c)"
      using Cons.prems(1,2) b nz k by (simp add: iac_byte_def SB_BUFSZ_def)
    have "\<exists>p'. fold (iac_byte cbs) dat (p, d, c) = (p', d, c) \<and> ip_state p' = IAC_SB
     \<and> sb_len p' = of_nat (Suc (min 254 (k + length dat))) \<and> sb_opt p' = sb_opt p
     \<and> length (sb_buf p') = SB_BUFSZ
     \<and> take (min 254 (k + length dat)) (sb_buf p') = take 254 (take k (sb_buf p) @ dat)"
      by (rule Cons.IH) (use Cons.prems b k in auto)
    then show ?thesis
      using Cons.prems(3) by (auto simp: step k SB_BUFSZ_def)
  qed
qed

text \<open>A doubled 255 leaves the parser where it was.\<close>

lemma sb_doubled:
  "ip_state p = IAC_SB \<Longrightarrow> fold (iac_byte cbs) (concat (map encode_byte dat)) (p, d, c)
     = fold (iac_byte cbs) (filter (\<lambda>b. b \<noteq> TELNET_IAC) dat) (p, d, c)"
proof (induction dat arbitrary: p)
  case (Cons b dat)
  show ?case
  proof (cases "b = TELNET_IAC")
    case True
    have "p\<lparr>ip_state := IAC_SB\<rparr> = p" using Cons.prems by simp
    then have "fold (iac_byte cbs) [TELNET_IAC, TELNET_IAC] (p, d, c) = (p, d, c)"
      using Cons.prems by (simp add: iac_byte_def telnet_codes)
    with Cons True show ?thesis by (simp add: encode_byte_def)
  next
    case False
    have "\<exists>p'. iac_byte cbs b (p, d, c) = (p', d, c) \<and> ip_state p' = IAC_SB"
      using Cons.prems False by (simp add: iac_byte_def)
    then obtain p' where "iac_byte cbs b (p, d, c) = (p', d, c)" "ip_state p' = IAC_SB" by blast
    with Cons.IH False show ?thesis by (simp add: encode_byte_def)
  qed
qed simp

text \<open>A whole block: at most 254 payload bytes are kept, in order.\<close>

lemma feed_subneg:
  assumes "ip_state p = IAC_DATA" and "length (sb_buf p) = SB_BUFSZ"
    and "opt \<noteq> TELNET_IAC" and "kept = filter (\<lambda>b. b \<noteq> TELNET_IAC) dat"
  shows "\<exists>p'. iac_parser_feed cbs p (encode_item (TSubneg opt dat)) c
     = (p', call_subneg cbs \<lparr>se_opt = opt, se_data = take 254 kept,
                             se_len = of_nat (min 254 (length kept))\<rparr> c)
     \<and> ip_state p' = IAC_DATA \<and> length (sb_buf p') = SB_BUFSZ"
proof -
  let ?p1 = "p\<lparr>ip_state := IAC_SB, sb_len := 1, sb_opt := opt\<rparr>"
  have open_blk: "fold (iac_byte cbs) [TELNET_IAC, TELNET_SB, opt] (p, [], c) = (?p1, [], c)"
    using assms(1,3) by (simp add: iac_byte_def flush_data_def telnet_codes)
  obtain p' where p': "fold (iac_byte cbs) kept (?p1, [], c) = (p', [], c)" "ip_state p' = IAC_SB"
    "sb_len p' = of_nat (Suc (min 254 (length kept)))" "sb_opt p' = opt"
    "length (sb_buf p') = SB_BUFSZ" "take (min 254 (length kept)) (sb_buf p') = take 254 kept"
    using sb_payload [of ?p1 0 kept cbs "[]" c] assms(2,4) by auto
  let ?m = "min 254 (length kept)"
  have len: "(if sb_len p' > 1 then sb_len p' - 1 else 0) = of_nat ?m"
  proof (cases "?m = 0")
    case False
    have "unat (of_nat (Suc ?m) :: 8 word) = Suc ?m"
      by (simp add: unat_of_nat del: of_nat_Suc)
    with False p'(3) have "sb_len p' > 1" by (simp add: word_less_nat_alt del: of_nat_Suc)
    then show ?thesis using p'(3) by simp
  qed (simp add: p'(3))
  have "fold (iac_byte cbs) [TELNET_IAC, TELNET_SE] (p', [], c)
     = (p'\<lparr>ip_state := IAC_DATA\<rparr>, [], call_subneg cbs \<lparr>se_opt = sb_opt p',
         se_data = take (unat (if sb_len p' > 1 then sb_len p' - 1 else 0)) (sb_buf p'),
         se_len = (if sb_len p' > 1 then sb_len p' - 1 else 0)\<rparr> c)"
    using p'(2) by (simp add: iac_byte_def telnet_codes Let_def)
  moreover have "unat (of_nat ?m :: 8 word) = ?m" by (simp add: unat_of_nat)
  ultimately have "fold (iac_byte cbs) [TELNET_IAC, TELNET_SE] (p', [], c)
     = (p'\<lparr>ip_state := IAC_DATA\<rparr>, [], call_subneg cbs \<lparr>se_opt = opt, se_data = take 254 kept,
         se_len = of_nat ?m\<rparr> c)"
    unfolding len by (simp only: p'(4,6))
  moreover have "fold (iac_byte cbs) (concat (map encode_byte dat)) (?p1, [], c) = (p', [], c)"
    using sb_doubled [of ?p1 cbs dat "[]" c] p'(1) by (simp add: assms(4))
  ultimately show ?thesis using open_blk p'(5)
    by (simp add: feed_settle settle_def flush_data_def)
qed

definition parser_ok :: "iac_parser \<Rightarrow> bool" where
  "parser_ok p \<longleftrightarrow> ip_state p = IAC_DATA \<and> length (sb_buf p) = SB_BUFSZ"

lemma parser_ok_init: "parser_ok iac_parser_init"
  by (simp add: parser_ok_def iac_parser_init_def)

lemma feed_item:
  assumes "parser_ok p" and "item_ok it"
  shows "\<exists>p'. iac_parser_feed collect_cbs p (encode_item it) c = (p', c @ [received it]) \<and> parser_ok p'"
proof (cases it)
  case (TData b)
  with assms show ?thesis
    by (auto simp: parser_ok_def feed_settle settle_def iac_byte_def collect_simps telnet_codes)
next
  case (TOption cmd opt)
  with assms show ?thesis
    by (auto simp: parser_ok_def feed_settle settle_def iac_byte_def collect_simps telnet_codes)
next
  case (TSubneg opt dat)
  with assms feed_subneg [of p opt _ dat collect_cbs c, OF _ _ _ refl] show ?thesis
    by (auto simp: parser_ok_def collect_simps SB_BUFSZ_def)
qed

lemma feed_command:
  assumes "parser_ok p"
  shows "cmd \<in> {TELNET_WILL, TELNET_WONT, TELNET_DO, TELNET_DONT} \<Longrightarrow>
    snd (iac_parser_feed collect_cbs p [TELNET_IAC, cmd, opt] []) = [TOption cmd opt]"
  using feed_item [OF assms, of "TOption cmd opt" "[]"] by auto

lemma feed_items:
  "parser_ok p \<Longrightarrow> list_all item_ok its \<Longrightarrow>
   \<exists>p'. iac_parser_feed collect_cbs p (concat (map encode_item its)) c = (p', c @ map received its) \<and> parser_ok p'"
proof (induction its arbitrary: p c)
  case Nil
  then show ?case by (simp add: iac_parser_feed_def)
next
  case (Cons it its)
  then obtain p1 where "iac_parser_feed collect_cbs p (encode_item it) c = (p1, c @ [received it])" "parser_ok p1"
    using feed_item by fastforce
  moreover from Cons this(2) obtain p2 where
    "iac_parser_feed collect_cbs p1 (concat (map encode_item its)) (c @ [received it]) = (p2, (c @ [received it]) @ map received its)"
    "parser_ok p2"
    by (metis list.pred_inject(2))
  ultimately show ?case by (simp add: collect.feed_append)
qed

section \<open>Properties\<close>

text \<open>C18: what the decoder makes of an encoded stream. For every list of data bytes, option
  commands (WILL/WONT/DO/DONT with an option) and subnegotiations (of an option other than
  255), encoded as telnet asks with every byte 255 doubled, a parser between commands delivers
  the items in order, each whole except that a subnegotiation arrives without its payload
  bytes 255 and cut to 254 bytes, and is between commands again. So the decoder inverts the
  encoding exactly on streams whose subnegotiations have fewer than 255 payload bytes, none of
  them 255.\<close>

theorem iac_decode_encode:
  assumes "parser_ok p" and "list_all item_ok its"
  shows "snd (iac_parser_feed collect_cbs p (concat (map encode_item its)) []) = map received its
    \<and> parser_ok (fst (iac_parser_feed collect_cbs p (concat (map encode_item its)) []))
    \<and> (map received its = its \<longleftrightarrow> list_all item_whole its)"
  using feed_items [OF assms, of "[]"] received_iff by auto

theorem iac_decode_encode_witness:
  "parser_ok iac_parser_init
   \<and> snd (iac_parser_feed collect_cbs iac_parser_init
       (concat (map encode_item [TData 255, TSubneg TELOPT_NAWS [0, 80, 0, 24], TData 65])) [])
     = [TData 255, TSubneg TELOPT_NAWS [0, 80, 0, 24], TData 65]
   \<and> snd (iac_parser_feed collect_cbs iac_parser_init (concat (map encode_item [TSubneg TELOPT_NAWS [0, 255, 0, 24]])) [])
     = [TSubneg TELOPT_NAWS [0, 0, 24]]"
  using iac_decode_encode [OF parser_ok_init, of "[TData 255, TSubneg TELOPT_NAWS [0, 80, 0, 24], TData 65]"]
    iac_decode_encode [OF parser_ok_init, of "[TSubneg TELOPT_NAWS [0, 255, 0, 24]]"]
  by (simp add: parser_ok_init telnet_codes SB_BUFSZ_def)

text \<open>an oversized subnegotiation block cannot overflow the 255-byte buffer: whatever
  the payload length, the callback receives the first 254 bytes and the matching length,
  and the parser is between commands again.\<close>

theorem iac_subneg_bounded:
  assumes "parser_ok p" and "opt \<noteq> TELNET_IAC" and "TELNET_IAC \<notin> set dat"
  shows "snd (iac_parser_feed collect_cbs p (encode_item (TSubneg opt dat)) []) = [TSubneg opt (take 254 dat)]
       \<and> parser_ok (fst (iac_parser_feed collect_cbs p (encode_item (TSubneg opt dat)) []))"
proof -
  have "filter (\<lambda>b. b \<noteq> TELNET_IAC) dat = dat" using assms(3) by (auto simp: filter_id_conv)
  then show ?thesis using feed_item [OF assms(1), of "TSubneg opt dat" "[]"] assms(2) by auto
qed

theorem iac_subneg_bounded_witness:
  "snd (iac_parser_feed collect_cbs iac_parser_init (encode_item (TSubneg 24 (replicate 300 7))) [])
   = [TSubneg 24 (replicate 254 7)]"
  using iac_subneg_bounded [OF parser_ok_init, of 24 "replicate 300 7"]
  by (simp add: telnet_codes)

text \<open>window sizes with a byte 255 are lost. RFC 1073 sends such a byte doubled, as
  everywhere in telnet; inside a subnegotiation block the parser drops both, so a
  window of 255 columns arrives as a three-byte payload that is not a window size.\<close>

theorem naws_255_dropped:
  "snd (iac_parser_feed collect_cbs iac_parser_init
      [TELNET_IAC, TELNET_SB, TELOPT_NAWS, 0, TELNET_IAC, TELNET_IAC, 0, 24, TELNET_IAC, TELNET_SE] [])
   = [TSubneg TELOPT_NAWS [0, 0, 24]]"
  by code_simp

text \<open>the four builders refuse a buffer under three bytes and otherwise write a command
  that the decoder reads back as the same option with the command of that builder.\<close>

theorem iac_write_decodes:
  assumes "parser_ok p"
  shows "\<forall>(f, cmd) \<in> {(iac_write_will, TELNET_WILL), (iac_write_wont, TELNET_WONT),
                      (iac_write_do, TELNET_DO), (iac_write_dont, TELNET_DONT)}.
     (case f sz opt of
        None \<Rightarrow> sz < 3
      | Some bs \<Rightarrow> 3 \<le> sz \<and> length bs = 3
          \<and> snd (iac_parser_feed collect_cbs p bs []) = [TOption cmd opt])"
  using feed_command [OF assms]
  by (simp add: iac_write_def iac_write_will_def iac_write_wont_def iac_write_do_def
        iac_write_dont_def)

theorem iac_write_decodes_witness:
  "iac_write_will 16 TELOPT_ECHO = Some [255, 251, 1]
   \<and> snd (iac_parser_feed collect_cbs iac_parser_init [255, 251, 1] []) = [TOption TELNET_WILL TELOPT_ECHO]"
  using iac_write_decodes [OF parser_ok_init, of 16 TELOPT_ECHO]
  by (simp add: iac_write_will_def iac_write_def telnet_codes)

end
