(* ===== verification/Sqlite_Api.thy ===== *)
theory Sqlite_Api
  imports Prelude
begin

text \<open>
  The part of the SQLite C interface that \<^verbatim>\<open>chat_db.c\<close> calls. The engine itself is a
  third-party library whose source is not part of the program, so it is a parameter: the
  record below holds its entry points as functions over an abstract handle \<open>'db\<close>, and
  every definition of the chat storage takes that record as an argument. What the chat
  storage relies on is stated once, as the assumptions of the locale \<open>sqlite_chat\<close>, in
  terms of the contents of the three tables of the schema; they are the documented
  meaning of the eight statements the program sends.
\<close>

datatype sql_value = Sql_int int | Sql_text string

type_synonym sql_row = "sql_value list"

text \<open>
  \<^verbatim>\<open>sqlite3_open\<close>, \<^verbatim>\<open>sqlite3_exec\<close>: \<open>None\<close> is a result other than \<^verbatim>\<open>SQLITE_OK\<close>.
  \<^verbatim>\<open>sqlite3_prepare_v2\<close>: whether it returned \<^verbatim>\<open>SQLITE_OK\<close>. A bound statement that
  writes is stepped once: the new state and whether the step returned \<^verbatim>\<open>SQLITE_DONE\<close>.
  A bound query is stepped for its rows: the rows in the order the steps return them.
\<close>

record 'db sqlite =
  sqlite3_open :: "string \<Rightarrow> 'db option"
  sqlite3_exec :: "'db \<Rightarrow> string \<Rightarrow> 'db option"
  sqlite3_prepare_v2 :: "'db \<Rightarrow> string \<Rightarrow> bool"
  sqlite3_step_write :: "'db \<Rightarrow> string \<Rightarrow> sql_row \<Rightarrow> 'db \<times> bool"
  sqlite3_step_rows :: "'db \<Rightarrow> string \<Rightarrow> sql_row \<Rightarrow> sql_row list"
  sqlite3_last_insert_rowid :: "'db \<Rightarrow> int"

definition column_int :: "sql_row \<Rightarrow> nat \<Rightarrow> int" where
  "column_int row i =
     (if i < length row then (case row ! i of Sql_int v \<Rightarrow> v | Sql_text s \<Rightarrow> fst (strtol s)) else 0)"

definition column_text :: "sql_row \<Rightarrow> nat \<Rightarrow> string" where
  "column_text row i =
     (if i < length row then (case row ! i of Sql_int v \<Rightarrow> show_int v | Sql_text s \<Rightarrow> s) else [])"

section \<open>The schema and the statements\<close>

definition SCHEMA :: string where
  "SCHEMA = ''PRAGMA journal_mode=WAL;'' @ ''PRAGMA foreign_keys=ON;''
    @ ''CREATE TABLE IF NOT EXISTS rooms (  id   INTEGER PRIMARY KEY,  name TEXT UNIQUE NOT NULL);''
    @ ''CREATE TABLE IF NOT EXISTS messages (  id      INTEGER PRIMARY KEY AUTOINCREMENT,''
    @ ''  room_id INTEGER NOT NULL REFERENCES rooms(id),  user    TEXT NOT NULL,''
    @ ''  ts      INTEGER NOT NULL,  body    TEXT NOT NULL);''
    @ ''CREATE INDEX IF NOT EXISTS idx_messages_room ON messages(room_id, id);''
    @ ''CREATE TABLE IF NOT EXISTS presence (  room_id   INTEGER NOT NULL REFERENCES rooms(id),''
    @ ''  user      TEXT NOT NULL,  last_seen INTEGER NOT NULL,  PRIMARY KEY (room_id, user));''"

definition SQL_SEED_ROOM :: string where
  "SQL_SEED_ROOM = ''INSERT OR IGNORE INTO rooms(name) VALUES(?1);''"

definition SQL_LIST_ROOMS :: string where
  "SQL_LIST_ROOMS = ''SELECT id, name FROM rooms ORDER BY id;''"

definition SQL_INSERT_MESSAGE :: string where
  "SQL_INSERT_MESSAGE = ''INSERT INTO messages(room_id, user, ts, body) VALUES(?1,?2,?3,?4);''"

definition SQL_MESSAGES_SINCE :: string where
  "SQL_MESSAGES_SINCE = ''SELECT id, user, ts, body FROM messages ''
    @ ''WHERE room_id=?1 AND id>?2 ORDER BY id ASC LIMIT ?3;''"

definition SQL_MESSAGES_BEFORE :: string where
  "SQL_MESSAGES_BEFORE = ''SELECT id, user, ts, body FROM (''
    @ ''  SELECT id, user, ts, body FROM messages ''
    @ ''  WHERE room_id=?1 AND id<?2 ORDER BY id DESC LIMIT ?3'' @ '') ORDER BY id ASC;''"

definition SQL_MAX_MESSAGE_ID :: string where
  "SQL_MAX_MESSAGE_ID = ''SELECT COALESCE(MAX(id),0) FROM messages WHERE room_id=?1;''"

definition SQL_PRESENCE_SET :: string where
  "SQL_PRESENCE_SET = ''INSERT INTO presence(room_id, user, last_seen) VALUES(?1,?2,?3) ''
    @ ''ON CONFLICT(room_id, user) DO UPDATE SET last_seen=?3;''"

definition SQL_PRESENCE_CLEAR :: string where
  "SQL_PRESENCE_CLEAR = ''DELETE FROM presence WHERE room_id=?1 AND user=?2;''"

definition SQL_ACTIVE_USERS :: string where
  "SQL_ACTIVE_USERS = ''SELECT user FROM presence ''
    @ ''WHERE room_id=?1 AND last_seen>=?2 ORDER BY user;''"

lemmas sql_text_defs = SQL_SEED_ROOM_def SQL_LIST_ROOMS_def SQL_INSERT_MESSAGE_def
  SQL_MESSAGES_SINCE_def SQL_MESSAGES_BEFORE_def SQL_MAX_MESSAGE_ID_def SQL_PRESENCE_SET_def
  SQL_PRESENCE_CLEAR_def SQL_ACTIVE_USERS_def

section \<open>The tables\<close>

record msg_row =
  mr_id :: int
  mr_room :: int
  mr_user :: string
  mr_ts :: int
  mr_body :: string

text \<open>\<open>tb_seq\<close> is the largest message id ever used (\<^verbatim>\<open>AUTOINCREMENT\<close>).\<close>

record chat_tables =
  tb_rooms :: "(int \<times> string) list"
  tb_msgs :: "msg_row list"
  tb_seq :: int
  tb_presence :: "(int \<times> string \<times> int) list"

definition empty_tables :: chat_tables where
  "empty_tables = \<lparr>tb_rooms = [], tb_msgs = [], tb_seq = 0, tb_presence = []\<rparr>"

definition tables_ok :: "chat_tables \<Rightarrow> bool" where
  "tables_ok t \<longleftrightarrow> sorted_wrt (<) (map mr_id (tb_msgs t)) \<and> 0 \<le> tb_seq t
     \<and> (\<forall>m \<in> set (tb_msgs t). 0 < mr_id m \<and> mr_id m \<le> tb_seq t)"

definition msg_cols :: "msg_row \<Rightarrow> sql_row" where
  "msg_cols m = [Sql_int (mr_id m), Sql_text (mr_user m), Sql_int (mr_ts m), Sql_text (mr_body m)]"

text \<open>\<^verbatim>\<open>LIMIT n\<close>; a negative bound is no bound.\<close>

definition sql_limit :: "int \<Rightarrow> 'a list \<Rightarrow> 'a list" where
  "sql_limit n xs = (if n < 0 then xs else take (nat n) xs)"

definition upsert :: "int \<Rightarrow> string \<Rightarrow> int \<Rightarrow> (int \<times> string \<times> int) list \<Rightarrow> (int \<times> string \<times> int) list" where
  "upsert r u ts ps =
     (if (\<exists>p \<in> set ps. fst p = r \<and> fst (snd p) = u)
      then map (\<lambda>(r', u', ts'). if r' = r \<and> u' = u then (r', u', ts) else (r', u', ts')) ps
      else ps @ [(r, u, ts)])"

definition next_rowid :: "(int \<times> 'a) list \<Rightarrow> int" where
  "next_rowid rs = foldr max (map fst rs) 0 + 1"

definition q_since :: "chat_tables \<Rightarrow> int \<Rightarrow> int \<Rightarrow> msg_row list" where
  "q_since t r a = sort_key mr_id (filter (\<lambda>m. mr_room m = r \<and> a < mr_id m) (tb_msgs t))"

definition q_before :: "chat_tables \<Rightarrow> int \<Rightarrow> int \<Rightarrow> msg_row list" where
  "q_before t r b = sort_key mr_id (filter (\<lambda>m. mr_room m = r \<and> mr_id m < b) (tb_msgs t))"

definition q_max :: "chat_tables \<Rightarrow> int \<Rightarrow> int" where
  "q_max t r = foldr max (map mr_id (filter (\<lambda>m. mr_room m = r) (tb_msgs t))) 0"

definition q_active :: "chat_tables \<Rightarrow> int \<Rightarrow> int \<Rightarrow> string list" where
  "q_active t r t0 =
     sort (map (\<lambda>p. fst (snd p)) (filter (\<lambda>p. fst p = r \<and> t0 \<le> snd (snd p)) (tb_presence t)))"

section \<open>The documented behaviour\<close>

locale sqlite_chat =
  fixes sq :: "'db sqlite"
    and tables :: "'db \<Rightarrow> chat_tables"
  assumes schema_keeps: "sqlite3_exec sq db SCHEMA = Some db' \<Longrightarrow> tables db' = tables db"
    and seed_done: "sqlite3_step_write sq db SQL_SEED_ROOM [Sql_text nm] = (db', True) \<Longrightarrow>
      tables db' = (if nm \<in> snd ` set (tb_rooms (tables db)) then tables db
        else (tables db)\<lparr>tb_rooms := tb_rooms (tables db) @ [(next_rowid (tb_rooms (tables db)), nm)]\<rparr>)"
    and insert_done: "sqlite3_step_write sq db SQL_INSERT_MESSAGE
        [Sql_int r, Sql_text u, Sql_int ts, Sql_text b] = (db', True) \<Longrightarrow>
      tb_seq (tables db) < sqlite3_last_insert_rowid sq db'
      \<and> r \<in> fst ` set (tb_rooms (tables db))
      \<and> tables db' = (tables db)\<lparr>tb_msgs := tb_msgs (tables db)
            @ [\<lparr>mr_id = sqlite3_last_insert_rowid sq db', mr_room = r, mr_user = u, mr_ts = ts, mr_body = b\<rparr>],
          tb_seq := sqlite3_last_insert_rowid sq db'\<rparr>"
    and presence_set_done: "sqlite3_step_write sq db SQL_PRESENCE_SET
        [Sql_int r, Sql_text u, Sql_int ts] = (db', True) \<Longrightarrow>
      tables db' = (tables db)\<lparr>tb_presence := upsert r u ts (tb_presence (tables db))\<rparr>"
    and presence_clear_done: "sqlite3_step_write sq db SQL_PRESENCE_CLEAR
        [Sql_int r, Sql_text u] = (db', True) \<Longrightarrow>
      tables db' = (tables db)\<lparr>tb_presence :=
        filter (\<lambda>p. \<not> (fst p = r \<and> fst (snd p) = u)) (tb_presence (tables db))\<rparr>"
    and write_failed: "sqlite3_step_write sq db sql args = (db', False) \<Longrightarrow> tables db' = tables db"
    and rooms_rows: "sqlite3_step_rows sq db SQL_LIST_ROOMS [] =
      map (\<lambda>(i, n). [Sql_int i, Sql_text n]) (sort_key fst (tb_rooms (tables db)))"
    and since_rows: "sqlite3_step_rows sq db SQL_MESSAGES_SINCE [Sql_int r, Sql_int a, Sql_int n] =
      map msg_cols (sql_limit n (q_since (tables db) r a))"
    and before_rows: "sqlite3_step_rows sq db SQL_MESSAGES_BEFORE [Sql_int r, Sql_int a, Sql_int n] =
      map msg_cols (rev (sql_limit n (rev (q_before (tables db) r a))))"
    and max_rows: "sqlite3_step_rows sq db SQL_MAX_MESSAGE_ID [Sql_int r] = [[Sql_int (q_max (tables db) r)]]"
    and active_rows: "sqlite3_step_rows sq db SQL_ACTIVE_USERS [Sql_int r, Sql_int t0] =
      map (\<lambda>u. [Sql_text u]) (q_active (tables db) r t0)"

section \<open>An engine that behaves so\<close>

text \<open>
  A relational engine over the tables themselves that executes the statements above and
  refuses a message for a room that does not exist (\<^verbatim>\<open>PRAGMA foreign_keys=ON\<close>). It
  shows that the assumptions can hold together and runs the concrete examples.
\<close>

fun ref_write :: "chat_tables \<Rightarrow> string \<Rightarrow> sql_row \<Rightarrow> chat_tables \<times> bool" where
  "ref_write t sql [Sql_text n] =
     (if sql = SQL_SEED_ROOM
      then (if n \<in> set (map snd (tb_rooms t)) then (t, True)
            else (t\<lparr>tb_rooms := tb_rooms t @ [(next_rowid (tb_rooms t), n)]\<rparr>, True))
      else (t, False))"
| "ref_write t sql [Sql_int r, Sql_text u, Sql_int ts, Sql_text b] =
     (if sql = SQL_INSERT_MESSAGE \<and> r \<in> set (map fst (tb_rooms t))
      then (t\<lparr>tb_msgs := tb_msgs t @ [\<lparr>mr_id = tb_seq t + 1, mr_room = r, mr_user = u, mr_ts = ts, mr_body = b\<rparr>],
              tb_seq := tb_seq t + 1\<rparr>, True)
      else (t, False))"
| "ref_write t sql [Sql_int r, Sql_text u, Sql_int ts] =
     (if sql = SQL_PRESENCE_SET \<and> r \<in> set (map fst (tb_rooms t))
      then (t\<lparr>tb_presence := upsert r u ts (tb_presence t)\<rparr>, True)
      else (t, False))"
| "ref_write t sql [Sql_int r, Sql_text u] =
     (if sql = SQL_PRESENCE_CLEAR
      then (t\<lparr>tb_presence := filter (\<lambda>p. \<not> (fst p = r \<and> fst (snd p) = u)) (tb_presence t)\<rparr>, True)
      else (t, False))"
| "ref_write t sql _ = (t, False)"

fun ref_rows :: "chat_tables \<Rightarrow> string \<Rightarrow> sql_row \<Rightarrow> sql_row list" where
  "ref_rows t sql [] =
     (if sql = SQL_LIST_ROOMS then map (\<lambda>(i, n). [Sql_int i, Sql_text n]) (sort_key fst (tb_rooms t)) else [])"
| "ref_rows t sql [Sql_int r, Sql_int a, Sql_int n] =
     (if sql = SQL_MESSAGES_SINCE then map msg_cols (sql_limit n (q_since t r a))
      else if sql = SQL_MESSAGES_BEFORE then map msg_cols (rev (sql_limit n (rev (q_before t r a))))
      else [])"
| "ref_rows t sql [Sql_int r] = (if sql = SQL_MAX_MESSAGE_ID then [[Sql_int (q_max t r)]] else [])"
| "ref_rows t sql [Sql_int r, Sql_int t0] =
     (if sql = SQL_ACTIVE_USERS then map (\<lambda>u. [Sql_text u]) (q_active t r t0) else [])"
| "ref_rows t sql _ = []"

definition ref_sqlite :: "chat_tables sqlite" where
  "ref_sqlite = \<lparr>sqlite3_open = (\<lambda>_. Some empty_tables), sqlite3_exec = (\<lambda>t _. Some t),
     sqlite3_prepare_v2 = (\<lambda>_ _. True), sqlite3_step_write = ref_write,
     sqlite3_step_rows = ref_rows, sqlite3_last_insert_rowid = tb_seq\<rparr>"

lemma ref_write_failed: "ref_write t sql args = (t', False) \<Longrightarrow> t' = t"
  by (induction t sql args rule: ref_write.induct) (auto split: if_splits)

lemma sql_distinct: "SQL_MESSAGES_BEFORE \<noteq> SQL_MESSAGES_SINCE"
  by (simp add: sql_text_defs)

interpretation ref_engine: sqlite_chat ref_sqlite "\<lambda>t. t"
  by unfold_locales
     (auto simp: ref_sqlite_def sql_distinct image_iff split: if_splits dest: ref_write_failed)

section \<open>Consequences for sorted tables\<close>

lemma sorted_wrt_less_sorted: "sorted_wrt (<) (xs :: 'a :: linorder list) \<Longrightarrow> sorted xs"
  by (metis order.strict_implies_order sorted_wrt_mono_rel)

lemma tables_ok_filter_sorted:
  "tables_ok t \<Longrightarrow> sort_key mr_id (filter P (tb_msgs t)) = filter P (tb_msgs t)"
  by (simp add: tables_ok_def sort_key_id_if_sorted sorted_filter sorted_wrt_less_sorted)

lemma tables_ok_empty [simp]: "tables_ok empty_tables"
  by (simp add: tables_ok_def empty_tables_def)

end
