(* ===== verification/Chat_Db.thy ===== *)
theory Chat_Db
  imports Sqlite_Api
begin

text \<open>
  The storage module \<^verbatim>\<open>features/chat/chat_db.c\<close>, over the SQLite interface. Its only state
  is the process-wide handle \<^verbatim>\<open>s_db\<close>, an option here; the mutex makes every function
  atomic, so each is one step. The wall clock (\<^verbatim>\<open>time (NULL)\<close>) is an argument. The
  locale \<open>message_log\<close> is the contract the layers above rely on: per-room logs with
  increasing ids, appends at the end, and two cursor queries; it is established for the
  module by a \<^theory_text>\<open>sublocale\<close> of the SQLite assumptions.
\<close>

section \<open>The model\<close>

definition CHAT_NAME_MAX :: nat where "CHAT_NAME_MAX = 32"
definition CHAT_USER_MAX :: nat where "CHAT_USER_MAX = 32"
definition CHAT_BODY_MAX :: nat where "CHAT_BODY_MAX = 512"

lemmas chat_sizes [ns_defs] = CHAT_NAME_MAX_def CHAT_USER_MAX_def CHAT_BODY_MAX_def

record chat_room_row =
  rr_id :: int
  rr_name :: string

record chat_msg =
  cm_id :: int
  cm_user :: string
  cm_ts :: int
  cm_body :: string

definition s_seed_rooms :: "string list" where
  "s_seed_rooms = [''general'', ''games'', ''random'']"

text \<open>The environment variable, when set; the result is the path, or \<open>None\<close> when it does
  not fit, and the directory the function creates.\<close>

definition chat_db_default_path :: "string option \<Rightarrow> nat \<Rightarrow> string option \<times> string option" where
  "chat_db_default_path state_dir bufsz =
     (let use_state = (case state_dir of None \<Rightarrow> False | Some d \<Rightarrow> d \<noteq> []);
          text = (if use_state then takeWhile (\<lambda>c. c \<noteq> CHR '':'') (the state_dir) @ ''/chat.db''
                  else ''data/chat.db'')
      in (if length text \<ge> bufsz then None else Some text,
          if use_state then None else Some ''data''))"

definition seed_room :: "'db sqlite \<Rightarrow> string \<Rightarrow> 'db \<Rightarrow> 'db" where
  "seed_room sq n db = fst (sqlite3_step_write sq db SQL_SEED_ROOM [Sql_text n])"

definition chat_db_init :: "'db sqlite \<Rightarrow> 'db option \<Rightarrow> string \<Rightarrow> 'db option \<times> int" where
  "chat_db_init sq s_db path =
     (case s_db of
        Some db \<Rightarrow> (Some db, 0)
      | None \<Rightarrow>
         (case sqlite3_open sq path of
            None \<Rightarrow> (None, -1)
          | Some db \<Rightarrow>
             (case sqlite3_exec sq db SCHEMA of
                None \<Rightarrow> (None, -1)
              | Some db1 \<Rightarrow>
                 (Some (if sqlite3_prepare_v2 sq db1 SQL_SEED_ROOM then fold (seed_room sq) s_seed_rooms db1
                        else db1), 0))))"

definition chat_db_close :: "'db option \<Rightarrow> 'db option" where
  "chat_db_close s_db = None"

definition chat_db_list_rooms :: "'db sqlite \<Rightarrow> 'db option \<Rightarrow> nat \<Rightarrow> chat_room_row list" where
  "chat_db_list_rooms sq s_db mx =
     (case s_db of
        None \<Rightarrow> []
      | Some db \<Rightarrow>
         if \<not> sqlite3_prepare_v2 sq db SQL_LIST_ROOMS then []
         else map (\<lambda>row. \<lparr>rr_id = column_int row 0, rr_name = str_copy CHAT_NAME_MAX (column_text row 1)\<rparr>)
                (take mx (sqlite3_step_rows sq db SQL_LIST_ROOMS [])))"

definition chat_db_insert_message ::
  "'db sqlite \<Rightarrow> int \<Rightarrow> 'db option \<Rightarrow> int \<Rightarrow> string \<Rightarrow> string \<Rightarrow> 'db option \<times> int" where
  "chat_db_insert_message sq now s_db room_id user body =
     (case s_db of
        None \<Rightarrow> (s_db, -1)
      | Some db \<Rightarrow>
         if \<not> sqlite3_prepare_v2 sq db SQL_INSERT_MESSAGE then (s_db, -1)
         else (case sqlite3_step_write sq db SQL_INSERT_MESSAGE
                      [Sql_int room_id, Sql_text (cstr user), Sql_int now, Sql_text (cstr body)] of
                 (db', don) \<Rightarrow> (Some db', if don then sqlite3_last_insert_rowid sq db' else -1)))"

definition row_to_msg :: "sql_row \<Rightarrow> chat_msg" where
  "row_to_msg row = \<lparr>cm_id = column_int row 0, cm_user = str_copy CHAT_USER_MAX (column_text row 1),
     cm_ts = column_int row 2, cm_body = str_copy CHAT_BODY_MAX (column_text row 3)\<rparr>"

definition chat_db_messages_since ::
  "'db sqlite \<Rightarrow> 'db option \<Rightarrow> int \<Rightarrow> int \<Rightarrow> int \<Rightarrow> int \<Rightarrow> chat_msg list" where
  "chat_db_messages_since sq s_db room_id after_id limit mx =
     (let limit = (if limit > mx then mx else limit)
      in case s_db of
           None \<Rightarrow> []
         | Some db \<Rightarrow>
            if \<not> sqlite3_prepare_v2 sq db SQL_MESSAGES_SINCE then []
            else map row_to_msg (take (nat mx) (sqlite3_step_rows sq db SQL_MESSAGES_SINCE
                   [Sql_int room_id, Sql_int after_id, Sql_int limit])))"

definition chat_db_messages_before ::
  "'db sqlite \<Rightarrow> 'db option \<Rightarrow> int \<Rightarrow> int \<Rightarrow> int \<Rightarrow> int \<Rightarrow> chat_msg list" where
  "chat_db_messages_before sq s_db room_id before_id limit mx =
     (let limit = (if limit > mx then mx else limit);
          before_id = (if before_id \<le> 0 then LONG_MAX else before_id)
      in case s_db of
           None \<Rightarrow> []
         | Some db \<Rightarrow>
            if \<not> sqlite3_prepare_v2 sq db SQL_MESSAGES_BEFORE then []
            else map row_to_msg (take (nat mx) (sqlite3_step_rows sq db SQL_MESSAGES_BEFORE
                   [Sql_int room_id, Sql_int before_id, Sql_int limit])))"

definition chat_db_max_message_id :: "'db sqlite \<Rightarrow> 'db option \<Rightarrow> int \<Rightarrow> int" where
  "chat_db_max_message_id sq s_db room_id =
     (case s_db of
        None \<Rightarrow> 0
      | Some db \<Rightarrow>
         if \<not> sqlite3_prepare_v2 sq db SQL_MAX_MESSAGE_ID then 0
         else (case sqlite3_step_rows sq db SQL_MAX_MESSAGE_ID [Sql_int room_id] of
                 [] \<Rightarrow> 0
               | row # _ \<Rightarrow> column_int row 0))"

definition chat_db_presence_set :: "'db sqlite \<Rightarrow> int \<Rightarrow> 'db option \<Rightarrow> int \<Rightarrow> string \<Rightarrow> 'db option" where
  "chat_db_presence_set sq now s_db room_id user =
     (case s_db of
        None \<Rightarrow> s_db
      | Some db \<Rightarrow>
         if \<not> sqlite3_prepare_v2 sq db SQL_PRESENCE_SET then s_db
         else Some (fst (sqlite3_step_write sq db SQL_PRESENCE_SET
                [Sql_int room_id, Sql_text (cstr user), Sql_int now])))"

definition chat_db_presence_clear :: "'db sqlite \<Rightarrow> 'db option \<Rightarrow> int \<Rightarrow> string \<Rightarrow> 'db option" where
  "chat_db_presence_clear sq s_db room_id user =
     (case s_db of
        None \<Rightarrow> s_db
      | Some db \<Rightarrow>
         if \<not> sqlite3_prepare_v2 sq db SQL_PRESENCE_CLEAR then s_db
         else Some (fst (sqlite3_step_write sq db SQL_PRESENCE_CLEAR
                [Sql_int room_id, Sql_text (cstr user)])))"

definition chat_db_active_users :: "'db sqlite \<Rightarrow> int \<Rightarrow> 'db option \<Rightarrow> int \<Rightarrow> int \<Rightarrow> nat \<Rightarrow> string list" where
  "chat_db_active_users sq now s_db room_id within_secs mx =
     (case s_db of
        None \<Rightarrow> []
      | Some db \<Rightarrow>
         if \<not> sqlite3_prepare_v2 sq db SQL_ACTIVE_USERS then []
         else map (\<lambda>row. str_copy CHAT_USER_MAX (column_text row 0))
                (take mx (sqlite3_step_rows sq db SQL_ACTIVE_USERS
                   [Sql_int room_id, Sql_int (now - within_secs)])))"

section \<open>The contract of a message log\<close>

lemma strict_sorted_split:
  fixes f :: "'a \<Rightarrow> int"
  assumes "sorted_wrt (<) (map f (xs @ ys))" and "xs \<noteq> []"
  shows "filter (\<lambda>m. f (last xs) < f m) (xs @ ys) = ys"
proof -
  have "\<forall>m \<in> set xs. f m \<le> f (last xs)"
    using assms by (cases xs rule: rev_cases) (auto simp: sorted_wrt_append less_imp_le)
  moreover have "\<forall>m \<in> set ys. f (last xs) < f m"
    using assms by (auto simp: sorted_wrt_append)
  ultimately show ?thesis by (auto simp: filter_empty_conv not_less filter_id_conv)
qed

lemma strict_sorted_split_hd:
  fixes f :: "'a \<Rightarrow> int"
  assumes "sorted_wrt (<) (map f (xs @ ys))" and "ys \<noteq> []"
  shows "filter (\<lambda>m. f m < f (hd ys)) (xs @ ys) = xs"
proof -
  have "\<forall>m \<in> set ys. f (hd ys) \<le> f m"
    using assms by (cases ys) (auto simp: sorted_wrt_append less_imp_le)
  moreover have "\<forall>m \<in> set xs. f m < f (hd ys)"
    using assms by (auto simp: sorted_wrt_append)
  ultimately show ?thesis by (auto simp: filter_empty_conv not_less filter_id_conv)
qed

lemma sorted_wrt_map_filter: "sorted_wrt R (map f xs) \<Longrightarrow> sorted_wrt R (map f (filter P xs))"
  by (induction xs) auto

definition last_n :: "nat \<Rightarrow> 'a list \<Rightarrow> 'a list" where
  "last_n n xs = drop (length xs - n) xs"

lemma last_n_append: "take (length xs - n) xs @ last_n n xs = xs"
  by (simp add: last_n_def)

lemma rev_take_rev: "rev (take n (rev xs)) = last_n n xs"
  by (simp add: last_n_def take_rev)

text \<open>A follower's cursor after a batch.\<close>

definition advance :: "int \<Rightarrow> chat_msg list \<Rightarrow> int" where
  "advance c batch = (if batch = [] then c else cm_id (last batch))"

locale message_log =
  fixes room_log :: "'s \<Rightarrow> int \<Rightarrow> chat_msg list"
    and wf :: "'s \<Rightarrow> bool"
    and readable :: "'s \<Rightarrow> bool"
    and put :: "int \<Rightarrow> 's \<Rightarrow> int \<Rightarrow> string \<Rightarrow> string \<Rightarrow> 's \<times> int"
    and since :: "'s \<Rightarrow> int \<Rightarrow> int \<Rightarrow> int \<Rightarrow> int \<Rightarrow> chat_msg list"
    and before :: "'s \<Rightarrow> int \<Rightarrow> int \<Rightarrow> int \<Rightarrow> int \<Rightarrow> chat_msg list"
    and tail_id :: "'s \<Rightarrow> int \<Rightarrow> int"
  assumes log_increasing: "wf s \<Longrightarrow> sorted_wrt (<) (map cm_id (room_log s r))"
    and log_positive: "wf s \<Longrightarrow> m \<in> set (room_log s r) \<Longrightarrow> 0 < cm_id m"
    and put_ok: "wf s \<Longrightarrow> put now s r u b = (s', i) \<Longrightarrow> 0 \<le> i \<Longrightarrow>
      nul_free u \<Longrightarrow> nul_free b \<Longrightarrow> length u < CHAT_USER_MAX \<Longrightarrow> length b < CHAT_BODY_MAX \<Longrightarrow>
      wf s' \<and> 0 < i \<and> (\<forall>r'. \<forall>m \<in> set (room_log s r'). cm_id m < i)
      \<and> room_log s' = (room_log s)(r := room_log s r @ [\<lparr>cm_id = i, cm_user = u, cm_ts = now, cm_body = b\<rparr>])"
    and put_failed: "wf s \<Longrightarrow> put now s r u b = (s', i) \<Longrightarrow> i < 0 \<Longrightarrow> wf s' \<and> room_log s' = room_log s"
    and since_eq: "wf s \<Longrightarrow> readable s \<Longrightarrow> 0 \<le> n \<Longrightarrow> n \<le> mx \<Longrightarrow>
      since s r a n mx = take (nat n) (filter (\<lambda>m. a < cm_id m) (room_log s r))"
    and before_eq: "wf s \<Longrightarrow> readable s \<Longrightarrow> 0 \<le> n \<Longrightarrow> n \<le> mx \<Longrightarrow> 0 < a \<Longrightarrow>
      before s r a n mx = last_n (nat n) (filter (\<lambda>m. cm_id m < a) (room_log s r))"
    and before_newest: "wf s \<Longrightarrow> readable s \<Longrightarrow> 0 \<le> n \<Longrightarrow> n \<le> mx \<Longrightarrow> a \<le> 0 \<Longrightarrow>
      \<forall>m \<in> set (room_log s r). cm_id m < LONG_MAX \<Longrightarrow>
      before s r a n mx = last_n (nat n) (room_log s r)"
    and tail_eq: "wf s \<Longrightarrow> readable s \<Longrightarrow>
      tail_id s r = (if room_log s r = [] then 0 else cm_id (last (room_log s r)))"
begin

text \<open>Following the log with a cursor: a batch and what is newer than the cursor after it
  are together what was newer before, so nothing is lost and nothing comes twice.\<close>

lemma follow_step:
  assumes "wf s" "readable s" "0 < n" "n \<le> mx"
  shows "since s r c n mx @ filter (\<lambda>m. advance c (since s r c n mx) < cm_id m) (room_log s r)
     = filter (\<lambda>m. c < cm_id m) (room_log s r)"
proof -
  let ?new = "filter (\<lambda>m. c < cm_id m) (room_log s r)"
  let ?b = "since s r c n mx"
  have b: "?b = take (nat n) ?new" using assms by (simp add: since_eq)
  show ?thesis
  proof (cases "?b = []")
    case True
    with b assms(3) have "?new = []" by auto
    with True show ?thesis by (simp add: advance_def)
  next
    case False
    have srt: "sorted_wrt (<) (map cm_id ?new)"
      by (rule sorted_wrt_map_filter) (rule log_increasing [OF assms(1)])
    have sp: "?b @ drop (nat n) ?new = ?new" by (simp add: b)
    have "filter (\<lambda>m. cm_id (last ?b) < cm_id m) ?new = drop (nat n) ?new"
      using strict_sorted_split [of cm_id ?b "drop (nat n) ?new"] srt False unfolding sp by simp
    moreover have "c < cm_id (last ?b)"
      using False b by (metis (no_types, lifting) in_set_takeD last_in_set mem_Collect_eq set_filter)
    then have "filter (\<lambda>m. cm_id (last ?b) < cm_id m) ?new
        = filter (\<lambda>m. cm_id (last ?b) < cm_id m) (room_log s r)"
      by (auto intro: filter_cong)
    ultimately show ?thesis using False sp by (simp add: advance_def)
  qed
qed

text \<open>From the tail, only later messages are new.\<close>

lemma tail_nothing_new:
  assumes "wf s" "readable s"
  shows "filter (\<lambda>m. tail_id s r < cm_id m) (room_log s r) = []"
proof (cases "room_log s r = []")
  case False
  then show ?thesis
    using strict_sorted_split [of cm_id "room_log s r" "[]"] log_increasing [OF assms(1), of r]
    by (simp add: tail_eq [OF assms])
qed simp

text \<open>Paging backwards: a page and what is older than its first message are together what
  was older than the anchor.\<close>

lemma page_step:
  assumes "wf s" "readable s" "0 < n" "n \<le> mx" "0 < a"
    and page: "page = before s r a n mx" "page \<noteq> []"
  shows "filter (\<lambda>m. cm_id m < cm_id (hd page)) (room_log s r) @ page
     = filter (\<lambda>m. cm_id m < a) (room_log s r)"
proof -
  let ?old = "filter (\<lambda>m. cm_id m < a) (room_log s r)"
  have p: "page = last_n (nat n) ?old" using assms by (simp add: before_eq)
  let ?pre = "take (length ?old - nat n) ?old"
  have sp: "?pre @ page = ?old" by (simp add: p last_n_append)
  have srt: "sorted_wrt (<) (map cm_id ?old)"
    by (rule sorted_wrt_map_filter) (rule log_increasing [OF assms(1)])
  have pre: "filter (\<lambda>m. cm_id m < cm_id (hd page)) ?old = ?pre"
    using strict_sorted_split_hd [of cm_id ?pre page] srt page(2) unfolding sp by simp
  have "hd page \<in> set ?old" using page(2) sp by (metis Un_iff hd_in_set set_append)
  then have "cm_id (hd page) < a" by simp
  then have "filter (\<lambda>m. cm_id m < cm_id (hd page)) ?old
      = filter (\<lambda>m. cm_id m < cm_id (hd page)) (room_log s r)"
    by (auto intro: filter_cong)
  with pre sp show ?thesis by simp
qed

end

section \<open>The storage module is a message log\<close>

definition to_msg :: "msg_row \<Rightarrow> chat_msg" where
  "to_msg m = \<lparr>cm_id = mr_id m, cm_user = str_copy CHAT_USER_MAX (mr_user m), cm_ts = mr_ts m,
     cm_body = str_copy CHAT_BODY_MAX (mr_body m)\<rparr>"

definition db_log :: "('db \<Rightarrow> chat_tables) \<Rightarrow> 'db option \<Rightarrow> int \<Rightarrow> chat_msg list" where
  "db_log tables s_db r =
     (case s_db of None \<Rightarrow> []
      | Some db \<Rightarrow> map to_msg (filter (\<lambda>m. mr_room m = r) (tb_msgs (tables db))))"

definition db_wf :: "('db \<Rightarrow> chat_tables) \<Rightarrow> 'db option \<Rightarrow> bool" where
  "db_wf tables s_db = (case s_db of None \<Rightarrow> True | Some db \<Rightarrow> tables_ok (tables db))"

definition db_readable :: "'db sqlite \<Rightarrow> 'db option \<Rightarrow> bool" where
  "db_readable sq s_db =
     (case s_db of None \<Rightarrow> True
      | Some db \<Rightarrow> sqlite3_prepare_v2 sq db SQL_MESSAGES_SINCE \<and> sqlite3_prepare_v2 sq db SQL_MESSAGES_BEFORE
          \<and> sqlite3_prepare_v2 sq db SQL_MAX_MESSAGE_ID)"

lemma cm_id_to_msg [simp]: "cm_id (to_msg m) = mr_id m"
  by (simp add: to_msg_def)

lemma row_to_msg_cols [simp]: "row_to_msg (msg_cols m) = to_msg m"
  by (simp add: row_to_msg_def msg_cols_def to_msg_def column_int_def column_text_def numeral_eq_Suc)

lemma q_since_log:
  "tables_ok t \<Longrightarrow> map to_msg (q_since t r a) =
     filter (\<lambda>m. a < cm_id m) (map to_msg (filter (\<lambda>m. mr_room m = r) (tb_msgs t)))"
  by (simp add: q_since_def tables_ok_filter_sorted filter_map comp_def conj_commute)

lemma q_before_log:
  "tables_ok t \<Longrightarrow> map to_msg (q_before t r a) =
     filter (\<lambda>m. cm_id m < a) (map to_msg (filter (\<lambda>m. mr_room m = r) (tb_msgs t)))"
  by (simp add: q_before_def tables_ok_filter_sorted filter_map comp_def conj_commute)

lemma map_last_n: "map f (last_n n xs) = last_n n (map f xs)"
  by (simp add: last_n_def drop_map)

lemma length_last_n: "length (last_n n xs) \<le> n"
  by (simp add: last_n_def)

lemma foldr_max_last:
  "sorted_wrt (<) xs \<Longrightarrow> \<forall>x \<in> set xs. 0 < x \<Longrightarrow> foldr max xs 0 = (if xs = [] then 0 else last (xs :: int list))"
proof (induction xs)
  case (Cons x xs)
  then have "xs = [] \<or> x < last xs" by (cases "xs = []") simp_all
  with Cons show ?case by (auto simp: max_def)
qed simp

lemma tables_ok_snoc:
  assumes "tables_ok t" and "tb_seq t < mr_id m"
  shows "tables_ok (t\<lparr>tb_msgs := tb_msgs t @ [m], tb_seq := mr_id m\<rparr>)"
  using assms by (fastforce simp: tables_ok_def sorted_wrt_append)

context sqlite_chat
begin

lemma insert_cases:
  assumes "chat_db_insert_message sq now s_db r u b = (s_db', i)"
  obtains (failed) "i = -1" "s_db' = s_db"
    | (step_failed) db db' where "i = -1" "s_db = Some db" "s_db' = Some db'" "tables db' = tables db"
    | (inserted) db db' where "s_db = Some db" "s_db' = Some db'" "tb_seq (tables db) < i"
        "tables db' = (tables db)\<lparr>tb_msgs := tb_msgs (tables db) @
            [\<lparr>mr_id = i, mr_room = r, mr_user = cstr u, mr_ts = now, mr_body = cstr b\<rparr>], tb_seq := i\<rparr>"
        "r \<in> fst ` set (tb_rooms (tables db))"
proof (cases s_db)
  case None
  with assms failed show ?thesis by (simp add: chat_db_insert_message_def)
next
  case (Some db)
  show ?thesis
  proof (cases "sqlite3_prepare_v2 sq db SQL_INSERT_MESSAGE")
    case False
    with assms Some failed show ?thesis by (simp add: chat_db_insert_message_def)
  next
    case True
    obtain db' don where st: "sqlite3_step_write sq db SQL_INSERT_MESSAGE
        [Sql_int r, Sql_text (cstr u), Sql_int now, Sql_text (cstr b)] = (db', don)" by fastforce
    show ?thesis
    proof (cases don)
      case True
      with insert_done [of db r "cstr u" now "cstr b" db'] st assms Some inserted
        \<open>sqlite3_prepare_v2 sq db SQL_INSERT_MESSAGE\<close>
      show ?thesis by (auto simp: chat_db_insert_message_def)
    next
      case False
      with write_failed st assms Some step_failed \<open>sqlite3_prepare_v2 sq db SQL_INSERT_MESSAGE\<close>
      show ?thesis by (fastforce simp: chat_db_insert_message_def)
    qed
  qed
qed

lemma db_log_increasing: "db_wf tables s \<Longrightarrow> sorted_wrt (<) (map cm_id (db_log tables s r))"
  by (auto simp: db_wf_def db_log_def tables_ok_def comp_def sorted_wrt_map_filter split: option.splits)

lemma db_put_ok:
  assumes "db_wf tables s" "chat_db_insert_message sq now s r u b = (s', i)" "0 \<le> i"
    "nul_free u" "nul_free b" "length u < CHAT_USER_MAX" "length b < CHAT_BODY_MAX"
  shows "db_wf tables s' \<and> 0 < i \<and> (\<forall>r'. \<forall>m \<in> set (db_log tables s r'). cm_id m < i)
     \<and> db_log tables s' = (db_log tables s)(r := db_log tables s r @ [\<lparr>cm_id = i, cm_user = u, cm_ts = now, cm_body = b\<rparr>])"
  using assms(2)
proof (cases rule: insert_cases)
  case (inserted db db')
  have ok: "tables_ok (tables db)" using assms(1) inserted(1) by (simp add: db_wf_def)
  let ?m = "\<lparr>mr_id = i, mr_room = r, mr_user = cstr u, mr_ts = now, mr_body = cstr b\<rparr>"
  have "tables_ok (tables db')"
    using tables_ok_snoc [OF ok, of ?m] inserted(3,4) by simp
  moreover have "to_msg ?m = \<lparr>cm_id = i, cm_user = u, cm_ts = now, cm_body = b\<rparr>"
    using assms(4-7) by (simp add: to_msg_def)
  moreover have "0 < i" "\<forall>r'. \<forall>m \<in> set (db_log tables s r'). cm_id m < i"
    using ok inserted(1,3) by (fastforce simp: tables_ok_def db_log_def)+
  ultimately show ?thesis
    using inserted(1,2,4) by (auto simp: db_wf_def db_log_def fun_eq_iff)
qed (use assms(3) in auto)

lemma db_put_failed:
  "db_wf tables s \<Longrightarrow> chat_db_insert_message sq now s r u b = (s', i) \<Longrightarrow> i < 0 \<Longrightarrow>
   db_wf tables s' \<and> db_log tables s' = db_log tables s"
  by (erule insert_cases) (auto simp: db_wf_def db_log_def tables_ok_def)

lemma db_since_eq:
  assumes "db_wf tables s" "db_readable sq s" "0 \<le> n" "n \<le> mx"
  shows "chat_db_messages_since sq s r a n mx = take (nat n) (filter (\<lambda>m. a < cm_id m) (db_log tables s r))"
proof (cases s)
  case (Some db)
  have "take (nat mx) (take (nat n) xs) = take (nat n) (xs :: chat_msg list)" for xs
    using assms(3,4) by (simp add: min_absorb2 nat_mono)
  with Some assms show ?thesis
    by (simp add: chat_db_messages_since_def db_readable_def db_wf_def db_log_def since_rows sql_limit_def
          take_map [symmetric] q_since_log comp_def)
qed (simp add: chat_db_messages_since_def db_log_def)

lemma db_before_any:
  assumes "db_wf tables s" "db_readable sq s" "0 \<le> n" "n \<le> mx"
  shows "chat_db_messages_before sq s r a n mx =
     last_n (nat n) (filter (\<lambda>m. cm_id m < (if a \<le> 0 then LONG_MAX else a)) (db_log tables s r))"
proof (cases s)
  case (Some db)
  have "take (nat mx) (last_n (nat n) xs) = last_n (nat n) (xs :: chat_msg list)" for xs
    using assms(3,4) length_last_n [of "nat n" xs] by simp
  with Some assms show ?thesis
    by (simp add: chat_db_messages_before_def db_readable_def db_wf_def db_log_def before_rows sql_limit_def
          rev_take_rev take_map [symmetric] map_last_n q_before_log comp_def Let_def)
qed (simp add: chat_db_messages_before_def db_log_def last_n_def)

lemma db_tail_eq:
  assumes "db_wf tables s" "db_readable sq s"
  shows "chat_db_max_message_id sq s r =
     (if db_log tables s r = [] then 0 else cm_id (last (db_log tables s r)))"
proof (cases s)
  case (Some db)
  let ?ms = "filter (\<lambda>m. mr_room m = r) (tb_msgs (tables db))"
  have ok: "tables_ok (tables db)" using assms(1) Some by (simp add: db_wf_def)
  have "foldr max (map mr_id ?ms) 0 = (if ?ms = [] then 0 else last (map mr_id ?ms))"
    using foldr_max_last [of "map mr_id ?ms"] ok by (auto simp: tables_ok_def sorted_wrt_map_filter)
  with Some assms show ?thesis
    by (auto simp: chat_db_max_message_id_def db_readable_def db_log_def max_rows q_max_def column_int_def
          last_map)
qed (simp add: chat_db_max_message_id_def db_log_def)

end

sublocale sqlite_chat \<subseteq> chatlog: message_log "db_log tables" "db_wf tables" "db_readable sq"
  "chat_db_insert_message sq" "chat_db_messages_since sq" "chat_db_messages_before sq"
  "chat_db_max_message_id sq"
proof (unfold_locales, goal_cases)
  case (1 s r)
  then show ?case by (rule db_log_increasing)
next
  case (2 s m r)
  then show ?case by (auto simp: db_wf_def db_log_def tables_ok_def split: option.splits)
next
  case (3 s now r u b s' i)
  then show ?case by (rule db_put_ok)
next
  case (4 s now r u b s' i)
  then show ?case by (rule db_put_failed)
next
  case (5 s n mx r a)
  then show ?case by (rule db_since_eq)
next
  case (6 s n mx a r)
  then show ?case by (simp add: db_before_any)
next
  case (7 s n mx a r)
  then have "filter (\<lambda>m. cm_id m < LONG_MAX) (db_log tables s r) = db_log tables s r"
    by (simp add: filter_id_conv)
  with 7 show ?case by (simp add: db_before_any)
next
  case (8 s r)
  then show ?case by (rule db_tail_eq)
qed

end
