(* ===== verification/Net_Io.thy ===== *)
theory Net_Io
  imports Prelude
begin

text \<open>
  The operating-system objects the sessions share: the sending side of a socket and the
  self-pipes. The kernel's answers to \<^verbatim>\<open>send\<close> are a script carried by the socket (an
  exhausted script accepts everything), so every definition is a function and every
  theorem holds for all scripts. A pipe is the number of unread bytes behind its write
  end; both ends are non-blocking, so a write to a full pipe fails and is ignored.
\<close>

datatype send_res = Sent nat | SendEintr | SendErr

record sock =
  sk_script :: "send_res list"
  sk_sent :: string
  sk_shut :: bool
  sk_closed :: bool

text \<open>The loop \<^verbatim>\<open>while (off < len) { n = send (...); ... off += n; }\<close>: the rest of the
  script, the bytes accepted, and whether all of them were.\<close>

fun send_loop :: "send_res list \<Rightarrow> string \<Rightarrow> send_res list \<times> string \<times> bool" where
  "send_loop rs [] = (rs, [], True)"
| "send_loop [] (c # cs) = ([], c # cs, True)"
| "send_loop (Sent n # rs) (c # cs) =
     (case send_loop rs (drop n (c # cs)) of (rs', out, ok) \<Rightarrow> (rs', take n (c # cs) @ out, ok))"
| "send_loop (SendEintr # rs) (c # cs) = send_loop rs (c # cs)"
| "send_loop (SendErr # rs) (c # cs) = (rs, [], False)"

definition sock_send :: "sock \<Rightarrow> string \<Rightarrow> sock \<times> bool" where
  "sock_send sk dat =
     (case send_loop (sk_script sk) dat of (rs, out, ok) \<Rightarrow>
        (sk\<lparr>sk_script := rs, sk_sent := sk_sent sk @ out\<rparr>, ok))"

lemma send_loop_result:
  "send_loop rs dat = (rs', out, ok) \<Longrightarrow> (ok \<longrightarrow> out = dat) \<and> (\<exists>rest. dat = out @ rest)"
proof (induction rs dat arbitrary: rs' out ok rule: send_loop.induct)
  case (3 n rs c cs)
  then obtain out' where "send_loop rs (drop n (c # cs)) = (rs', out', ok)" "out = take n (c # cs) @ out'"
    by (auto split: prod.splits)
  with 3 show ?case by (metis append_assoc append_take_drop_id)
qed auto

lemma sock_send_ok: "sock_send sk dat = (sk', True) \<Longrightarrow> sk_sent sk' = sk_sent sk @ dat"
  by (auto simp: sock_send_def split: prod.splits dest: send_loop_result)

lemma sock_send_prefix:
  "sock_send sk dat = (sk', ok) \<Longrightarrow> \<exists>out rest. sk_sent sk' = sk_sent sk @ out \<and> dat = out @ rest"
  by (auto simp: sock_send_def split: prod.splits dest: send_loop_result)

lemma sock_send_Nil [simp]: "sock_send sk [] = (sk, True)"
  by (cases "sk_script sk") (simp_all add: sock_send_def)

lemma sock_send_empty_script:
  "sk_script sk = [] \<Longrightarrow> sock_send sk dat = (sk\<lparr>sk_sent := sk_sent sk @ dat\<rparr>, True)"
  by (cases dat) (simp_all add: sock_send_def)

section \<open>Self-pipes\<close>

type_synonym pipes = "fd \<Rightarrow> nat option"

definition PIPE_CAP :: nat where "PIPE_CAP = 65536"

text \<open>\<^verbatim>\<open>write (wfd, &one, 1)\<close>: a closed or invalid descriptor and a full pipe fail.\<close>

definition pipe_write :: "fd \<Rightarrow> pipes \<Rightarrow> pipes" where
  "pipe_write wfd ps =
     (case ps wfd of None \<Rightarrow> ps | Some n \<Rightarrow> if n < PIPE_CAP then ps(wfd := Some (Suc n)) else ps)"

text \<open>\<^verbatim>\<open>while (read (rfd, drain, sizeof drain) > 0);\<close>\<close>

definition pipe_drain :: "fd \<Rightarrow> pipes \<Rightarrow> pipes" where
  "pipe_drain wfd ps = (case ps wfd of None \<Rightarrow> ps | Some n \<Rightarrow> ps(wfd := Some 0))"

definition pending :: "pipes \<Rightarrow> fd \<Rightarrow> bool" where
  "pending ps wfd \<longleftrightarrow> (case ps wfd of None \<Rightarrow> False | Some n \<Rightarrow> 0 < n)"

lemma pipe_write_dom [simp]: "dom (pipe_write w ps) = dom ps"
  by (auto simp: pipe_write_def split: option.splits)

lemma pipe_write_pending: "w \<in> dom ps \<Longrightarrow> pending (pipe_write w ps) w"
  by (auto simp: pipe_write_def pending_def PIPE_CAP_def split: option.splits)

lemma pipe_write_keeps: "pending ps v \<Longrightarrow> pending (pipe_write w ps) v"
  by (auto simp: pipe_write_def pending_def split: option.splits)

lemma fold_pipe_write_dom [simp]: "dom (fold pipe_write ws ps) = dom ps"
  by (induction ws arbitrary: ps) simp_all

lemma fold_pipe_write_keeps: "pending ps v \<Longrightarrow> pending (fold pipe_write ws ps) v"
  by (induction ws arbitrary: ps) (simp_all add: pipe_write_keeps)

lemma fold_pipe_write_pending:
  "w \<in> set ws \<Longrightarrow> w \<in> dom ps \<Longrightarrow> pending (fold pipe_write ws ps) w"
proof (induction ws arbitrary: ps)
  case (Cons v ws)
  then show ?case
    by (cases "v = w") (simp_all add: fold_pipe_write_keeps pipe_write_pending)
qed simp

lemma fold_pipe_write_other: "w \<notin> set ws \<Longrightarrow> fold pipe_write ws ps w = ps w"
proof (induction ws arbitrary: ps)
  case (Cons v ws)
  then have "pipe_write v ps w = ps w" by (auto simp: pipe_write_def split: option.splits)
  with Cons show ?case by simp
qed simp

end
