(* ===== verification/Chat_Room.thy ===== *)
theory Chat_Room
  imports Chat_Db Net_Io "HOL-Library.Multiset"
begin

text \<open>
  The chat service \<^verbatim>\<open>features/chat/room.c\<close>: the room registry loaded once, the single
  place where user names and bodies are sanitized, and the publish/subscribe bus of
  notify pipes. Its state, with the storage handle and the pipes of the process, is the
  record \<open>chat_world\<close>; a room handle (a pointer into \<^verbatim>\<open>s_rooms\<close>) is the index of the
  room. The per-room mutex makes each list operation one step.
\<close>

section \<open>The model\<close>

definition CHAT_MAX_ROOMS :: nat where "CHAT_MAX_ROOMS = 8"
definition CHAT_MAX_SUBSCRIBERS :: nat where "CHAT_MAX_SUBSCRIBERS = 256"
definition CHAT_PRESENCE_TTL :: int where "CHAT_PRESENCE_TTL = 300"

record room_t =
  r_id :: int
  r_name :: string
  sub_fds :: "fd list"

record 'db chat_world =
  w_db :: "'db option"
  w_rooms :: "room_t list"
  w_once :: bool
  w_pipes :: pipes
  w_now :: int
  w_statedir :: "string option"
  w_dirs :: "string list"

definition new_room :: "chat_room_row \<Rightarrow> room_t" where
  "new_room row = \<lparr>r_id = rr_id row, r_name = str_copy CHAT_NAME_MAX (rr_name row), sub_fds = []\<rparr>"

definition service_init_once :: "'db sqlite \<Rightarrow> 'db chat_world \<Rightarrow> 'db chat_world" where
  "service_init_once sq w =
     (case chat_db_default_path (w_statedir w) 512 of (path, made) \<Rightarrow>
        let w = w\<lparr>w_dirs := w_dirs w @ (case made of None \<Rightarrow> [] | Some d \<Rightarrow> [d])\<rparr>
        in case path of
             None \<Rightarrow> w
           | Some p \<Rightarrow>
              (case chat_db_init sq (w_db w) p of (db, rc) \<Rightarrow>
                 if rc \<noteq> 0 then w\<lparr>w_db := db\<rparr>
                 else w\<lparr>w_db := db, w_rooms := map new_room (chat_db_list_rooms sq db CHAT_MAX_ROOMS)\<rparr>))"

text \<open>\<^verbatim>\<open>pthread_once\<close>\<close>

definition chat_service_init :: "'db sqlite \<Rightarrow> 'db chat_world \<Rightarrow> 'db chat_world" where
  "chat_service_init sq w = (if w_once w then w else (service_init_once sq w)\<lparr>w_once := True\<rparr>)"

definition chat_rooms_list :: "'db sqlite \<Rightarrow> 'db chat_world \<Rightarrow> 'db chat_world \<times> room_t list" where
  "chat_rooms_list sq w = (let w = chat_service_init sq w in (w, w_rooms w))"

fun find_room :: "room_t list \<Rightarrow> int \<Rightarrow> nat \<Rightarrow> nat option" where
  "find_room [] i k = None"
| "find_room (r # rs) i k = (if r_id r = i then Some k else find_room rs i (Suc k))"

definition chat_room_by_id :: "'db sqlite \<Rightarrow> 'db chat_world \<Rightarrow> int \<Rightarrow> 'db chat_world \<times> nat option" where
  "chat_room_by_id sq w i = (let w = chat_service_init sq w in (w, find_room (w_rooms w) i 0))"

text \<open>The loops of the sanitizers; \<open>k\<close> is what is left of \<^verbatim>\<open>dstsz\<close>.\<close>

fun sanitize_text :: "string \<Rightarrow> nat \<Rightarrow> string" where
  "sanitize_text [] k = []"
| "sanitize_text (c # cs) k =
     (if c = NUL \<or> k \<le> 1 then []
      else (if 0x20 \<le> ord c \<and> ord c \<le> 0x7E then c else CHR ''?'') # sanitize_text cs (k - 1))"

fun sanitize_user :: "string \<Rightarrow> nat \<Rightarrow> string" where
  "sanitize_user [] k = []"
| "sanitize_user (c # cs) k =
     (if c = NUL \<or> k \<le> 1 then []
      else if is_word_char c then c # sanitize_user cs (k - 1) else sanitize_user cs k)"

abbreviation room_at :: "'db chat_world \<Rightarrow> nat \<Rightarrow> room_t" where
  "room_at w i \<equiv> w_rooms w ! i"

definition notify_room :: "nat \<Rightarrow> 'db chat_world \<Rightarrow> 'db chat_world" where
  "notify_room i w = w\<lparr>w_pipes := fold pipe_write (sub_fds (room_at w i)) (w_pipes w)\<rparr>"

definition chat_room_post ::
  "'db sqlite \<Rightarrow> 'db chat_world \<Rightarrow> nat \<Rightarrow> string \<Rightarrow> string \<Rightarrow> 'db chat_world \<times> int" where
  "chat_room_post sq w i user body =
     (let clean_user = sanitize_user user CHAT_USER_MAX;
          clean_body = sanitize_text body CHAT_BODY_MAX
      in if length clean_user = 0 then (w, -1)
         else if length clean_body = 0 then (w, -1)
         else (case chat_db_insert_message sq (w_now w) (w_db w) (r_id (room_at w i)) clean_user clean_body of
                 (db, mid) \<Rightarrow>
                   if mid < 0 then (w\<lparr>w_db := db\<rparr>, -1)
                   else (notify_room i (w\<lparr>w_db := db\<rparr>), mid)))"

definition sub_add :: "fd \<Rightarrow> fd list \<Rightarrow> fd list" where
  "sub_add wfd fds = (if length fds < CHAT_MAX_SUBSCRIBERS then fds @ [wfd] else fds)"

text \<open>\<^verbatim>\<open>sub_fds[i] = sub_fds[--sub_count]\<close> for the first slot that holds the descriptor.\<close>

fun sub_index :: "fd \<Rightarrow> fd list \<Rightarrow> nat option" where
  "sub_index wfd [] = None"
| "sub_index wfd (f # fs) = (if f = wfd then Some 0 else map_option Suc (sub_index wfd fs))"

definition sub_remove :: "fd \<Rightarrow> fd list \<Rightarrow> fd list" where
  "sub_remove wfd fds =
     (case sub_index wfd fds of None \<Rightarrow> fds | Some i \<Rightarrow> butlast (fds[i := last fds]))"

definition update_subs :: "(fd list \<Rightarrow> fd list) \<Rightarrow> nat \<Rightarrow> 'db chat_world \<Rightarrow> 'db chat_world" where
  "update_subs f i w =
     w\<lparr>w_rooms := (w_rooms w)[i := (room_at w i)\<lparr>sub_fds := f (sub_fds (room_at w i))\<rparr>]\<rparr>"

definition chat_room_subscribe :: "'db chat_world \<Rightarrow> nat \<Rightarrow> fd \<Rightarrow> 'db chat_world" where
  "chat_room_subscribe w i wfd = update_subs (sub_add wfd) i w"

definition chat_room_unsubscribe :: "'db chat_world \<Rightarrow> nat \<Rightarrow> fd \<Rightarrow> 'db chat_world" where
  "chat_room_unsubscribe w i wfd = update_subs (sub_remove wfd) i w"

definition chat_room_since ::
  "'db sqlite \<Rightarrow> 'db chat_world \<Rightarrow> nat \<Rightarrow> int \<Rightarrow> int \<Rightarrow> int \<Rightarrow> chat_msg list" where
  "chat_room_since sq w i after_id limit mx =
     chat_db_messages_since sq (w_db w) (r_id (room_at w i)) after_id limit mx"

definition chat_room_before ::
  "'db sqlite \<Rightarrow> 'db chat_world \<Rightarrow> nat \<Rightarrow> int \<Rightarrow> int \<Rightarrow> int \<Rightarrow> chat_msg list" where
  "chat_room_before sq w i before_id limit mx =
     chat_db_messages_before sq (w_db w) (r_id (room_at w i)) before_id limit mx"

definition chat_room_tail :: "'db sqlite \<Rightarrow> 'db chat_world \<Rightarrow> nat \<Rightarrow> int" where
  "chat_room_tail sq w i = chat_db_max_message_id sq (w_db w) (r_id (room_at w i))"

definition chat_room_presence_set :: "'db sqlite \<Rightarrow> 'db chat_world \<Rightarrow> nat \<Rightarrow> string \<Rightarrow> 'db chat_world" where
  "chat_room_presence_set sq w i user =
     (let clean = sanitize_user user CHAT_USER_MAX
      in if length clean > 0
         then w\<lparr>w_db := chat_db_presence_set sq (w_now w) (w_db w) (r_id (room_at w i)) clean\<rparr>
         else w)"

definition chat_room_presence_clear :: "'db sqlite \<Rightarrow> 'db chat_world \<Rightarrow> nat \<Rightarrow> string \<Rightarrow> 'db chat_world" where
  "chat_room_presence_clear sq w i user =
     (let clean = sanitize_user user CHAT_USER_MAX
      in if length clean > 0
         then w\<lparr>w_db := chat_db_presence_clear sq (w_db w) (r_id (room_at w i)) clean\<rparr>
         else w)"

definition chat_room_users :: "'db sqlite \<Rightarrow> 'db chat_world \<Rightarrow> nat \<Rightarrow> nat \<Rightarrow> string list" where
  "chat_room_users sq w i mx =
     chat_db_active_users sq (w_now w) (w_db w) (r_id (room_at w i)) CHAT_PRESENCE_TTL mx"

section \<open>Sanitizing\<close>

lemma sanitize_text_printable: "c \<in> set (sanitize_text s k) \<Longrightarrow> is_printable c"
proof (induction s arbitrary: k)
  case (Cons x s)
  then show ?case by (simp add: is_printable_def split: if_splits) (auto simp: is_printable_def)
qed simp

lemma sanitize_text_length [ns_len]: "length (sanitize_text s k) \<le> k - 1"
proof (induction s arbitrary: k)
  case (Cons x s)
  from Cons [of "k - 1"] show ?case by auto
qed simp

lemma sanitize_text_id:
  "\<forall>c \<in> set s. is_printable c \<Longrightarrow> length s < k \<Longrightarrow> sanitize_text s k = s"
proof (induction s arbitrary: k)
  case (Cons x s)
  then have "x \<noteq> NUL" by (simp add: printable_not_NUL)
  with Cons show ?case by (simp add: is_printable_def)
qed simp

lemma sanitize_user_filter:
  "sanitize_user s k = take (k - 1) (filter is_word_char (cstr s))"
proof (induction s arbitrary: k)
  case (Cons x s)
  then show ?case by (cases "k - 1") auto
qed simp

lemma sanitize_user_word: "c \<in> set (sanitize_user s k) \<Longrightarrow> is_word_char c"
  by (auto simp: sanitize_user_filter dest: in_set_takeD)

lemma sanitize_user_length [ns_len]: "length (sanitize_user s k) \<le> k - 1"
  by (simp add: sanitize_user_filter)

lemma nul_free_printable: "\<forall>c \<in> set s. is_printable c \<Longrightarrow> nul_free s"
  using printable_not_NUL by (auto simp: nul_free_def)

lemma sanitize_nul_free [simp]: "nul_free (sanitize_text s k)" "nul_free (sanitize_user s k)"
  using sanitize_text_printable sanitize_user_word word_char_printable
  by (blast intro: nul_free_printable)+

lemma sanitize_user_id:
  "\<forall>c \<in> set s. is_word_char c \<Longrightarrow> length s < k \<Longrightarrow> sanitize_user s k = s"
  by (simp add: sanitize_user_filter nul_free_printable word_char_printable)

definition clean_msg :: "chat_msg \<Rightarrow> bool" where
  "clean_msg m \<longleftrightarrow> list_all is_word_char (cm_user m) \<and> list_all is_printable (cm_body m)
     \<and> cm_user m \<noteq> [] \<and> cm_body m \<noteq> []
     \<and> length (cm_user m) < CHAT_USER_MAX \<and> length (cm_body m) < CHAT_BODY_MAX"

definition clean_log :: "('db \<Rightarrow> chat_tables) \<Rightarrow> 'db option \<Rightarrow> bool" where
  "clean_log tables s_db \<longleftrightarrow> (\<forall>r. list_all clean_msg (db_log tables s_db r))"

section \<open>Subscribers\<close>

lemma sub_index_Some: "sub_index w fds = Some i \<Longrightarrow> i < length fds \<and> fds ! i = w"
proof (induction fds arbitrary: i)
  case (Cons f fs)
  then show ?case by (cases i) (auto split: if_splits)
qed simp

lemma sub_index_None: "sub_index w fds = None \<longleftrightarrow> w \<notin> set fds"
  by (induction fds) auto

lemma mset_swap_remove:
  assumes "i < length xs"
  shows "mset (butlast (xs[i := last xs])) = mset xs - {#xs ! i#}"
proof (cases xs rule: rev_cases)
  case (snoc ys y)
  show ?thesis
  proof (cases "i < length ys")
    case True
    then have "mset (ys[i := y]) = add_mset y (mset ys - {#ys ! i#})" by (rule mset_update)
    with True snoc show ?thesis
      by (simp add: list_update_append nth_append diff_union_swap2)
  next
    case False
    with assms snoc have "i = length ys" by simp
    with snoc show ?thesis by (simp add: list_update_append)
  qed
qed (use assms in simp)

lemma mset_sub_remove: "mset (sub_remove w fds) = mset fds - {#w#}"
proof (cases "sub_index w fds")
  case None
  then have "w \<notin> set fds" by (simp add: sub_index_None)
  then have "mset fds - {#w#} = mset fds" by (metis diff_single_trivial set_mset_mset)
  with None show ?thesis by (simp only: sub_remove_def option.case)
next
  case (Some i)
  with sub_index_Some [OF Some] show ?thesis by (simp add: sub_remove_def mset_swap_remove)
qed

lemma mset_sub_add:
  "mset (sub_add w fds) = (if length fds < CHAT_MAX_SUBSCRIBERS then add_mset w (mset fds) else mset fds)"
  by (simp add: sub_add_def)

lemma length_sub_add: "length fds \<le> CHAT_MAX_SUBSCRIBERS \<Longrightarrow> length (sub_add w fds) \<le> CHAT_MAX_SUBSCRIBERS"
  by (simp add: sub_add_def)

lemma length_sub_remove: "length (sub_remove w fds) \<le> length fds"
  by (simp add: sub_remove_def split: option.splits)

lemma find_room_Some:
  "find_room rs i k = Some j \<Longrightarrow> k \<le> j \<and> j - k < length rs \<and> r_id (rs ! (j - k)) = i"
proof (induction rs arbitrary: k)
  case (Cons r rs)
  show ?case
  proof (cases "r_id r = i")
    case False
    with Cons have "Suc k \<le> j \<and> j - Suc k < length rs \<and> r_id (rs ! (j - Suc k)) = i" by simp
    moreover from this have "j - k = Suc (j - Suc k)" by arith
    ultimately show ?thesis by simp
  qed (use Cons in auto)
qed simp

lemma find_room_None: "find_room rs i k = None \<longleftrightarrow> i \<notin> r_id ` set rs"
  by (induction rs arbitrary: k) auto

lemma find_room_first: "find_room rs i k = Some j \<Longrightarrow> n < j - k \<Longrightarrow> r_id (rs ! n) \<noteq> i"
proof (induction rs arbitrary: k n)
  case (Cons r rs)
  show ?case
  proof (cases n)
    case 0
    with Cons.prems show ?thesis by (auto split: if_splits)
  next
    case (Suc m)
    with Cons.prems have "find_room rs i (Suc k) = Some j" "m < j - Suc k"
      by (auto split: if_splits)
    with Cons.IH Suc show ?thesis by simp
  qed
qed simp

section \<open>Posting\<close>

lemma notify_room_simps [simp]:
  "w_db (notify_room i w) = w_db w" "w_rooms (notify_room i w) = w_rooms w"
  "w_now (notify_room i w) = w_now w" "w_once (notify_room i w) = w_once w"
  by (simp_all add: notify_room_def)

lemma update_subs_simps [simp]:
  "w_db (update_subs f i w) = w_db w" "w_pipes (update_subs f i w) = w_pipes w"
  "w_now (update_subs f i w) = w_now w" "w_once (update_subs f i w) = w_once w"
  "length (w_rooms (update_subs f i w)) = length (w_rooms w)"
  by (simp_all add: update_subs_def)

lemma chat_room_post_cases:
  assumes "chat_room_post sq w i user body = (w', mid)"
  obtains (refused) "mid = -1" "w' = w" "sanitize_user user CHAT_USER_MAX = [] \<or> sanitize_text body CHAT_BODY_MAX = []"
    | (stored) db mid' where
        "sanitize_user user CHAT_USER_MAX \<noteq> []" "sanitize_text body CHAT_BODY_MAX \<noteq> []"
        "chat_db_insert_message sq (w_now w) (w_db w) (r_id (room_at w i))
           (sanitize_user user CHAT_USER_MAX) (sanitize_text body CHAT_BODY_MAX) = (db, mid')"
        "mid = (if mid' < 0 then -1 else mid')"
        "w' = (if mid' < 0 then w\<lparr>w_db := db\<rparr> else notify_room i (w\<lparr>w_db := db\<rparr>))"
proof (cases "sanitize_user user CHAT_USER_MAX = [] \<or> sanitize_text body CHAT_BODY_MAX = []")
  case True
  with assms have "mid = -1 \<and> w' = w" by (auto simp: chat_room_post_def Let_def split: if_splits)
  with True refused show ?thesis by blast
next
  case False
  obtain db mid' where ins: "chat_db_insert_message sq (w_now w) (w_db w) (r_id (room_at w i))
      (sanitize_user user CHAT_USER_MAX) (sanitize_text body CHAT_BODY_MAX) = (db, mid')" by fastforce
  with assms False have "mid = (if mid' < 0 then -1 else mid')
      \<and> w' = (if mid' < 0 then w\<lparr>w_db := db\<rparr> else notify_room i (w\<lparr>w_db := db\<rparr>))"
    by (simp add: chat_room_post_def Let_def split: if_splits)
  with False ins stored show ?thesis by blast
qed

lemma sanitized_sizes:
  "length (sanitize_user u CHAT_USER_MAX) < CHAT_USER_MAX"
  "length (sanitize_text b CHAT_BODY_MAX) < CHAT_BODY_MAX"
  using sanitize_user_length [of u CHAT_USER_MAX] sanitize_text_length [of b CHAT_BODY_MAX]
  by (simp_all add: chat_sizes)

abbreviation wlog :: "('db \<Rightarrow> chat_tables) \<Rightarrow> 'db chat_world \<Rightarrow> int \<Rightarrow> chat_msg list" where
  "wlog tables w \<equiv> db_log tables (w_db w)"

definition posted :: "'db chat_world \<Rightarrow> int \<Rightarrow> string \<Rightarrow> string \<Rightarrow> chat_msg" where
  "posted w mid user body = \<lparr>cm_id = mid, cm_user = sanitize_user user CHAT_USER_MAX, cm_ts = w_now w,
     cm_body = sanitize_text body CHAT_BODY_MAX\<rparr>"

text \<open>What a post does to the store, in the form the clients of the service use.\<close>

lemma post_store:
  assumes eng: "sqlite_chat sq tables" and wf: "db_wf tables (w_db w)"
    and post: "chat_room_post sq w i user body = (w', mid)"
  shows "db_wf tables (w_db w')"
    and "mid < 0 \<Longrightarrow> wlog tables w' = wlog tables w"
    and "0 \<le> mid \<Longrightarrow> wlog tables w' = (wlog tables w)(r_id (room_at w i) :=
           wlog tables w (r_id (room_at w i)) @ [posted w mid user body])"
    and "0 \<le> mid \<Longrightarrow> 0 < mid \<and> (\<forall>r. \<forall>m \<in> set (wlog tables w r). cm_id m < mid)"
    and "0 \<le> mid \<Longrightarrow> sanitize_user user CHAT_USER_MAX \<noteq> [] \<and> sanitize_text body CHAT_BODY_MAX \<noteq> []"
proof -
  note put = sqlite_chat.db_put_ok [OF eng wf] sqlite_chat.db_put_failed [OF eng wf]
  have "db_wf tables (w_db w') \<and> (mid < 0 \<longrightarrow> wlog tables w' = wlog tables w)
    \<and> (0 \<le> mid \<longrightarrow> wlog tables w' = (wlog tables w)(r_id (room_at w i) :=
         wlog tables w (r_id (room_at w i)) @ [posted w mid user body])
       \<and> 0 < mid \<and> (\<forall>r. \<forall>m \<in> set (wlog tables w r). cm_id m < mid)
       \<and> sanitize_user user CHAT_USER_MAX \<noteq> [] \<and> sanitize_text body CHAT_BODY_MAX \<noteq> [])"
    using post
  proof (cases rule: chat_room_post_cases)
    case refused
    with wf show ?thesis by simp
  next
    case (stored db mid')
    show ?thesis
    proof (cases "mid' < 0")
      case True
      with put(2) [OF stored(3)] stored(4,5) show ?thesis by simp
    next
      case False
      with put(1) [OF stored(3)] stored sanitized_sizes show ?thesis
        by (simp add: posted_def)
    qed
  qed
  then show "db_wf tables (w_db w')" "mid < 0 \<Longrightarrow> wlog tables w' = wlog tables w"
    "0 \<le> mid \<Longrightarrow> wlog tables w' = (wlog tables w)(r_id (room_at w i) :=
       wlog tables w (r_id (room_at w i)) @ [posted w mid user body])"
    "0 \<le> mid \<Longrightarrow> 0 < mid \<and> (\<forall>r. \<forall>m \<in> set (wlog tables w r). cm_id m < mid)"
    "0 \<le> mid \<Longrightarrow> sanitize_user user CHAT_USER_MAX \<noteq> [] \<and> sanitize_text body CHAT_BODY_MAX \<noteq> []"
    by blast+
qed

lemma post_frame:
  assumes "chat_room_post sq w i user body = (w', mid)"
  shows "w_rooms w' = w_rooms w" "w_now w' = w_now w" "w_once w' = w_once w"
    and "w_pipes w' = (if mid < 0 then w_pipes w else fold pipe_write (sub_fds (room_at w i)) (w_pipes w))"
proof -
  have "w_rooms w' = w_rooms w \<and> w_now w' = w_now w \<and> w_once w' = w_once w
    \<and> w_pipes w' = (if mid < 0 then w_pipes w else fold pipe_write (sub_fds (room_at w i)) (w_pipes w))"
    using assms by (cases rule: chat_room_post_cases) (simp_all add: notify_room_def)
  then show "w_rooms w' = w_rooms w" "w_now w' = w_now w" "w_once w' = w_once w"
    "w_pipes w' = (if mid < 0 then w_pipes w else fold pipe_write (sub_fds (room_at w i)) (w_pipes w))"
    by simp_all
qed

lemma clean_posted:
  "sanitize_user user CHAT_USER_MAX \<noteq> [] \<Longrightarrow> sanitize_text body CHAT_BODY_MAX \<noteq> [] \<Longrightarrow>
   clean_msg (posted w mid user body)"
  using sanitized_sizes sanitize_user_word sanitize_text_printable
  by (auto simp: clean_msg_def posted_def list_all_iff)

section \<open>The service as a state machine\<close>

text \<open>Every call another component can make, the clock, and a subscriber emptying its pipe.\<close>

inductive service_step :: "'db sqlite \<Rightarrow> 'db chat_world \<Rightarrow> 'db chat_world \<Rightarrow> bool" for sq where
  svc_init: "service_step sq w (chat_service_init sq w)"
| svc_post: "i < length (w_rooms w) \<Longrightarrow> service_step sq w (fst (chat_room_post sq w i user body))"
| svc_subscribe: "i < length (w_rooms w) \<Longrightarrow> service_step sq w (chat_room_subscribe w i wfd)"
| svc_unsubscribe: "i < length (w_rooms w) \<Longrightarrow> service_step sq w (chat_room_unsubscribe w i wfd)"
| svc_presence_set: "i < length (w_rooms w) \<Longrightarrow> service_step sq w (chat_room_presence_set sq w i user)"
| svc_presence_clear: "i < length (w_rooms w) \<Longrightarrow> service_step sq w (chat_room_presence_clear sq w i user)"
| svc_drain: "service_step sq w (w\<lparr>w_pipes := pipe_drain wfd (w_pipes w)\<rparr>)"
| svc_clock: "service_step sq w (w\<lparr>w_now := now\<rparr>)"

inductive_cases service_stepE: "service_step sq w w'"

definition boot_world :: "int \<Rightarrow> string option \<Rightarrow> pipes \<Rightarrow> 'db chat_world" where
  "boot_world now sd ps = \<lparr>w_db = None, w_rooms = [], w_once = False, w_pipes = ps, w_now = now,
     w_statedir = sd, w_dirs = []\<rparr>"

definition room_ok :: "room_t \<Rightarrow> bool" where
  "room_ok r \<longleftrightarrow> length (sub_fds r) \<le> CHAT_MAX_SUBSCRIBERS \<and> length (r_name r) < CHAT_NAME_MAX"

definition service_inv :: "('db \<Rightarrow> chat_tables) \<Rightarrow> 'db chat_world \<Rightarrow> bool" where
  "service_inv tables w \<longleftrightarrow> db_wf tables (w_db w) \<and> clean_log tables (w_db w)
     \<and> length (w_rooms w) \<le> CHAT_MAX_ROOMS \<and> list_all room_ok (w_rooms w)"

text \<open>The database file found at start holds a log that satisfies the invariant.\<close>

definition opened_ok :: "'db sqlite \<Rightarrow> ('db \<Rightarrow> chat_tables) \<Rightarrow> bool" where
  "opened_ok sq tables \<longleftrightarrow>
     (\<forall>p db. sqlite3_open sq p = Some db \<longrightarrow> db_wf tables (Some db) \<and> clean_log tables (Some db))"

lemma list_all_update: "list_all P xs \<Longrightarrow> P x \<Longrightarrow> list_all P (xs[i := x])"
  by (auto simp: list_all_iff dest: set_update_subset_insert [THEN subsetD])

lemma service_inv_update_subs:
  assumes "service_inv tables w" "i < length (w_rooms w)"
    and "\<And>fds. length fds \<le> CHAT_MAX_SUBSCRIBERS \<Longrightarrow> length (f fds) \<le> CHAT_MAX_SUBSCRIBERS"
  shows "service_inv tables (update_subs f i w)"
proof -
  have "room_ok (room_at w i)" using assms(1,2) by (simp add: service_inv_def list_all_length)
  then show ?thesis
    using assms by (simp add: service_inv_def update_subs_def list_all_update room_ok_def)
qed

context sqlite_chat
begin

lemma seed_room_tables:
  "tb_msgs (tables (seed_room sq n db)) = tb_msgs (tables db) \<and> tb_seq (tables (seed_room sq n db)) = tb_seq (tables db)"
proof -
  obtain db' don where st: "sqlite3_step_write sq db SQL_SEED_ROOM [Sql_text n] = (db', don)" by fastforce
  then show ?thesis
    using seed_done [of db n db'] write_failed [of db SQL_SEED_ROOM "[Sql_text n]" db']
    by (cases don) (auto simp: seed_room_def)
qed

lemma presence_set_log:
  "db_wf tables (chat_db_presence_set sq now s r u) = db_wf tables s
   \<and> db_log tables (chat_db_presence_set sq now s r u) = db_log tables s"
proof (cases s)
  case (Some db)
  obtain db' don where st: "sqlite3_step_write sq db SQL_PRESENCE_SET
      [Sql_int r, Sql_text (cstr u), Sql_int now] = (db', don)" by fastforce
  have "tb_msgs (tables db') = tb_msgs (tables db) \<and> tb_seq (tables db') = tb_seq (tables db)"
    using presence_set_done [of db r "cstr u" now db'] write_failed st by (cases don) auto
  with Some st show ?thesis
    by (simp add: chat_db_presence_set_def db_wf_def db_log_def tables_ok_def fun_eq_iff)
qed (simp add: chat_db_presence_set_def)

lemma presence_clear_log:
  "db_wf tables (chat_db_presence_clear sq s r u) = db_wf tables s
   \<and> db_log tables (chat_db_presence_clear sq s r u) = db_log tables s"
proof (cases s)
  case (Some db)
  obtain db' don where st: "sqlite3_step_write sq db SQL_PRESENCE_CLEAR
      [Sql_int r, Sql_text (cstr u)] = (db', don)" by fastforce
  have "tb_msgs (tables db') = tb_msgs (tables db) \<and> tb_seq (tables db') = tb_seq (tables db)"
    using presence_clear_done [of db r "cstr u" db'] write_failed st by (cases don) auto
  with Some st show ?thesis
    by (simp add: chat_db_presence_clear_def db_wf_def db_log_def tables_ok_def fun_eq_iff)
qed (simp add: chat_db_presence_clear_def)

lemma seed_rooms_log:
  "db_wf tables (Some (fold (seed_room sq) ns db)) = db_wf tables (Some db)
   \<and> db_log tables (Some (fold (seed_room sq) ns db)) = db_log tables (Some db)"
proof (induction ns arbitrary: db)
  case (Cons n ns)
  then show ?case
    using seed_room_tables [of n db] by (simp add: db_wf_def db_log_def tables_ok_def fun_eq_iff)
qed simp

lemma chat_db_init_log:
  assumes "opened_ok sq tables" "db_wf tables s" "clean_log tables s" "chat_db_init sq s p = (s', rc)"
  shows "db_wf tables s' \<and> clean_log tables s'"
proof -
  have "db_wf tables (Some db') \<and> clean_log tables (Some db')"
    if "sqlite3_open sq p = Some db" "sqlite3_exec sq db SCHEMA = Some db'" for db db'
    using assms(1) that schema_keeps [OF that(2)]
    by (auto simp: opened_ok_def db_wf_def clean_log_def db_log_def)
  moreover have "db_wf tables None \<and> clean_log tables None"
    by (simp add: db_wf_def clean_log_def db_log_def)
  ultimately show ?thesis
    using assms(2-4) seed_rooms_log
    by (auto simp: chat_db_init_def clean_log_def split: option.splits if_splits) metis+
qed

lemma service_inv_init:
  assumes "opened_ok sq tables" "service_inv tables w"
  shows "service_inv tables (chat_service_init sq w)"
proof (cases "w_once w")
  case False
  obtain path made where p: "chat_db_default_path (w_statedir w) 512 = (path, made)" by fastforce
  show ?thesis
  proof (cases path)
    case None
    with False p assms(2) show ?thesis
      by (simp add: chat_service_init_def service_init_once_def service_inv_def Let_def)
  next
    case (Some q)
    obtain db rc where i: "chat_db_init sq (w_db w) q = (db, rc)" by fastforce
    have "db_wf tables db \<and> clean_log tables db"
      using chat_db_init_log [OF assms(1) _ _ i] assms(2) by (simp add: service_inv_def)
    moreover have "length (chat_db_list_rooms sq db CHAT_MAX_ROOMS) \<le> CHAT_MAX_ROOMS"
      by (simp add: chat_db_list_rooms_def split: option.split)
    moreover have "room_ok (new_room row)" for row
      using str_copy_length [of CHAT_NAME_MAX "rr_name row"]
      by (simp add: room_ok_def new_room_def chat_sizes)
    ultimately show ?thesis
      using False p Some i assms(2)
      by (simp add: chat_service_init_def service_init_once_def service_inv_def list_all_iff Let_def)
  qed
qed (simp add: chat_service_init_def assms)

lemma service_inv_post:
  assumes "service_inv tables w"
  shows "service_inv tables (fst (chat_room_post sq w i user body))"
proof -
  obtain w' mid where post: "chat_room_post sq w i user body = (w', mid)" by fastforce
  have wf: "db_wf tables (w_db w)" using assms by (simp add: service_inv_def)
  note st = post_store [OF sqlite_chat_axioms wf post]
  have "clean_log tables (w_db w')"
  proof (cases "mid < 0")
    case True
    with st(2) assms show ?thesis by (simp add: service_inv_def clean_log_def)
  next
    case False
    with st(3,5) assms show ?thesis by (simp add: service_inv_def clean_log_def clean_posted)
  qed
  with st(1) post_frame(1) [OF post] post assms show ?thesis by (simp add: service_inv_def)
qed

lemma service_step_inv:
  assumes "opened_ok sq tables" "service_step sq w w'" "service_inv tables w"
  shows "service_inv tables w'"
  using assms(2,3)
proof (induction rule: service_step.induct)
  case (svc_subscribe i w wfd)
  then show ?case
    unfolding chat_room_subscribe_def by (intro service_inv_update_subs length_sub_add)
next
  case (svc_unsubscribe i w wfd)
  then show ?case unfolding chat_room_unsubscribe_def
    by (intro service_inv_update_subs order.trans [OF length_sub_remove])
next
  case (svc_presence_set i w user)
  then show ?case
    by (simp add: chat_room_presence_set_def Let_def service_inv_def presence_set_log clean_log_def)
next
  case (svc_presence_clear i w user)
  then show ?case
    by (simp add: chat_room_presence_clear_def Let_def service_inv_def presence_clear_log clean_log_def)
qed (use assms(1) service_inv_init service_inv_post in \<open>simp_all add: service_inv_def\<close>)

end

section \<open>Properties\<close>

text \<open>C14: A post either stores exactly one message or changes nothing. It answers -1 and leaves
  the logs and all pipes as they were, or it answers a new id, larger than every stored
  one, appends to the log of that room alone the message with the sanitized name and
  body, makes every open pipe subscribed to the room readable, and leaves every other
  pipe as it was.\<close>

theorem chat_room_post_outcome:
  assumes "sqlite_chat sq tables" and "db_wf tables (w_db w)"
    and "chat_room_post sq w i user body = (w', mid)"
  shows "if mid < 0 then mid = -1 \<and> wlog tables w' = wlog tables w \<and> w_pipes w' = w_pipes w
     else (\<forall>r. list_all (\<lambda>m. cm_id m < mid) (wlog tables w r))
       \<and> wlog tables w' = (wlog tables w)(r_id (room_at w i) :=
           wlog tables w (r_id (room_at w i)) @ [\<lparr>cm_id = mid, cm_user = sanitize_user user CHAT_USER_MAX,
             cm_ts = w_now w, cm_body = sanitize_text body CHAT_BODY_MAX\<rparr>])
       \<and> list_all (\<lambda>fd. fd \<in> dom (w_pipes w) \<longrightarrow> pending (w_pipes w') fd) (sub_fds (room_at w i))
       \<and> (\<forall>fd. fd \<notin> set (sub_fds (room_at w i)) \<longrightarrow> w_pipes w' fd = w_pipes w fd)"
proof -
  note st = post_store [OF assms] and fr = post_frame [OF assms(3)]
  have "mid = -1" if "mid < 0"
    using assms(3) that by (cases rule: chat_room_post_cases) (auto split: if_splits)
  then show ?thesis
    using st(2-4) fr(4) fold_pipe_write_pending fold_pipe_write_other
    by (auto simp: list_all_iff posted_def)
qed

text \<open>C1: No sequence of calls on the chat service can put a message into any room's log whose
  name is not made of letters, digits and underscores or whose body holds a character
  outside printable ASCII (so no terminal escape sequence can be stored), no log ever
  has an empty name or body or loses the strict increase of its ids, and no room ever
  has more than 256 subscribers.\<close>

theorem service_reachable_inv:
  assumes "sqlite_chat sq tables" and "opened_ok sq tables"
    and "(service_step sq)\<^sup>*\<^sup>* (boot_world now sd ps) w"
  shows "service_inv tables w"
  using assms(3)
proof (induction rule: rtranclp_induct)
  case base
  show ?case
    by (simp add: service_inv_def boot_world_def db_wf_def clean_log_def db_log_def)
next
  case (step y z)
  with sqlite_chat.service_step_inv [OF assms(1,2)] show ?case by blast
qed

text \<open>Subscribing adds the descriptor once more to the room's subscribers unless 256 are
  already there, unsubscribing takes exactly one occurrence of it away and keeps all
  others, and neither touches another room, the store or the pipes.\<close>

theorem subscribe_unsubscribe:
  assumes "i < length (w_rooms w)"
  shows "mset (sub_fds (room_at (chat_room_subscribe w i wfd) i)) =
           (if length (sub_fds (room_at w i)) < CHAT_MAX_SUBSCRIBERS
            then add_mset wfd (mset (sub_fds (room_at w i))) else mset (sub_fds (room_at w i)))
     \<and> mset (sub_fds (room_at (chat_room_unsubscribe w i wfd) i)) = mset (sub_fds (room_at w i)) - {#wfd#}
     \<and> (\<forall>f j. j \<noteq> i \<longrightarrow> room_at (update_subs f i w) j = room_at w j)
     \<and> w_db (chat_room_subscribe w i wfd) = w_db w \<and> w_db (chat_room_unsubscribe w i wfd) = w_db w
     \<and> w_pipes (chat_room_subscribe w i wfd) = w_pipes w \<and> w_pipes (chat_room_unsubscribe w i wfd) = w_pipes w"
  using assms
  by (simp add: chat_room_subscribe_def chat_room_unsubscribe_def update_subs_def mset_sub_add mset_sub_remove)

text \<open>On a new database the first use of the service creates the schema, seeds the three
  default rooms and loads them as the registry, with the ids 1, 2 and 3 in the order of
  the seed list and no subscriber, and looking a room up by its id finds it; later calls
  change nothing.\<close>

theorem service_init_seeds:
  assumes "sqlite_chat sq tables" and "\<not> w_once w" and "w_db w = None" and "w_statedir w = None"
    and "sqlite3_open sq ''data/chat.db'' = Some db0" and "tables db0 = empty_tables"
    and "sqlite3_exec sq db0 SCHEMA = Some db1"
    and "\<And>db sql. sqlite3_prepare_v2 sq db sql"
    and "\<And>db n. snd (sqlite3_step_write sq db SQL_SEED_ROOM [Sql_text n])"
  shows "w_rooms (chat_service_init sq w) =
      [\<lparr>r_id = 1, r_name = ''general'', sub_fds = []\<rparr>, \<lparr>r_id = 2, r_name = ''games'', sub_fds = []\<rparr>,
       \<lparr>r_id = 3, r_name = ''random'', sub_fds = []\<rparr>]
    \<and> map (snd \<circ> chat_room_by_id sq w) [1, 2, 3, 4] = [Some 0, Some 1, Some 2, None]
    \<and> chat_service_init sq (chat_service_init sq w) = chat_service_init sq w"
proof -
  let ?db = "fold (seed_room sq) s_seed_rooms db1"
  have seeded: "tables (seed_room sq n db) = (if n \<in> snd ` set (tb_rooms (tables db)) then tables db
      else (tables db)\<lparr>tb_rooms := tb_rooms (tables db) @ [(next_rowid (tb_rooms (tables db)), n)]\<rparr>)" for n db
  proof (rule sqlite_chat.seed_done [OF assms(1)])
    show "sqlite3_step_write sq db SQL_SEED_ROOM [Sql_text n] = (seed_room sq n db, True)"
      using assms(9) [of db n] by (simp add: seed_room_def prod_eq_iff)
  qed
  have "tables db1 = empty_tables"
    using sqlite_chat.schema_keeps [OF assms(1,7)] assms(6) by simp
  then have "tb_rooms (tables ?db) = [(1, ''general''), (2, ''games''), (3, ''random'')]"
    by (simp add: s_seed_rooms_def seeded empty_tables_def next_rowid_def)
  then have "chat_db_list_rooms sq (Some ?db) CHAT_MAX_ROOMS =
      [\<lparr>rr_id = 1, rr_name = ''general''\<rparr>, \<lparr>rr_id = 2, rr_name = ''games''\<rparr>, \<lparr>rr_id = 3, rr_name = ''random''\<rparr>]"
    by (simp add: chat_db_list_rooms_def sqlite_chat.rooms_rows [OF assms(1)] assms(8) CHAT_MAX_ROOMS_def
          column_int_def column_text_def chat_sizes)
  then have rooms: "w_rooms (chat_service_init sq w) =
      [\<lparr>r_id = 1, r_name = ''general'', sub_fds = []\<rparr>, \<lparr>r_id = 2, r_name = ''games'', sub_fds = []\<rparr>,
       \<lparr>r_id = 3, r_name = ''random'', sub_fds = []\<rparr>]"
    using assms(2-5,7,8)
    by (simp add: chat_service_init_def service_init_once_def chat_db_default_path_def chat_db_init_def
          new_room_def chat_sizes Let_def)
  then show ?thesis
    by (simp add: chat_room_by_id_def Let_def) (simp add: chat_service_init_def)
qed

section \<open>A running example\<close>

lemmas init_defs = chat_service_init_def service_init_once_def chat_db_default_path_def chat_db_init_def
  chat_db_list_rooms_def seed_room_def s_seed_rooms_def new_room_def

lemma ref_sqlite_simps [simp]:
  "sqlite3_open ref_sqlite p = Some empty_tables" "sqlite3_exec ref_sqlite t sql = Some t"
  "sqlite3_prepare_v2 ref_sqlite t sql" "sqlite3_step_write ref_sqlite = ref_write"
  "sqlite3_step_rows ref_sqlite = ref_rows" "sqlite3_last_insert_rowid ref_sqlite = tb_seq"
  by (simp_all add: ref_sqlite_def)

definition demo_boot :: "chat_tables chat_world" where
  "demo_boot = boot_world 1000 None (Map.empty(7 \<mapsto> 0))"

definition demo_world :: "chat_tables chat_world" where
  "demo_world = chat_room_subscribe (chat_service_init ref_sqlite demo_boot) 0 7"

definition demo_tables :: chat_tables where
  "demo_tables = \<lparr>tb_rooms = [(1, ''general''), (2, ''games''), (3, ''random'')], tb_msgs = [],
     tb_seq = 0, tb_presence = []\<rparr>"

lemma demo_init:
  "chat_service_init ref_sqlite demo_boot = \<lparr>w_db = Some demo_tables,
     w_rooms = [\<lparr>r_id = 1, r_name = ''general'', sub_fds = []\<rparr>,
       \<lparr>r_id = 2, r_name = ''games'', sub_fds = []\<rparr>, \<lparr>r_id = 3, r_name = ''random'', sub_fds = []\<rparr>],
     w_once = True, w_pipes = Map.empty(7 \<mapsto> 0), w_now = 1000, w_statedir = None, w_dirs = [''data'']\<rparr>"
  by (simp add: init_defs demo_boot_def boot_world_def demo_tables_def next_rowid_def empty_tables_def
        column_int_def column_text_def chat_sizes CHAT_MAX_ROOMS_def Let_def)

lemma demo_world_eq:
  "demo_world = \<lparr>w_db = Some demo_tables,
     w_rooms = [\<lparr>r_id = 1, r_name = ''general'', sub_fds = [7]\<rparr>,
       \<lparr>r_id = 2, r_name = ''games'', sub_fds = []\<rparr>, \<lparr>r_id = 3, r_name = ''random'', sub_fds = []\<rparr>],
     w_once = True, w_pipes = Map.empty(7 \<mapsto> 0), w_now = 1000, w_statedir = None, w_dirs = [''data'']\<rparr>"
  by (simp add: demo_world_def demo_init chat_room_subscribe_def update_subs_def sub_add_def
        CHAT_MAX_SUBSCRIBERS_def)

lemma demo_world_steps: "(service_step ref_sqlite)\<^sup>*\<^sup>* demo_boot demo_world"
proof -
  have "service_step ref_sqlite (chat_service_init ref_sqlite demo_boot) demo_world"
    unfolding demo_world_def by (rule svc_subscribe) (simp add: demo_init)
  moreover have "(service_step ref_sqlite)\<^sup>*\<^sup>* demo_boot (chat_service_init ref_sqlite demo_boot)"
    by (rule r_into_rtranclp) (rule svc_init)
  ultimately show ?thesis by simp
qed

lemma ref_opened_ok: "opened_ok ref_sqlite (\<lambda>t. t)"
  by (simp add: opened_ok_def ref_sqlite_def db_wf_def clean_log_def db_log_def) (simp add: empty_tables_def)

theorem chat_room_post_outcome_witness:
  "\<exists>w'. chat_room_post ref_sqlite demo_world 0 ''bob!'' (ESC # ''[2Jhi'') = (w', 1)
     \<and> wlog (\<lambda>t. t) w' 1 = [\<lparr>cm_id = 1, cm_user = ''bob'', cm_ts = 1000, cm_body = ''?[2Jhi''\<rparr>]
     \<and> pending (w_pipes w') 7"
proof -
  let ?p = "chat_room_post ref_sqlite demo_world 0 ''bob!'' (ESC # ''[2Jhi'')"
  have clean: "sanitize_user ''bob!'' CHAT_USER_MAX = ''bob''"
    "sanitize_text (ESC # ''[2Jhi'') CHAT_BODY_MAX = ''?[2Jhi''"
    by (simp_all add: chat_sizes char_class_defs)
  have mid: "snd ?p = 1"
    by (simp add: chat_room_post_def clean demo_world_eq demo_tables_def chat_db_insert_message_def
          del: sanitize_user.simps sanitize_text.simps)
  then have p: "?p = (fst ?p, 1)" by (metis prod.collapse)
  have "db_wf (\<lambda>t. t) (w_db demo_world)"
    by (simp add: demo_world_eq demo_tables_def db_wf_def tables_ok_def)
  note post = chat_room_post_outcome [OF ref_engine.sqlite_chat_axioms this p]
  then have "wlog (\<lambda>t. t) (fst ?p) 1 =
      [\<lparr>cm_id = 1, cm_user = ''bob'', cm_ts = 1000, cm_body = ''?[2Jhi''\<rparr>] \<and> pending (w_pipes (fst ?p)) 7"
    by (simp add: demo_world_eq demo_tables_def db_log_def domIff clean
          del: sanitize_user.simps sanitize_text.simps)
  with p show ?thesis by blast
qed

theorem service_reachable_inv_witness:
  "service_inv (\<lambda>t. t) (fst (chat_room_post ref_sqlite demo_world 0 ''bob!'' (ESC # ''[2Jhi'')))"
proof -
  have "service_step ref_sqlite demo_world (fst (chat_room_post ref_sqlite demo_world 0 ''bob!'' (ESC # ''[2Jhi'')))"
    by (rule svc_post) (simp add: demo_world_eq)
  with demo_world_steps have "(service_step ref_sqlite)\<^sup>*\<^sup>* demo_boot
      (fst (chat_room_post ref_sqlite demo_world 0 ''bob!'' (ESC # ''[2Jhi'')))"
    by (rule rtranclp.rtrancl_into_rtrancl)
  then show ?thesis unfolding demo_boot_def
    by (rule service_reachable_inv [OF ref_engine.sqlite_chat_axioms ref_opened_ok])
qed

theorem subscribe_unsubscribe_witness:
  "mset (sub_fds (room_at (chat_room_subscribe demo_world 0 9) 0)) = {#7, 9#}
   \<and> mset (sub_fds (room_at (chat_room_unsubscribe demo_world 0 7) 0)) = {#}"
  using subscribe_unsubscribe [of 0 demo_world 9] subscribe_unsubscribe [of 0 demo_world 7]
  by (simp add: demo_world_eq CHAT_MAX_SUBSCRIBERS_def)

theorem service_init_seeds_witness:
  "map r_name (w_rooms (chat_service_init ref_sqlite (boot_world 1000 None Map.empty))) =
     [''general'', ''games'', ''random'']"
proof -
  have "snd (ref_write t SQL_SEED_ROOM [Sql_text n])" for t n by simp
  with service_init_seeds [OF ref_engine.sqlite_chat_axioms, of "boot_world 1000 None Map.empty" empty_tables empty_tables]
  show ?thesis by (simp add: boot_world_def)
qed

end
