(* ===== verification/Telnet_Types.thy ===== *)
theory Telnet_Types
  imports Iac_Parser Bbs Chat_Room
begin

text \<open>
  The state of a telnet session (\<^verbatim>\<open>telnet_session.h\<close>, \<^verbatim>\<open>telnet_states.h\<close>, the state of the
  chat feature from \<^verbatim>\<open>chat.c\<close>) and its one output path, \<^verbatim>\<open>telnet_session_send\<close>. A
  \<^verbatim>\<open>game_ops\<close> pointer is the name of the static vtable it points to; the opaque state
  of a game is the sentinel \<^verbatim>\<open>(void *) 1\<close> or a chat state. A session handler also reads
  and writes the chat service, the shared online counter and the clock: those and the
  session are the context \<open>tctx\<close>. Its field \<open>cx_overread\<close> records whether a formatted
  text was ever sent with a length beyond the buffer it was formatted into.
\<close>

definition TELNET_RECV_BUFSZ :: nat where "TELNET_RECV_BUFSZ = 4096"
definition TELNET_SEND_BUFSZ :: nat where "TELNET_SEND_BUFSZ = 8192"
definition TELNET_IDLE_TIMEOUT :: int where "TELNET_IDLE_TIMEOUT = 300"
definition TELNET_NEGO_TIMEOUT :: int where "TELNET_NEGO_TIMEOUT = 3"

datatype telnet_state = TSTATE_INIT | TSTATE_NEGOTIATING | TSTATE_MAIN_MENU | TSTATE_IN_GAME
  | TSTATE_CLOSING | TSTATE_CLOSED

datatype telnet_event = TEV_CONNECTED | TEV_NEGO_DONE | TEV_KEY_INPUT | TEV_MENU_SELECT
  | TEV_GAME_OVER | TEV_NAWS | TEV_DISCONNECT | TEV_TIMEOUT

text \<open>The payload behind \<^verbatim>\<open>const void *ev_data\<close>.\<close>

datatype ev_data = NoData | KeyData char | SelData int

text \<open>The static vtables of \<^verbatim>\<open>games/\<close>, \<^verbatim>\<open>features/stubs.c\<close> and \<^verbatim>\<open>features/chat/chat.c\<close>.\<close>

datatype game = Game_chess | Game_backgammon | Feature_text_adventure | Feature_trivia
  | Feature_reversi | Feature_whosonline | Feature_profile | Feature_alias | Feature_messageboard
  | Feature_help | Chat_feature

datatype chat_st = CHAT_ST_USERNAME | CHAT_ST_LOBBY | CHAT_ST_IN_ROOM | CHAT_ST_COMPOSE

text \<open>A character array with its length is the list of the characters in use.\<close>

record chat_state =
  cs_room :: "nat option"
  cs_st :: chat_st
  cs_compose :: string
  cs_username :: string
  cs_oldest_shown :: int
  cs_at_live :: bool

datatype game_state = Sentinel | Chat_state chat_state

text \<open>The only handler ever stored in \<^verbatim>\<open>on_notify\<close>.\<close>

datatype notify_handler = Chat_on_notify

record telnet_session =
  ts_sock :: sock
  ts_fsm :: telnet_state
  ts_iac :: iac_parser
  ts_main_menu :: "game menu"
  ts_active_game :: "game option"
  ts_game_state :: "game_state option"
  ts_term_cols :: "16 word"
  ts_term_rows :: "16 word"
  ts_send_buf :: string
  ts_echo_ok :: bool
  ts_sga_ok :: bool
  ts_naws_ok :: bool
  ts_nego_pending :: "8 word"
  ts_pending_selection :: int
  ts_game_over_pending :: bool
  ts_quit_pending :: bool
  ts_shutdown_requested :: bool
  ts_username :: string
  ts_notify_rfd :: fd
  ts_notify_wfd :: fd
  ts_on_notify :: "notify_handler option"

text \<open>\<open>cx_mem\<close> is whether the next allocation succeeds, \<open>cx_tm\<close> the local time.\<close>

record 'db tctx =
  cx_s :: telnet_session
  cx_w :: "'db chat_world"
  cx_online :: "32 word"
  cx_tm :: tm
  cx_mem :: bool
  cx_overread :: bool

section \<open>Sending\<close>

definition session_flush :: "telnet_session \<Rightarrow> telnet_session \<times> int" where
  "session_flush s =
     (case sock_send (ts_sock s) (ts_send_buf s) of
        (sk, ok) \<Rightarrow> if ok then (s\<lparr>ts_sock := sk, ts_send_buf := []\<rparr>, 0) else (s\<lparr>ts_sock := sk\<rparr>, -1))"

definition session_append :: "telnet_session \<Rightarrow> string \<Rightarrow> telnet_session \<times> int" where
  "session_append s dat =
     (if length (ts_send_buf s) + length dat > TELNET_SEND_BUFSZ then (s, -1)
      else (s\<lparr>ts_send_buf := ts_send_buf s @ dat\<rparr>, 0))"

definition telnet_session_send :: "telnet_session \<Rightarrow> string \<Rightarrow> telnet_session" where
  "telnet_session_send s dat =
     (if length dat = 0 then s else fst (session_flush (fst (session_append s dat))))"

definition cx_send :: "string \<Rightarrow> 'db tctx \<Rightarrow> 'db tctx" where
  "cx_send dat cx = cx\<lparr>cx_s := telnet_session_send (cx_s cx) dat\<rparr>"

text \<open>\<^verbatim>\<open>n = snprintf (buf, sz, ...); if (n > 0) telnet_session_send (s, buf, n)\<close>\<close>

definition cx_sendf :: "nat \<Rightarrow> string \<Rightarrow> 'db tctx \<Rightarrow> 'db tctx" where
  "cx_sendf sz str cx =
     (case snprintf sz str of (buf, n) \<Rightarrow>
        if n > 0 then cx_send buf (cx\<lparr>cx_overread := (cx_overread cx \<or> n > length buf)\<rparr>) else cx)"

section \<open>Lemmas\<close>

text \<open>A send changes the socket and the send buffer only.\<close>

lemma flush_append_out:
  "\<exists>sk b. fst (session_flush (fst (session_append s dat))) = s\<lparr>ts_sock := sk, ts_send_buf := b\<rparr>"
proof -
  have flush: "\<exists>sk b. fst (session_flush s') = s'\<lparr>ts_sock := sk, ts_send_buf := b\<rparr>" for s'
  proof (cases "sock_send (ts_sock s') (ts_send_buf s')")
    case (Pair sk ok)
    then have "fst (session_flush s') = s'\<lparr>ts_sock := sk, ts_send_buf := (if ok then [] else ts_send_buf s')\<rparr>"
      by (simp add: session_flush_def)
    then show ?thesis by blast
  qed
  have "fst (session_append s dat) = s\<lparr>ts_send_buf := (if length (ts_send_buf s) + length dat > TELNET_SEND_BUFSZ
      then ts_send_buf s else ts_send_buf s @ dat)\<rparr>"
    by (simp add: session_append_def)
  then obtain b where b: "fst (session_append s dat) = s\<lparr>ts_send_buf := b\<rparr>" by blast
  obtain sk b' where "fst (session_flush (s\<lparr>ts_send_buf := b\<rparr>)) = s\<lparr>ts_send_buf := b\<rparr>\<lparr>ts_sock := sk, ts_send_buf := b'\<rparr>"
    using flush by blast
  with b have "fst (session_flush (fst (session_append s dat))) = s\<lparr>ts_sock := sk, ts_send_buf := b'\<rparr>" by simp
  then show ?thesis by blast
qed

lemma send_only_out: "\<exists>sk b. telnet_session_send s dat = s\<lparr>ts_sock := sk, ts_send_buf := b\<rparr>"
proof -
  have "\<exists>sk b. s = s\<lparr>ts_sock := sk, ts_send_buf := b\<rparr>"
    by (intro exI [of _ "ts_sock s"] exI [of _ "ts_send_buf s"]) simp
  with flush_append_out [of s dat] show ?thesis by (simp add: telnet_session_send_def)
qed

lemma send_frame [simp]:
  "ts_fsm (telnet_session_send s dat) = ts_fsm s" "ts_iac (telnet_session_send s dat) = ts_iac s"
  "ts_main_menu (telnet_session_send s dat) = ts_main_menu s"
  "ts_active_game (telnet_session_send s dat) = ts_active_game s"
  "ts_game_state (telnet_session_send s dat) = ts_game_state s"
  "ts_term_cols (telnet_session_send s dat) = ts_term_cols s"
  "ts_term_rows (telnet_session_send s dat) = ts_term_rows s"
  "ts_echo_ok (telnet_session_send s dat) = ts_echo_ok s"
  "ts_sga_ok (telnet_session_send s dat) = ts_sga_ok s"
  "ts_naws_ok (telnet_session_send s dat) = ts_naws_ok s"
  "ts_nego_pending (telnet_session_send s dat) = ts_nego_pending s"
  "ts_pending_selection (telnet_session_send s dat) = ts_pending_selection s"
  "ts_game_over_pending (telnet_session_send s dat) = ts_game_over_pending s"
  "ts_quit_pending (telnet_session_send s dat) = ts_quit_pending s"
  "ts_shutdown_requested (telnet_session_send s dat) = ts_shutdown_requested s"
  "ts_username (telnet_session_send s dat) = ts_username s"
  "ts_notify_rfd (telnet_session_send s dat) = ts_notify_rfd s"
  "ts_notify_wfd (telnet_session_send s dat) = ts_notify_wfd s"
  "ts_on_notify (telnet_session_send s dat) = ts_on_notify s"
  using send_only_out [of s dat] by auto

lemma send_buf_bounded:
  "length (ts_send_buf s) \<le> TELNET_SEND_BUFSZ \<Longrightarrow>
   length (ts_send_buf (telnet_session_send s dat)) \<le> TELNET_SEND_BUFSZ"
  by (simp add: telnet_session_send_def session_flush_def session_append_def split: prod.split)

lemma cx_send_frame [simp]:
  "cx_w (cx_send dat cx) = cx_w cx" "cx_online (cx_send dat cx) = cx_online cx"
  "cx_tm (cx_send dat cx) = cx_tm cx" "cx_mem (cx_send dat cx) = cx_mem cx"
  "cx_overread (cx_send dat cx) = cx_overread cx"
  "cx_s (cx_send dat cx) = telnet_session_send (cx_s cx) dat"
  by (simp_all add: cx_send_def)

lemma cx_sendf_frame [simp]:
  "cx_w (cx_sendf sz str cx) = cx_w cx" "cx_online (cx_sendf sz str cx) = cx_online cx"
  "cx_tm (cx_sendf sz str cx) = cx_tm cx" "cx_mem (cx_sendf sz str cx) = cx_mem cx"
  "ts_fsm (cx_s (cx_sendf sz str cx)) = ts_fsm (cx_s cx)"
  "ts_iac (cx_s (cx_sendf sz str cx)) = ts_iac (cx_s cx)"
  "ts_main_menu (cx_s (cx_sendf sz str cx)) = ts_main_menu (cx_s cx)"
  "ts_active_game (cx_s (cx_sendf sz str cx)) = ts_active_game (cx_s cx)"
  "ts_game_state (cx_s (cx_sendf sz str cx)) = ts_game_state (cx_s cx)"
  "ts_term_cols (cx_s (cx_sendf sz str cx)) = ts_term_cols (cx_s cx)"
  "ts_term_rows (cx_s (cx_sendf sz str cx)) = ts_term_rows (cx_s cx)"
  "ts_echo_ok (cx_s (cx_sendf sz str cx)) = ts_echo_ok (cx_s cx)"
  "ts_sga_ok (cx_s (cx_sendf sz str cx)) = ts_sga_ok (cx_s cx)"
  "ts_naws_ok (cx_s (cx_sendf sz str cx)) = ts_naws_ok (cx_s cx)"
  "ts_nego_pending (cx_s (cx_sendf sz str cx)) = ts_nego_pending (cx_s cx)"
  "ts_pending_selection (cx_s (cx_sendf sz str cx)) = ts_pending_selection (cx_s cx)"
  "ts_game_over_pending (cx_s (cx_sendf sz str cx)) = ts_game_over_pending (cx_s cx)"
  "ts_quit_pending (cx_s (cx_sendf sz str cx)) = ts_quit_pending (cx_s cx)"
  "ts_shutdown_requested (cx_s (cx_sendf sz str cx)) = ts_shutdown_requested (cx_s cx)"
  "ts_username (cx_s (cx_sendf sz str cx)) = ts_username (cx_s cx)"
  "ts_notify_rfd (cx_s (cx_sendf sz str cx)) = ts_notify_rfd (cx_s cx)"
  "ts_notify_wfd (cx_s (cx_sendf sz str cx)) = ts_notify_wfd (cx_s cx)"
  "ts_on_notify (cx_s (cx_sendf sz str cx)) = ts_on_notify (cx_s cx)"
  by (simp_all add: cx_sendf_def split: prod.split)

lemma cx_sendf_fits:
  assumes "length str < sz"
  shows "cx_sendf sz str cx = cx_send str cx"
proof (cases str)
  case Nil
  then show ?thesis by (simp add: cx_sendf_def snprintf_def cx_send_def telnet_session_send_def)
next
  case (Cons c cs)
  with assms have "take (sz - 1) str = str" by simp
  with Cons show ?thesis by (simp add: cx_sendf_def snprintf_def)
qed

text \<open>A session whose socket accepts everything receives exactly what is sent, up to one
  buffer per call.\<close>

definition healthy :: "telnet_session \<Rightarrow> bool" where
  "healthy s \<longleftrightarrow> sk_script (ts_sock s) = [] \<and> ts_send_buf s = []"

definition sent_to :: "telnet_session \<Rightarrow> string" where
  "sent_to s = sk_sent (ts_sock s)"

lemma send_healthy:
  assumes "healthy s"
  shows "healthy (telnet_session_send s dat)"
    and "sent_to (telnet_session_send s dat) = sent_to s @ (if length dat \<le> TELNET_SEND_BUFSZ then dat else [])"
  using assms
  by (auto simp: healthy_def sent_to_def telnet_session_send_def session_flush_def session_append_def
        sock_send_empty_script)

end
