(* ===== verification/Chat_Client.thy ===== *)
theory Chat_Client
  imports Chat_Room
begin

text \<open>
  What the two clients of the chat service (the telnet chat and the HTTP interface) both
  rely on: the bounds of the room registry, where a descriptor is subscribed, and what
  the other threads may do to the service while a client waits.
\<close>

section \<open>The registry of a running service\<close>

definition world_ok :: "'db chat_world \<Rightarrow> bool" where
  "world_ok w \<longleftrightarrow> w_once w \<and> length (w_rooms w) \<le> CHAT_MAX_ROOMS \<and> list_all room_ok (w_rooms w)"

lemma world_ok_name: "world_ok w \<Longrightarrow> i < length (w_rooms w) \<Longrightarrow> length (r_name (room_at w i)) \<le> 31"
  by (auto simp: world_ok_def list_all_length room_ok_def chat_sizes)

lemma world_ok_init [simp]: "world_ok w \<Longrightarrow> chat_service_init sq w = w"
  by (simp add: world_ok_def chat_service_init_def)

definition world_pre :: "'db chat_world \<Rightarrow> bool" where
  "world_pre w \<longleftrightarrow> length (w_rooms w) \<le> CHAT_MAX_ROOMS \<and> list_all room_ok (w_rooms w)
     \<and> (\<not> w_once w \<longrightarrow> w_rooms w = [])"

section \<open>Subscriptions of one client\<close>

text \<open>A descriptor (not the -1 of a failed \<^verbatim>\<open>pipe2\<close>, which several clients can share) is
  subscribed to one room at most, once, and nowhere else.\<close>

definition subs_of :: "fd \<Rightarrow> 'db chat_world \<Rightarrow> nat \<Rightarrow> nat" where
  "subs_of wfd w i = count (mset (sub_fds (room_at w i))) wfd"

definition sub_only :: "fd \<Rightarrow> nat option \<Rightarrow> 'db chat_world \<Rightarrow> bool" where
  "sub_only wfd room w \<longleftrightarrow> 0 \<le> wfd \<longrightarrow>
     (\<forall>i < length (w_rooms w). subs_of wfd w i \<le> (if room = Some i then 1 else 0))"

lemma presence_frame [simp]:
  "w_rooms (chat_room_presence_set sq w i u) = w_rooms w" "w_once (chat_room_presence_set sq w i u) = w_once w"
  "w_rooms (chat_room_presence_clear sq w i u) = w_rooms w" "w_once (chat_room_presence_clear sq w i u) = w_once w"
  by (simp_all add: chat_room_presence_set_def chat_room_presence_clear_def Let_def)

lemma world_ok_presence [simp]:
  "world_ok (chat_room_presence_set sq w i u) = world_ok w" "world_ok (chat_room_presence_clear sq w i u) = world_ok w"
  "sub_only fd r (chat_room_presence_set sq w i u) = sub_only fd r w"
  "sub_only fd r (chat_room_presence_clear sq w i u) = sub_only fd r w"
  by (simp_all add: world_ok_def sub_only_def subs_of_def)

lemma world_ok_post [simp]:
  "world_ok (fst (chat_room_post sq w i u b)) = world_ok w"
  "sub_only fd r (fst (chat_room_post sq w i u b)) = sub_only fd r w"
  "w_rooms (fst (chat_room_post sq w i u b)) = w_rooms w"
  using post_frame [of sq w i u b "fst (chat_room_post sq w i u b)" "snd (chat_room_post sq w i u b)"]
  by (simp_all add: world_ok_def sub_only_def subs_of_def)

lemma update_subs_rooms:
  "i < length (w_rooms w) \<Longrightarrow> j < length (w_rooms w) \<Longrightarrow>
   sub_fds (room_at (update_subs f i w) j) = (if i = j then f (sub_fds (room_at w i)) else sub_fds (room_at w j))"
  by (simp add: update_subs_def nth_list_update)

lemma world_ok_update_subs:
  assumes "world_ok w" "i < length (w_rooms w)"
    and "\<And>fds. length fds \<le> CHAT_MAX_SUBSCRIBERS \<Longrightarrow> length (f fds) \<le> CHAT_MAX_SUBSCRIBERS"
  shows "world_ok (update_subs f i w)"
proof -
  have "room_ok (room_at w i)" using assms(1,2) by (simp add: world_ok_def list_all_length)
  then show ?thesis using assms by (simp add: world_ok_def update_subs_def list_all_update room_ok_def)
qed

lemma world_ok_subs [intro]:
  assumes "world_ok w" "i < length (w_rooms w)"
  shows "world_ok (chat_room_subscribe w i fd)" "world_ok (chat_room_unsubscribe w i fd)"
  unfolding chat_room_subscribe_def chat_room_unsubscribe_def
  using assms by (auto intro: world_ok_update_subs length_sub_add order.trans [OF length_sub_remove])

lemma subs_of_subscribe:
  "i < length (w_rooms w) \<Longrightarrow> j < length (w_rooms w) \<Longrightarrow>
   subs_of fd (chat_room_subscribe w i fd) j \<le> subs_of fd w j + (if i = j then 1 else 0)"
  by (simp add: subs_of_def chat_room_subscribe_def update_subs_rooms mset_sub_add)

lemma subs_of_unsubscribe:
  "i < length (w_rooms w) \<Longrightarrow> j < length (w_rooms w) \<Longrightarrow>
   subs_of fd (chat_room_unsubscribe w i fd) j = subs_of fd w j - (if i = j then 1 else 0)"
  by (simp add: subs_of_def chat_room_unsubscribe_def update_subs_rooms mset_sub_remove)

lemma room_count_simps [simp]:
  "length (w_rooms (chat_room_subscribe w i fd)) = length (w_rooms w)"
  "length (w_rooms (chat_room_unsubscribe w i fd)) = length (w_rooms w)"
  by (simp_all add: chat_room_subscribe_def chat_room_unsubscribe_def)

lemma sub_only_subscribe:
  assumes "sub_only fd None w" "i < length (w_rooms w)"
  shows "sub_only fd (Some i) (chat_room_subscribe w i fd)"
  unfolding sub_only_def
proof (intro allI impI)
  fix j assume "0 \<le> fd" "j < length (w_rooms (chat_room_subscribe w i fd))"
  then have "j < length (w_rooms w)" by simp
  with subs_of_subscribe [OF assms(2) this, of fd] assms(1) \<open>0 \<le> fd\<close>
  show "subs_of fd (chat_room_subscribe w i fd) j \<le> (if Some i = Some j then 1 else 0)"
    by (auto simp: sub_only_def)
qed

lemma sub_only_unsubscribe:
  "sub_only fd (Some i) w \<Longrightarrow> i < length (w_rooms w) \<Longrightarrow> sub_only fd None (chat_room_unsubscribe w i fd)"
  by (auto simp: sub_only_def subs_of_unsubscribe)

lemma sub_only_weaken: "sub_only fd None w \<Longrightarrow> sub_only fd room w"
  by (auto simp: sub_only_def)

section \<open>Initialising the service\<close>

lemma world_pre_init: "world_pre w \<Longrightarrow> world_ok (chat_service_init sq w)"
proof -
  assume w: "world_pre w"
  have "length (chat_db_list_rooms sq db CHAT_MAX_ROOMS) \<le> CHAT_MAX_ROOMS" for db
    by (simp add: chat_db_list_rooms_def split: option.split)
  moreover have "room_ok (new_room row)" for row
    using str_copy_length [of CHAT_NAME_MAX "rr_name row"]
    by (simp add: room_ok_def new_room_def chat_sizes)
  ultimately show ?thesis
    using w by (auto simp: world_ok_def world_pre_def chat_service_init_def service_init_once_def
        Let_def list_all_iff split: option.splits prod.splits)
qed

lemma sub_only_init:
  "world_pre w \<Longrightarrow> sub_only fd None w \<Longrightarrow> sub_only fd None (chat_service_init sq w)"
  by (auto simp: sub_only_def subs_of_def world_pre_def chat_service_init_def service_init_once_def
        Let_def new_room_def split: option.splits prod.splits)

section \<open>The other threads\<close>

text \<open>Other threads post, subscribe and unsubscribe their own descriptors, initialise the
  service and drain their own pipes.\<close>

definition world_env :: "fd \<Rightarrow> 'db chat_world \<Rightarrow> 'db chat_world \<Rightarrow> bool" where
  "world_env fd w w' \<longleftrightarrow> (world_pre w \<longrightarrow> world_pre w')
     \<and> (w_once w \<longrightarrow> w_once w' \<and> length (w_rooms w') = length (w_rooms w))
     \<and> (0 \<le> fd \<longrightarrow> (\<forall>i < length (w_rooms w'). subs_of fd w' i =
          (if i < length (w_rooms w) then subs_of fd w i else 0)))"

lemma world_env_ok:
  assumes "world_env fd w w'"
  shows "world_pre w \<Longrightarrow> world_pre w'" "world_ok w \<Longrightarrow> world_ok w'"
    "sub_only fd None w \<Longrightarrow> sub_only fd None w'" "world_ok w \<Longrightarrow> sub_only fd r w \<Longrightarrow> sub_only fd r w'"
proof -
  show "world_pre w \<Longrightarrow> world_pre w'" using assms by (simp add: world_env_def)
  show "world_ok w \<Longrightarrow> world_ok w'" using assms by (simp add: world_env_def world_ok_def world_pre_def)
  show "world_ok w \<Longrightarrow> sub_only fd r w \<Longrightarrow> sub_only fd r w'"
    using assms by (simp add: world_env_def world_ok_def sub_only_def)
  show "sub_only fd None w \<Longrightarrow> sub_only fd None w'"
    using assms unfolding world_env_def sub_only_def by (metis le_zero_eq linorder_not_le option.distinct(1))
qed

section \<open>What one client does to the service\<close>

text \<open>The calls a client whose pipe has the write end \<open>fd\<close> makes: it subscribes and
  drains no other pipe than its own.\<close>

inductive client_step :: "'db sqlite \<Rightarrow> fd \<Rightarrow> 'db chat_world \<Rightarrow> 'db chat_world \<Rightarrow> bool" for sq fd where
  cl_init: "client_step sq fd w (chat_service_init sq w)"
| cl_post: "client_step sq fd w (fst (chat_room_post sq w i user body))"
| cl_subscribe: "client_step sq fd w (chat_room_subscribe w i fd)"
| cl_unsubscribe: "client_step sq fd w (chat_room_unsubscribe w i fd)"
| cl_presence_set: "client_step sq fd w (chat_room_presence_set sq w i user)"
| cl_presence_clear: "client_step sq fd w (chat_room_presence_clear sq w i user)"
| cl_drain: "client_step sq fd w (w\<lparr>w_pipes := pipe_drain fd (w_pipes w)\<rparr>)"

lemma world_env_refl [simp]: "world_env fd w w"
  by (simp add: world_env_def)

lemma world_env_trans:
  assumes "world_pre w" "world_env fd w w1" "world_env fd w1 w2"
  shows "world_env fd w w2"
proof (cases "w_once w")
  case True
  with assms show ?thesis by (simp add: world_env_def)
next
  case False
  with assms(1) have "w_rooms w = []" by (simp add: world_pre_def)
  with assms show ?thesis by (simp add: world_env_def)
qed

lemma world_env_rooms:
  "w_rooms w' = w_rooms w \<Longrightarrow> w_once w' = w_once w \<Longrightarrow> world_env fd w w'"
  by (simp add: world_env_def world_pre_def subs_of_def)

lemma world_env_init:
  assumes "world_pre w"
  shows "world_env fd w (chat_service_init sq w)"
proof (cases "w_once w")
  case False
  then have r: "w_rooms w = []" using assms by (simp add: world_pre_def)
  have "subs_of fd (chat_service_init sq w) i = 0" if "i < length (w_rooms (chat_service_init sq w))" for i
    using that False r
    by (auto simp: subs_of_def chat_service_init_def service_init_once_def new_room_def Let_def
        split: option.splits prod.splits if_splits)
  moreover have "world_pre (chat_service_init sq w)"
    using world_pre_init [OF assms, of sq] by (simp add: world_ok_def world_pre_def)
  ultimately show ?thesis using False r by (simp add: world_env_def)
qed (simp add: chat_service_init_def)

text \<open>Outside the registry an update of the subscribers changes nothing.\<close>

lemma update_subs_out: "length (w_rooms w) \<le> i \<Longrightarrow> update_subs f i w = w"
  by (simp add: update_subs_def list_update_beyond)

lemma world_env_update_subs:
  assumes "\<And>fds. 0 \<le> fd \<Longrightarrow> count (mset (f fds)) fd = count (mset fds) fd"
    and "\<And>fds. length fds \<le> CHAT_MAX_SUBSCRIBERS \<Longrightarrow> length (f fds) \<le> CHAT_MAX_SUBSCRIBERS"
  shows "world_env fd w (update_subs f i w)"
proof (cases "i < length (w_rooms w)")
  case True
  have "subs_of fd (update_subs f i w) j = subs_of fd w j" if "0 \<le> fd" "j < length (w_rooms w)" for j
    using update_subs_rooms [OF True that(2), of f] assms(1) that(1) by (simp add: subs_of_def)
  moreover have "world_pre (update_subs f i w)" if "world_pre w"
  proof -
    have "room_ok (room_at w i)" using that True by (simp add: world_pre_def list_all_length)
    with that True assms(2) show ?thesis
      by (auto simp: world_pre_def update_subs_def list_all_update room_ok_def)
  qed
  ultimately show ?thesis by (simp add: world_env_def)
qed (simp add: update_subs_out)

lemma world_env_subs:
  assumes "0 \<le> fd \<Longrightarrow> fd \<noteq> fd'"
  shows "world_env fd w (chat_room_subscribe w i fd')" "world_env fd w (chat_room_unsubscribe w i fd')"
  unfolding chat_room_subscribe_def chat_room_unsubscribe_def
  using assms
  by (intro world_env_update_subs length_sub_add order.trans [OF length_sub_remove];
      simp add: mset_sub_add mset_sub_remove)+

text \<open>The guarantee of one client is what every other client relies on.\<close>

lemma client_step_env:
  assumes "client_step sq fd' w w'" "0 \<le> fd \<Longrightarrow> fd \<noteq> fd'" "world_pre w"
  shows "world_env fd w w'"
  using assms(1)
proof cases
  case cl_init
  with world_env_init [OF assms(3)] show ?thesis by simp
qed (use world_env_subs [OF assms(2)] in \<open>simp_all add: world_env_rooms post_frame [OF surjective_pairing]\<close>)

lemma client_steps_env:
  assumes "(client_step sq fd')\<^sup>*\<^sup>* w w'" "0 \<le> fd \<Longrightarrow> fd \<noteq> fd'" "world_pre w"
  shows "world_env fd w w'"
  using assms(1)
proof (induction rule: rtranclp_induct)
  case (step w1 w2)
  have "world_pre w1" using step.IH assms(3) world_env_ok(1) by blast
  with step client_step_env assms(2,3) show ?case by (blast intro: world_env_trans)
qed simp

end
