(* ===== verification/Chat_Ui.thy ===== *)
theory Chat_Ui
  imports Telnet_Types Chat_Client
begin

text \<open>
  The telnet side of the chat, \<^verbatim>\<open>features/chat/chat.c\<close>: the four screens, the key
  handlers and the entry points of its vtable. A function that takes the C pointer
  \<^verbatim>\<open>chat_state_t *c\<close> takes the chat state and the session context and returns both.
\<close>

section \<open>The model\<close>

definition CHAT_MSG_LINES :: int where "CHAT_MSG_LINES = 18"
definition CHAT_MAX_WHO :: nat where "CHAT_MAX_WHO = 16"

definition csend :: "string \<Rightarrow> 'db tctx \<Rightarrow> 'db tctx" where
  "csend str cx = cx_send str cx"

definition csendf :: "string \<Rightarrow> 'db tctx \<Rightarrow> 'db tctx" where
  "csendf str cx = cx_sendf 1024 str cx"

definition term_rows :: "'db tctx \<Rightarrow> 16 word" where
  "term_rows cx = (if ts_term_rows (cx_s cx) > 6 then ts_term_rows (cx_s cx) else 24)"

text \<open>\<^verbatim>\<open>gmtime_r\<close> and \<^verbatim>\<open>strftime\<close> with \<^verbatim>\<open>%H:%M\<close>.\<close>

definition hhmm :: "int \<Rightarrow> string" where
  "hhmm ts = two_digits (nat (ts mod 86400 div 3600)) @ '':'' @ two_digits (nat (ts mod 3600 div 60))"

definition msg_line :: "chat_msg \<Rightarrow> string" where
  "msg_line m = csi ''2m['' @ hhmm (cm_ts m) @ '']'' @ csi ''0m '' @ csi ''1m'' @ cm_user m @ csi ''0m: ''
     @ cm_body m @ crlf"

definition format_msg :: "chat_msg \<Rightarrow> nat \<Rightarrow> string \<times> nat" where
  "format_msg m outsz = snprintf outsz (msg_line m)"

definition render_username :: "chat_state \<Rightarrow> 'db tctx \<Rightarrow> 'db tctx" where
  "render_username c cx =
     (let cx = csend (csi ''2J'' @ csi ''H'' @ csi ''1;36m  OETELX CHAT'' @ csi ''0m'' @ crlf @ crlf
                @ ''  Kies een naam (letters, cijfers, _ '' @ EMDASH @ '' max 20).'' @ crlf @ crlf @ ''  Naam: '') cx
      in if length (cs_username c) > 0 then csend (cs_username c) cx else cx)"

definition lobby_row :: "'db sqlite \<Rightarrow> nat \<Rightarrow> 'db tctx \<Rightarrow> 'db tctx" where
  "lobby_row sq i cx =
     csendf (''  '' @ csi ''33m['' @ show_nat (i + 1) @ '']'' @ csi ''0m  #''
       @ pad_right 10 (r_name (room_at (cx_w cx) i)) @ '' '' @ csi ''2m''
       @ show_nat (length (chat_room_users sq (cx_w cx) i CHAT_MAX_WHO)) @ '' online'' @ csi ''0m'' @ crlf) cx"

definition render_lobby :: "'db sqlite \<Rightarrow> 'db tctx \<Rightarrow> 'db tctx" where
  "render_lobby sq cx =
     (case chat_rooms_list sq (cx_w cx) of (w, rooms) \<Rightarrow>
        let cx = cx\<lparr>cx_w := w\<rparr>;
            cx = csend (csi ''2J'' @ csi ''H'' @ csi ''1;36m  OETELX CHAT'' @ csi ''0m'' @ crlf
                   @ csi ''2m  '' @ hline 25 @ csi ''0m'' @ crlf @ crlf) cx;
            cx = fold (lobby_row sq) [0..<length rooms] cx
        in csend (crlf @ csi ''2m  [1-3] kies room   [Q] terug naar menu'' @ csi ''0m'' @ crlf) cx)"

text \<open>The loop that joins the names into \<^verbatim>\<open>wholist[256]\<close>: the text so far (\<^verbatim>\<open>wl\<close>) and the
  names left; a name that does not fit is written truncated and ends the loop.\<close>

fun join_who :: "string \<Rightarrow> bool \<Rightarrow> string list \<Rightarrow> string" where
  "join_who wl sep [] = wl"
| "join_who wl sep (u # us) =
     (let piece = (if sep then '', '' else []) @ u
      in if length piece \<ge> 256 - length wl then wl @ fst (snprintf (256 - length wl) piece)
         else join_who (wl @ piece) True us)"

definition send_msg_line :: "chat_msg \<Rightarrow> 'db tctx \<Rightarrow> 'db tctx" where
  "send_msg_line m cx = cx_sendf 640 (msg_line m) cx"

definition room_footer :: "16 word \<Rightarrow> 'db tctx \<Rightarrow> 'db tctx" where
  "room_footer r cx =
     (let cx = csendf (csi (show_nat (unat r - 2)) @ '';1H'' @ csi ''2m  '' @ hline 41 @ csi ''0m'') cx;
          cx = csendf (csi (show_nat (unat r - 1)) @ '';1H  > '') cx
      in csendf (csi (show_nat (unat r)) @ '';1H'' @ csi ''2m  [Enter]schrijf  [p]ouder  [n]nieuwer  [q]verlaat  [Q]quit''
           @ csi ''0m'') cx)"

definition page_size :: "16 word \<Rightarrow> int" where
  "page_size r =
     (let avail = int (unat r) - 5
      in if avail > 0 \<and> avail < CHAT_MSG_LINES then avail else CHAT_MSG_LINES)"

definition room_header :: "'db sqlite \<Rightarrow> nat \<Rightarrow> 'db tctx \<Rightarrow> 'db tctx" where
  "room_header sq room cx =
     (let who = chat_room_users sq (cx_w cx) room CHAT_MAX_WHO;
          wholist = join_who [] False who
      in csendf (csi ''2J'' @ csi ''H'' @ csi ''1;36m  #'' @ r_name (room_at (cx_w cx) room) @ csi ''0m  ''
           @ csi ''2m('' @ show_nat (length who) @ '' online: '' @ wholist @ '')'' @ csi ''0m'' @ crlf
           @ csi ''2m  '' @ hline 39 @ csi ''0m'' @ crlf) cx)"

text \<open>\<open>room\<close> is the handle in \<^verbatim>\<open>c->room\<close>, never null here.\<close>

definition render_room_at ::
  "'db sqlite \<Rightarrow> nat \<Rightarrow> chat_state \<Rightarrow> 'db tctx \<Rightarrow> chat_state \<times> 'db tctx" where
  "render_room_at sq room c cx =
     (let r = term_rows cx;
          want = page_size r;
          anchor = (if cs_at_live c then 0 else cs_oldest_shown c);
          msgs = chat_room_before sq (cx_w cx) room anchor want CHAT_MSG_LINES;
          c = (if msgs \<noteq> [] then c\<lparr>cs_oldest_shown := cm_id (hd msgs)\<rparr> else c);
          cx = room_header sq room cx;
          cx = fold send_msg_line msgs cx
      in (c, room_footer r cx))"

definition render_room :: "'db sqlite \<Rightarrow> chat_state \<Rightarrow> 'db tctx \<Rightarrow> chat_state \<times> 'db tctx" where
  "render_room sq c cx =
     (case cs_room c of None \<Rightarrow> (c, cx) | Some room \<Rightarrow> render_room_at sq room c cx)"

definition render_compose :: "chat_state \<Rightarrow> 'db tctx \<Rightarrow> 'db tctx" where
  "render_compose c cx =
     csendf (csi (show_nat (unat (term_rows cx) - 1)) @ '';1H'' @ csi ''2K  '' @ csi ''0m> '' @ cs_compose c) cx"

definition on_world :: "('db chat_world \<Rightarrow> 'db chat_world) \<Rightarrow> 'db tctx \<Rightarrow> 'db tctx" where
  "on_world f cx = cx\<lparr>cx_w := f (cx_w cx)\<rparr>"

definition on_session :: "(telnet_session \<Rightarrow> telnet_session) \<Rightarrow> 'db tctx \<Rightarrow> 'db tctx" where
  "on_session f cx = cx\<lparr>cx_s := f (cx_s cx)\<rparr>"

definition enter_room ::
  "'db sqlite \<Rightarrow> nat \<Rightarrow> chat_state \<Rightarrow> 'db tctx \<Rightarrow> chat_state \<times> 'db tctx" where
  "enter_room sq room c cx =
     (let c = c\<lparr>cs_room := Some room, cs_oldest_shown := 0, cs_at_live := True, cs_st := CHAT_ST_IN_ROOM\<rparr>;
          cx = on_world (\<lambda>w. chat_room_presence_set sq w room (ts_username (cx_s cx))) cx;
          cx = on_session (\<lambda>s. s\<lparr>ts_on_notify := Some Chat_on_notify\<rparr>) cx;
          cx = (if ts_notify_wfd (cx_s cx) \<ge> 0
                then on_world (\<lambda>w. chat_room_subscribe w room (ts_notify_wfd (cx_s cx))) cx else cx)
      in render_room sq c cx)"

text \<open>The part of \<^verbatim>\<open>leave_room\<close> and \<^verbatim>\<open>chat_destroy\<close> that gives the room up.\<close>

definition release_room :: "'db sqlite \<Rightarrow> chat_state \<Rightarrow> 'db tctx \<Rightarrow> 'db tctx" where
  "release_room sq c cx =
     (case cs_room c of
        None \<Rightarrow> cx
      | Some room \<Rightarrow>
         on_world (\<lambda>w. chat_room_presence_clear sq (chat_room_unsubscribe w room (ts_notify_wfd (cx_s cx))) room
           (ts_username (cx_s cx))) cx)"

definition leave_room :: "'db sqlite \<Rightarrow> chat_state \<Rightarrow> 'db tctx \<Rightarrow> chat_state \<times> 'db tctx" where
  "leave_room sq c cx =
     (let cx = release_room sq c cx;
          cx = on_session (\<lambda>s. s\<lparr>ts_on_notify := None\<rparr>) cx
      in (c\<lparr>cs_room := None, cs_st := CHAT_ST_LOBBY\<rparr>, render_lobby sq cx))"

text \<open>The handler reads the state back from \<^verbatim>\<open>s->game_state\<close>.\<close>

definition chat_on_notify :: "'db sqlite \<Rightarrow> 'db tctx \<Rightarrow> 'db tctx" where
  "chat_on_notify sq cx =
     (case ts_game_state (cx_s cx) of
        Some (Chat_state c) \<Rightarrow>
          if cs_st c = CHAT_ST_LOBBY \<or> cs_st c = CHAT_ST_USERNAME then cx
          else if \<not> cs_at_live c then cx
          else (case render_room sq c cx of (c, cx) \<Rightarrow>
                  let cx = on_session (\<lambda>s. s\<lparr>ts_game_state := Some (Chat_state c)\<rparr>) cx
                  in if cs_st c = CHAT_ST_COMPOSE then render_compose c cx else cx)
      | _ \<Rightarrow> cx)"

definition handle_username ::
  "'db sqlite \<Rightarrow> char \<Rightarrow> chat_state \<Rightarrow> 'db tctx \<Rightarrow> bool \<times> chat_state \<times> 'db tctx" where
  "handle_username sq key c cx =
     (if key = CR \<or> key = LF then
        (if length (cs_username c) = 0 then (True, c, cx)
         else (let cx = on_session (\<lambda>s. s\<lparr>ts_username := str_copy 32 (cs_username c)\<rparr>) cx
               in (True, c\<lparr>cs_st := CHAT_ST_LOBBY\<rparr>, render_lobby sq cx)))
      else if (key = DEL \<or> key = BS) \<and> length (cs_username c) > 0 then
        (True, c\<lparr>cs_username := butlast (cs_username c)\<rparr>, csend [BS, CHR '' '', BS] cx)
      else if length (cs_username c) < 20 \<and> is_word_char key then
        (True, c\<lparr>cs_username := cs_username c @ [key]\<rparr>, cx_send [key] cx)
      else (True, c, cx))"

text \<open>\<^verbatim>\<open>char\<close> is signed: bytes above 127 are negative and never a digit.\<close>

definition handle_lobby ::
  "'db sqlite \<Rightarrow> char \<Rightarrow> chat_state \<Rightarrow> 'db tctx \<Rightarrow> bool \<times> chat_state \<times> 'db tctx" where
  "handle_lobby sq key c cx =
     (if key = CHR ''Q'' \<or> key = CHR ''q'' then (False, c, cx)
      else (case chat_rooms_list sq (cx_w cx) of (w, rooms) \<Rightarrow>
              let cx = cx\<lparr>cx_w := w\<rparr>
              in if ord key < 128 \<and> 49 \<le> ord key \<and> ord key < 49 + length rooms
                 then (case enter_room sq (ord key - 49) c cx of (c, cx) \<Rightarrow> (True, c, cx))
                 else (True, c, cx)))"

definition handle_in_room ::
  "'db sqlite \<Rightarrow> char \<Rightarrow> chat_state \<Rightarrow> 'db tctx \<Rightarrow> bool \<times> chat_state \<times> 'db tctx" where
  "handle_in_room sq key c cx =
     (if key = CHR ''Q'' then (case leave_room sq c cx of (c, cx) \<Rightarrow> (False, c, cx))
      else if key = CHR ''q'' then (case leave_room sq c cx of (c, cx) \<Rightarrow> (True, c, cx))
      else if key = CR \<or> key = CHR ''i'' then
        (let c = c\<lparr>cs_st := CHAT_ST_COMPOSE, cs_compose := []\<rparr> in (True, c, render_compose c cx))
      else if key = CHR ''p'' then
        (let msgs = (case cs_room c of None \<Rightarrow> []
                     | Some room \<Rightarrow> chat_room_before sq (cx_w cx) room (cs_oldest_shown c) CHAT_MSG_LINES CHAT_MSG_LINES)
         in if msgs \<noteq> [] then (case render_room sq (c\<lparr>cs_at_live := False\<rparr>) cx of (c, cx) \<Rightarrow> (True, c, cx))
            else (True, c, cx))
      else if key = CHR ''n'' then
        (case render_room sq (c\<lparr>cs_at_live := True\<rparr>) cx of (c, cx) \<Rightarrow> (True, c, cx))
      else (True, c, cx))"

definition post_composed :: "'db sqlite \<Rightarrow> chat_state \<Rightarrow> 'db tctx \<Rightarrow> 'db tctx" where
  "post_composed sq c cx =
     (case cs_room c of
        None \<Rightarrow> cx
      | Some room \<Rightarrow>
         on_world (\<lambda>w. chat_room_presence_set sq (fst (chat_room_post sq w room (ts_username (cx_s cx)) (cs_compose c)))
           room (ts_username (cx_s cx))) cx)"

definition handle_compose ::
  "'db sqlite \<Rightarrow> char \<Rightarrow> chat_state \<Rightarrow> 'db tctx \<Rightarrow> bool \<times> chat_state \<times> 'db tctx" where
  "handle_compose sq key c cx =
     (if key = ESC \<or> ord key = 3 then
        (case render_room sq (c\<lparr>cs_st := CHAT_ST_IN_ROOM\<rparr>) cx of (c, cx) \<Rightarrow> (True, c, cx))
      else if key = CR \<or> key = LF then
        (let cx = (if length (cs_compose c) > 0 then post_composed sq c cx else cx);
             c = c\<lparr>cs_st := CHAT_ST_IN_ROOM, cs_compose := [], cs_at_live := True\<rparr>
         in case render_room sq c cx of (c, cx) \<Rightarrow> (True, c, cx))
      else if (key = DEL \<or> key = BS) \<and> length (cs_compose c) > 0 then
        (let c = c\<lparr>cs_compose := butlast (cs_compose c)\<rparr> in (True, c, render_compose c cx))
      else if length (cs_compose c) < 511 \<and> 32 \<le> ord key \<and> ord key \<le> 126 then
        (let c = c\<lparr>cs_compose := cs_compose c @ [key]\<rparr> in (True, c, render_compose c cx))
      else (True, c, cx))"

definition chat_state_zero :: chat_state where
  "chat_state_zero = \<lparr>cs_room = None, cs_st = CHAT_ST_USERNAME, cs_compose = [], cs_username = [],
     cs_oldest_shown = 0, cs_at_live = False\<rparr>"

definition chat_create :: "'db sqlite \<Rightarrow> 'db tctx \<Rightarrow> chat_state option \<times> 'db tctx" where
  "chat_create sq cx =
     (let cx = on_world (chat_service_init sq) cx
      in if \<not> cx_mem cx then (None, cx)
         else if ts_username (cx_s cx) \<noteq> []
         then (Some (chat_state_zero\<lparr>cs_st := CHAT_ST_LOBBY\<rparr>), render_lobby sq cx)
         else (Some chat_state_zero, render_username chat_state_zero cx))"

definition chat_handle_key ::
  "'db sqlite \<Rightarrow> char \<Rightarrow> chat_state \<Rightarrow> 'db tctx \<Rightarrow> bool \<times> chat_state \<times> 'db tctx" where
  "chat_handle_key sq key c cx =
     (case cs_st c of
        CHAT_ST_USERNAME \<Rightarrow> handle_username sq key c cx
      | CHAT_ST_LOBBY \<Rightarrow> handle_lobby sq key c cx
      | CHAT_ST_IN_ROOM \<Rightarrow> handle_in_room sq key c cx
      | CHAT_ST_COMPOSE \<Rightarrow> handle_compose sq key c cx)"

definition chat_destroy :: "'db sqlite \<Rightarrow> chat_state \<Rightarrow> 'db tctx \<Rightarrow> 'db tctx" where
  "chat_destroy sq c cx =
     on_session (\<lambda>s. s\<lparr>ts_on_notify := None\<rparr>) (release_room sq c cx)"

section \<open>Screens only write to the client\<close>

definition only_output :: "'db tctx \<Rightarrow> 'db tctx \<Rightarrow> bool" where
  "only_output cx cx' \<longleftrightarrow> (\<exists>sk b. cx' = cx\<lparr>cx_s := (cx_s cx)\<lparr>ts_sock := sk, ts_send_buf := b\<rparr>\<rparr>)"

lemma only_outputI: "only_output cx (cx\<lparr>cx_s := (cx_s cx)\<lparr>ts_sock := sk, ts_send_buf := b\<rparr>\<rparr>)"
  unfolding only_output_def by blast

lemma only_output_refl [simp, intro]: "only_output cx cx"
  unfolding only_output_def
  by (intro exI [of _ "ts_sock (cx_s cx)"] exI [of _ "ts_send_buf (cx_s cx)"]) simp

lemma only_output_trans [trans]: "only_output a b \<Longrightarrow> only_output b c \<Longrightarrow> only_output a c"
  using only_outputI [of a] by (auto simp: only_output_def)

lemma only_outputD:
  assumes "only_output cx cx'"
  shows "cx_w cx' = cx_w cx" "cx_online cx' = cx_online cx" "cx_tm cx' = cx_tm cx"
    "cx_mem cx' = cx_mem cx" "cx_overread cx' = cx_overread cx"
    "ts_fsm (cx_s cx') = ts_fsm (cx_s cx)" "ts_iac (cx_s cx') = ts_iac (cx_s cx)"
    "ts_main_menu (cx_s cx') = ts_main_menu (cx_s cx)"
    "ts_active_game (cx_s cx') = ts_active_game (cx_s cx)"
    "ts_game_state (cx_s cx') = ts_game_state (cx_s cx)"
    "ts_term_rows (cx_s cx') = ts_term_rows (cx_s cx)" "ts_term_cols (cx_s cx') = ts_term_cols (cx_s cx)"
    "ts_nego_pending (cx_s cx') = ts_nego_pending (cx_s cx)"
    "ts_pending_selection (cx_s cx') = ts_pending_selection (cx_s cx)"
    "ts_game_over_pending (cx_s cx') = ts_game_over_pending (cx_s cx)"
    "ts_quit_pending (cx_s cx') = ts_quit_pending (cx_s cx)"
    "ts_shutdown_requested (cx_s cx') = ts_shutdown_requested (cx_s cx)"
    "ts_username (cx_s cx') = ts_username (cx_s cx)"
    "ts_notify_rfd (cx_s cx') = ts_notify_rfd (cx_s cx)"
    "ts_notify_wfd (cx_s cx') = ts_notify_wfd (cx_s cx)"
    "ts_on_notify (cx_s cx') = ts_on_notify (cx_s cx)"
  using assms by (auto simp: only_output_def)

lemma only_output_send [simp, intro]: "only_output cx (cx_send str cx)"
  using send_only_out [of "cx_s cx" str] only_outputI [of cx] by (auto simp: cx_send_def)

lemma only_output_csend [simp, intro]: "only_output cx (csend str cx)"
  by (simp add: csend_def)

lemma only_output_sendf: "length str < sz \<Longrightarrow> only_output cx (cx_sendf sz str cx)"
  by (simp add: cx_sendf_fits)

lemma only_output_csendf: "length str < 1024 \<Longrightarrow> only_output cx (csendf str cx)"
  by (simp add: csendf_def cx_sendf_fits)

lemma only_output_fold:
  assumes "\<And>x y. x \<in> set xs \<Longrightarrow> only_output cx y \<Longrightarrow> only_output y (f x y)"
  shows "only_output cx (fold f xs cx)"
proof -
  have "only_output cx y \<Longrightarrow> only_output cx (fold f xs y)" for y
    using assms
  proof (induction xs arbitrary: y)
    case (Cons x xs)
    from Cons.prems have "only_output cx (f x y)" by (meson list.set_intros(1) only_output_trans)
    with Cons show ?case by simp
  qed simp
  then show ?thesis by simp
qed

section \<open>Lengths of the formatted texts\<close>

lemma length_two_digits [simp]: "length (two_digits n) = 2"
  by (simp add: two_digits_def)

lemma length_hhmm [simp]: "length (hhmm t) = 5"
  by (simp add: hhmm_def)

lemma length_show_row [ns_len]: "length (show_nat (unat (r :: 16 word) - k)) \<le> 5"
proof -
  have "unat r < 2 ^ 16" using unsigned_less [of r] by simp
  then have "unat r - k < 10 ^ Suc 4" by simp
  from length_show_nat [OF this] show ?thesis by simp
qed

lemma length_show_small [ns_len]: "n < 100000 \<Longrightarrow> length (show_nat n) \<le> 5"
  using length_show_nat [of n 4] by simp

lemma length_join_who: "length wl < 256 \<Longrightarrow> length (join_who wl sep us) < 256"
  by (induction wl sep us rule: join_who.induct) (auto simp: Let_def snprintf_def)

lemma chat_room_before_sizes:
  "m \<in> set (chat_room_before sq w i a n mx) \<Longrightarrow> length (cm_user m) \<le> 31 \<and> length (cm_body m) \<le> 511"
  using str_copy_length [of 32] str_copy_length [of 512]
  by (auto simp: chat_room_before_def chat_db_messages_before_def row_to_msg_def chat_sizes Let_def
        split: option.splits if_splits)

lemma chat_room_users_len: "length (chat_room_users sq w i mx) \<le> mx"
  by (simp add: chat_room_users_def chat_db_active_users_def split: option.split)

lemma send_msg_line_output:
  "m \<in> set (chat_room_before sq w i a n mx) \<Longrightarrow> only_output cx (send_msg_line m cx)"
  using chat_room_before_sizes [of m sq w i a n mx]
  by (auto simp: send_msg_line_def msg_line_def intro!: only_output_sendf)

section \<open>The screens\<close>

lemma room_footer_output: "only_output cx (room_footer r cx)"
proof -
  have row: "length (show_nat (unat r - k)) \<le> 5" for k by (rule length_show_row)
  have "only_output x (csendf (csi (show_nat (unat r - 2)) @ '';1H'' @ csi ''2m  '' @ hline 41 @ csi ''0m'') x)"
    "only_output x (csendf (csi (show_nat (unat r - 1)) @ '';1H  > '') x)"
    "only_output x (csendf (csi (show_nat (unat r)) @ '';1H''
       @ csi ''2m  [Enter]schrijf  [p]ouder  [n]nieuwer  [q]verlaat  [Q]quit'' @ csi ''0m'') x)"
    for x :: "'a tctx"
    using row [of 2] row [of 1] row [of 0] by (auto intro!: only_output_csendf)
  then show ?thesis unfolding room_footer_def Let_def by (meson only_output_trans)
qed

lemma render_compose_output:
  "length (cs_compose c) \<le> 511 \<Longrightarrow> only_output cx (render_compose c cx)"
  using length_show_row [of "term_rows cx" 1]
  by (auto simp: render_compose_def intro!: only_output_csendf)

lemma render_username_output: "only_output cx (render_username c cx)"
  by (auto simp: render_username_def Let_def intro: only_output_trans)

lemma lobby_row_output:
  assumes "world_ok (cx_w cx)" "i < length (w_rooms (cx_w cx))"
  shows "only_output cx (lobby_row sq i cx)"
proof -
  have "i < 8" using assms by (simp add: world_ok_def CHAT_MAX_ROOMS_def)
  then have "length (show_nat (i + 1)) \<le> 5" by (intro length_show_small) simp
  moreover have "length (show_nat (length (chat_room_users sq (cx_w cx) i CHAT_MAX_WHO))) \<le> 5"
    using chat_room_users_len [of sq "cx_w cx" i CHAT_MAX_WHO]
    by (intro length_show_small) (simp add: CHAT_MAX_WHO_def)
  ultimately show ?thesis
    using world_ok_name [OF assms]
    by (auto simp: lobby_row_def length_pad_right intro!: only_output_csendf)
qed

lemma render_lobby_output:
  assumes "world_ok (cx_w cx)"
  shows "only_output cx (render_lobby sq cx)"
proof -
  have "only_output x (fold (lobby_row sq) [0..<length (w_rooms (cx_w cx))] x)" if "only_output cx x" for x
    using assms that by (intro only_output_fold lobby_row_output) (auto simp: only_outputD)
  then have "only_output cx (fold (lobby_row sq) [0..<length (w_rooms (cx_w cx))] (csend str cx))" for str
    by (meson only_output_csend only_output_trans)
  moreover have "cx\<lparr>cx_w := cx_w cx\<rparr> = cx" by simp
  ultimately show ?thesis
    using assms unfolding render_lobby_def chat_rooms_list_def Let_def
    by (simp only: world_ok_init prod.case) (meson only_output_csend only_output_trans)
qed

lemma room_header_output:
  assumes "world_ok (cx_w cx)" "i < length (w_rooms (cx_w cx))"
  shows "only_output cx (room_header sq i cx)"
proof -
  have "length (show_nat (length (chat_room_users sq (cx_w cx) i CHAT_MAX_WHO))) \<le> 5"
    using chat_room_users_len [of sq "cx_w cx" i CHAT_MAX_WHO]
    by (intro length_show_small) (simp add: CHAT_MAX_WHO_def)
  moreover have "length (join_who [] False (chat_room_users sq (cx_w cx) i CHAT_MAX_WHO)) < 256"
    by (rule length_join_who) simp
  ultimately show ?thesis
    unfolding room_header_def Let_def
    using world_ok_name [OF assms] by (intro only_output_csendf) simp
qed

lemma render_room_output:
  assumes ok: "world_ok (cx_w cx)" and room: "cs_room c = Some i" "i < length (w_rooms (cx_w cx))"
    and r: "render_room sq c cx = (c', cx')"
  shows "only_output cx cx' \<and> (\<exists>x. c' = c\<lparr>cs_oldest_shown := x\<rparr>)"
proof -
  have "only_output cx (room_header sq i cx)" using ok room(2) by (rule room_header_output)
  moreover have "only_output x (fold send_msg_line (chat_room_before sq (cx_w cx) i a n mx) x)" for x a n mx
    by (intro only_output_fold send_msg_line_output)
  ultimately have "only_output cx (snd (render_room_at sq i c cx))"
    unfolding render_room_at_def Let_def snd_conv by (meson only_output_trans room_footer_output)
  moreover have "\<exists>x. c = c\<lparr>cs_oldest_shown := x\<rparr>" by (rule exI [of _ "cs_oldest_shown c"]) simp
  then have "\<exists>x. fst (render_room_at sq i c cx) = c\<lparr>cs_oldest_shown := x\<rparr>"
    by (auto simp: render_room_at_def Let_def)
  ultimately show ?thesis using r room(1) by (simp add: render_room_def)
qed

section \<open>The invariant of a visit to the chat\<close>

definition name_ok :: "string \<Rightarrow> bool" where
  "name_ok u \<longleftrightarrow> length u \<le> 20 \<and> list_all is_word_char u"

definition in_room :: "chat_st \<Rightarrow> bool" where
  "in_room st \<longleftrightarrow> st = CHAT_ST_IN_ROOM \<or> st = CHAT_ST_COMPOSE"

definition chat_inv :: "chat_state \<Rightarrow> 'db tctx \<Rightarrow> bool" where
  "chat_inv c cx \<longleftrightarrow> world_ok (cx_w cx) \<and> \<not> cx_overread cx
     \<and> name_ok (cs_username c) \<and> name_ok (ts_username (cx_s cx))
     \<and> (cs_st c \<noteq> CHAT_ST_USERNAME \<longrightarrow> ts_username (cx_s cx) \<noteq> [])
     \<and> length (cs_compose c) \<le> 511 \<and> list_all is_printable (cs_compose c)
     \<and> (in_room (cs_st c) \<longleftrightarrow> cs_room c \<noteq> None)
     \<and> (\<forall>i. cs_room c = Some i \<longrightarrow> i < length (w_rooms (cx_w cx)))
     \<and> ts_on_notify (cx_s cx) = (if cs_room c = None then None else Some Chat_on_notify)
     \<and> sub_only (ts_notify_wfd (cx_s cx)) (cs_room c) (cx_w cx)"

lemma chat_inv_output:
  "chat_inv c cx \<Longrightarrow> only_output cx cx' \<Longrightarrow> chat_inv c cx'"
  by (simp add: chat_inv_def only_outputD)

lemma chat_inv_oldest: "chat_inv (c\<lparr>cs_oldest_shown := x\<rparr>) cx = chat_inv c cx"
  "chat_inv (c\<lparr>cs_at_live := b\<rparr>) cx = chat_inv c cx"
  by (simp_all add: chat_inv_def)

lemma chat_inv_render_room:
  assumes "chat_inv c cx" "render_room sq c cx = (c', cx')"
  shows "chat_inv c' cx' \<and> cs_st c' = cs_st c \<and> cs_room c' = cs_room c \<and> only_output cx cx'"
proof (cases "cs_room c")
  case None
  with assms show ?thesis by (simp add: render_room_def)
next
  case (Some i)
  with assms have "world_ok (cx_w cx)" "i < length (w_rooms (cx_w cx))" by (simp_all add: chat_inv_def)
  from render_room_output [OF this(1) Some this(2) assms(2)] assms(1) show ?thesis
    by (auto simp: chat_inv_oldest intro: chat_inv_output)
qed

section \<open>Each entry point keeps the invariant\<close>

lemma enter_room_inv:
  assumes "chat_inv c cx" "cs_st c = CHAT_ST_LOBBY" "i < length (w_rooms (cx_w cx))"
    and "enter_room sq i c cx = (c', cx')"
  shows "chat_inv c' cx'"
proof -
  let ?c = "c\<lparr>cs_room := Some i, cs_oldest_shown := 0, cs_at_live := True, cs_st := CHAT_ST_IN_ROOM\<rparr>"
  define cx0 where "cx0 = on_session (\<lambda>s. s\<lparr>ts_on_notify := Some Chat_on_notify\<rparr>)
    (on_world (\<lambda>w. chat_room_presence_set sq w i (ts_username (cx_s cx))) cx)"
  define cx1 where "cx1 = (if ts_notify_wfd (cx_s cx0) \<ge> 0
    then on_world (\<lambda>w. chat_room_subscribe w i (ts_notify_wfd (cx_s cx0))) cx0 else cx0)"
  have "cs_room c = None" using assms(1,2) by (auto simp: chat_inv_def in_room_def)
  then have "chat_inv ?c cx1"
    using assms(1-3)
    by (auto simp: chat_inv_def cx1_def cx0_def on_world_def on_session_def in_room_def
          intro: sub_only_weaken sub_only_subscribe)
  moreover have "render_room sq ?c cx1 = (c', cx')"
    using assms(4) unfolding enter_room_def Let_def cx1_def cx0_def by assumption
  ultimately show ?thesis using chat_inv_render_room by blast
qed

lemma release_room_facts:
  assumes "chat_inv c cx" and cx': "cx' = release_room sq c cx"
  shows "world_ok (cx_w cx') \<and> sub_only (ts_notify_wfd (cx_s cx)) None (cx_w cx')
    \<and> cx_s cx' = cx_s cx \<and> cx_overread cx' = cx_overread cx \<and> cx_mem cx' = cx_mem cx
    \<and> length (w_rooms (cx_w cx')) = length (w_rooms (cx_w cx))"
proof (cases "cs_room c")
  case None
  with assms show ?thesis by (simp add: release_room_def chat_inv_def)
next
  case (Some i)
  with assms show ?thesis
    by (auto simp: release_room_def chat_inv_def on_world_def intro: sub_only_unsubscribe)
qed

lemma leave_room_inv:
  assumes "chat_inv c cx" "in_room (cs_st c)" "leave_room sq c cx = (c', cx')"
  shows "chat_inv c' cx' \<and> cs_room c' = None"
proof -
  let ?cx = "on_session (\<lambda>s. s\<lparr>ts_on_notify := None\<rparr>) (release_room sq c cx)"
  let ?c = "c\<lparr>cs_room := None, cs_st := CHAT_ST_LOBBY\<rparr>"
  have "chat_inv ?c ?cx"
    using release_room_facts [OF assms(1) refl, of sq] assms(1,2)
    by (auto simp: chat_inv_def on_session_def in_room_def)
  moreover from this have "only_output ?cx (render_lobby sq ?cx)"
    by (intro render_lobby_output) (simp add: chat_inv_def)
  ultimately show ?thesis
    using assms(3) by (auto simp: leave_room_def Let_def intro: chat_inv_output)
qed

lemma name_ok_snoc: "name_ok u \<Longrightarrow> length u < 20 \<Longrightarrow> is_word_char k \<Longrightarrow> name_ok (u @ [k])"
  by (simp add: name_ok_def)

lemma name_ok_butlast: "name_ok u \<Longrightarrow> name_ok (butlast u)"
  by (auto simp: name_ok_def list_all_iff dest: in_set_butlastD)

lemma name_ok_copy: "name_ok u \<Longrightarrow> str_copy 32 u = u"
  by (auto simp: name_ok_def list_all_iff intro!: str_copy_fits nul_free_printable word_char_printable)

lemma handle_username_inv:
  assumes "chat_inv c cx" "cs_st c = CHAT_ST_USERNAME" "handle_username sq key c cx = (run, c', cx')"
  shows "chat_inv c' cx'"
proof -
  have nr: "cs_room c = None" using assms(1,2) by (auto simp: chat_inv_def in_room_def)
  show ?thesis
  proof (cases "(key = CR \<or> key = LF) \<and> cs_username c \<noteq> []")
    case True
    let ?cx = "on_session (\<lambda>s. s\<lparr>ts_username := cs_username c\<rparr>) cx"
    have "chat_inv (c\<lparr>cs_st := CHAT_ST_LOBBY\<rparr>) ?cx"
      using assms(1) nr True by (simp add: chat_inv_def on_session_def in_room_def)
    moreover from this have "only_output ?cx (render_lobby sq ?cx)"
      by (intro render_lobby_output) (simp add: chat_inv_def)
    moreover have "str_copy 32 (cs_username c) = cs_username c"
      using assms(1) by (simp add: chat_inv_def name_ok_copy)
    ultimately show ?thesis
      using assms(3) True by (auto simp: handle_username_def Let_def intro: chat_inv_output)
  next
    case False
    have upd: "chat_inv (c\<lparr>cs_username := u\<rparr>) x" if "name_ok u" "only_output cx x" for u x
      using assms(1) that by (simp add: chat_inv_def only_outputD)
    have "name_ok (cs_username c)" using assms(1) by (simp add: chat_inv_def)
    with False assms show ?thesis
      by (auto simp: handle_username_def Let_def split: if_splits
            intro!: upd name_ok_snoc name_ok_butlast)
  qed
qed

lemma handle_lobby_inv:
  assumes "chat_inv c cx" "cs_st c = CHAT_ST_LOBBY" "handle_lobby sq key c cx = (run, c', cx')"
  shows "chat_inv c' cx'"
proof -
  have "chat_rooms_list sq (cx_w cx) = (cx_w cx, w_rooms (cx_w cx))" "cx\<lparr>cx_w := cx_w cx\<rparr> = cx"
    using assms(1) by (simp_all add: chat_rooms_list_def chat_inv_def Let_def)
  moreover have "chat_inv c1 x1" if "enter_room sq (ord key - 49) c cx = (c1, x1)" "49 \<le> ord key"
      "ord key < 49 + length (w_rooms (cx_w cx))" for c1 x1
  proof (rule enter_room_inv [OF assms(1,2) _ that(1)])
    show "ord key - 49 < length (w_rooms (cx_w cx))" using that(2,3) by arith
  qed
  ultimately show ?thesis
    using assms by (auto simp: handle_lobby_def Let_def split: if_splits prod.splits)
qed

lemma handle_in_room_inv:
  assumes "chat_inv c cx" "cs_st c = CHAT_ST_IN_ROOM" "handle_in_room sq key c cx = (run, c', cx')"
  shows "chat_inv c' cx'"
proof -
  let ?c = "c\<lparr>cs_st := CHAT_ST_COMPOSE, cs_compose := []\<rparr>"
  have "chat_inv ?c cx" using assms(1,2) by (auto simp: chat_inv_def in_room_def)
  moreover have "only_output cx (render_compose ?c cx)" by (rule render_compose_output) simp
  ultimately have comp: "chat_inv ?c (render_compose ?c cx)" by (rule chat_inv_output)
  have ren: "chat_inv c1 x1" if "render_room sq (c\<lparr>cs_at_live := b\<rparr>) cx = (c1, x1)" for b c1 x1
    using chat_inv_render_room [OF _ that] assms(1) by (simp add: chat_inv_oldest)
  have "in_room (cs_st c)" using assms(2) by (simp add: in_room_def)
  from leave_room_inv [OF assms(1) this] comp ren assms(1,3) show ?thesis
    by (auto simp: handle_in_room_def Let_def split: if_splits prod.splits)
qed

lemma post_composed_inv: "chat_inv c cx \<Longrightarrow> chat_inv c (post_composed sq c cx)"
  by (auto simp: post_composed_def chat_inv_def on_world_def split: option.split)

lemma handle_compose_inv:
  assumes "chat_inv c cx" "cs_st c = CHAT_ST_COMPOSE" "handle_compose sq key c cx = (run, c', cx')"
  shows "chat_inv c' cx'"
proof -
  have ren: "chat_inv c1 x1"
    if "render_room sq (c\<lparr>cs_st := CHAT_ST_IN_ROOM, cs_compose := b, cs_at_live := l\<rparr>) x = (c1, x1)"
      "chat_inv c x" "length b \<le> 511" "list_all is_printable b" for b l c1 x x1
  proof -
    have "chat_inv (c\<lparr>cs_st := CHAT_ST_IN_ROOM, cs_compose := b, cs_at_live := l\<rparr>) x"
      using that(2-4) assms(2) by (simp add: chat_inv_def in_room_def)
    from chat_inv_render_room [OF this that(1)] show ?thesis by blast
  qed
  have esc: "chat_inv c1 x1" if "render_room sq (c\<lparr>cs_st := CHAT_ST_IN_ROOM\<rparr>) cx = (c1, x1)" for c1 x1
  proof -
    have "chat_inv (c\<lparr>cs_st := CHAT_ST_IN_ROOM\<rparr>) cx"
      using assms(1,2) by (simp add: chat_inv_def in_room_def)
    from chat_inv_render_room [OF this that] show ?thesis by blast
  qed
  have edit: "chat_inv (c\<lparr>cs_compose := b\<rparr>) (render_compose (c\<lparr>cs_compose := b\<rparr>) cx)"
    if "length b \<le> 511" "list_all is_printable b" for b
    using assms(1) that render_compose_output [of "c\<lparr>cs_compose := b\<rparr>" cx]
    by (auto simp: chat_inv_def only_outputD)
  have "length (cs_compose c) \<le> 511" "list_all is_printable (cs_compose c)"
    "list_all is_printable (butlast (cs_compose c))"
    using assms(1) by (auto simp: chat_inv_def list_all_iff dest: in_set_butlastD)
  with assms ren [where b = "[]"] esc edit post_composed_inv [OF assms(1), of sq] show ?thesis
    by (auto simp: handle_compose_def Let_def is_printable_def split: if_splits prod.splits)
qed

lemma chat_handle_key_inv:
  assumes "chat_inv c cx" "chat_handle_key sq key c cx = (run, c', cx')"
  shows "chat_inv c' cx'"
proof (cases "cs_st c")
  case CHAT_ST_USERNAME
  with assms show ?thesis by (auto simp: chat_handle_key_def intro: handle_username_inv)
next
  case CHAT_ST_LOBBY
  with assms show ?thesis by (auto simp: chat_handle_key_def intro: handle_lobby_inv)
next
  case CHAT_ST_IN_ROOM
  with assms show ?thesis by (auto simp: chat_handle_key_def intro: handle_in_room_inv)
next
  case CHAT_ST_COMPOSE
  with assms show ?thesis by (auto simp: chat_handle_key_def intro: handle_compose_inv)
qed

section \<open>The contract of a feature\<close>

text \<open>A session at the menu: no handler installed, the descriptor in no subscriber list.\<close>

definition menu_ok :: "'db tctx \<Rightarrow> bool" where
  "menu_ok cx \<longleftrightarrow> world_pre (cx_w cx) \<and> \<not> cx_overread cx \<and> name_ok (ts_username (cx_s cx))
     \<and> ts_on_notify (cx_s cx) = None \<and> sub_only (ts_notify_wfd (cx_s cx)) None (cx_w cx)"

text \<open>The part of the context no feature may touch.\<close>

definition ctl :: "'db tctx \<Rightarrow>
  (telnet_state \<times> iac_parser \<times> game menu \<times> game option \<times> game_state option \<times> 8 word) \<times>
  (int \<times> bool \<times> bool \<times> bool) \<times> (fd \<times> fd) \<times> (32 word \<times> tm \<times> bool)" where
  "ctl cx = (let s = cx_s cx in
     ((ts_fsm s, ts_iac s, ts_main_menu s, ts_active_game s, ts_game_state s, ts_nego_pending s),
      (ts_pending_selection s, ts_game_over_pending s, ts_quit_pending s, ts_shutdown_requested s),
      (ts_notify_rfd s, ts_notify_wfd s), (cx_online cx, cx_tm cx, cx_mem cx)))"

fun run_keys ::
  "(char \<Rightarrow> 's \<Rightarrow> 'c \<Rightarrow> bool \<times> 's \<times> 'c) \<Rightarrow> string \<Rightarrow> 's \<Rightarrow> 'c \<Rightarrow> bool \<times> 's \<times> 'c" where
  "run_keys h [] st cx = (True, st, cx)"
| "run_keys h (k # ks) st cx =
     (case h k st cx of (run, st', cx') \<Rightarrow> if run then run_keys h ks st' cx' else (False, st', cx'))"

locale feature =
  fixes create :: "'db tctx \<Rightarrow> 's option \<times> 'db tctx"
    and handle_key :: "char \<Rightarrow> 's \<Rightarrow> 'db tctx \<Rightarrow> bool \<times> 's \<times> 'db tctx"
    and destroy :: "'s \<Rightarrow> 'db tctx \<Rightarrow> 'db tctx"
    and finv :: "'s \<Rightarrow> 'db tctx \<Rightarrow> bool"
  assumes create_inv: "menu_ok cx \<Longrightarrow> create cx = (Some st, cx') \<Longrightarrow> finv st cx'"
    and create_failed: "menu_ok cx \<Longrightarrow> create cx = (None, cx') \<Longrightarrow> menu_ok cx'"
    and key_inv: "finv st cx \<Longrightarrow> handle_key k st cx = (run, st', cx') \<Longrightarrow> finv st' cx'"
    and destroy_inv: "finv st cx \<Longrightarrow> menu_ok (destroy st cx)"
    and create_ctl: "create cx = (r, cx') \<Longrightarrow> ctl cx' = ctl cx"
    and key_ctl: "handle_key k st cx = (run, st', cx') \<Longrightarrow> ctl cx' = ctl cx"
    and destroy_ctl: "ctl (destroy st cx) = ctl cx"
begin

lemma keys_inv: "finv st cx \<Longrightarrow> run_keys handle_key ks st cx = (run, st', cx') \<Longrightarrow> finv st' cx'"
proof (induction ks arbitrary: st cx)
  case (Cons k ks)
  then show ?case by (auto split: prod.splits if_splits dest: key_inv)
qed simp

lemma keys_ctl: "run_keys handle_key ks st cx = (run, st', cx') \<Longrightarrow> ctl cx' = ctl cx"
proof (induction ks arbitrary: st cx)
  case (Cons k ks)
  then show ?case by (auto split: prod.splits if_splits dest: key_ctl)
qed simp

lemma visit:
  assumes "menu_ok cx" "create cx = (Some st, cx1)" "run_keys handle_key ks st cx1 = (run, st', cx2)"
  shows "menu_ok (destroy st' cx2) \<and> ctl (destroy st' cx2) = ctl cx"
  using assms create_inv keys_inv destroy_inv create_ctl keys_ctl destroy_ctl by metis

end

lemma ctl_simps [simp]:
  "ctl (cx_send str cx) = ctl cx" "ctl (csend str cx) = ctl cx"
  "ctl (on_world f cx) = ctl cx" "ctl (cx\<lparr>cx_w := w\<rparr>) = ctl cx"
  "ctl (on_session (\<lambda>s. s\<lparr>ts_on_notify := n\<rparr>) cx) = ctl cx"
  "ctl (on_session (\<lambda>s. s\<lparr>ts_username := u\<rparr>) cx) = ctl cx"
  by (simp_all add: ctl_def csend_def on_world_def on_session_def Let_def)

lemma ctl_sendf [simp]: "ctl (cx_sendf sz str cx) = ctl cx" "ctl (csendf str cx) = ctl cx"
  by (simp_all add: ctl_def csendf_def Let_def)

lemma ctl_fold: "(\<And>x y. ctl (f x y) = ctl y) \<Longrightarrow> ctl (fold f xs cx) = ctl cx"
  by (induction xs arbitrary: cx) simp_all

lemma ctl_rows [simp]:
  "ctl (fold (lobby_row sq) is cx) = ctl cx" "ctl (fold send_msg_line ms cx) = ctl cx"
  by (simp_all add: ctl_fold lobby_row_def send_msg_line_def)

lemma ctl_screens [simp]:
  "ctl (render_lobby sq cx) = ctl cx" "ctl (render_username c cx) = ctl cx"
  "ctl (render_compose c cx) = ctl cx" "ctl (room_footer r cx) = ctl cx"
  "ctl (release_room sq c cx) = ctl cx" "ctl (room_header sq i cx) = ctl cx"
  by (simp_all add: room_header_def render_lobby_def render_username_def render_compose_def room_footer_def
        release_room_def Let_def split: option.split prod.split)

lemma ctl_render_room [simp]: "ctl (snd (render_room sq c cx)) = ctl cx"
  by (simp add: render_room_def render_room_at_def Let_def split: option.split)

lemma ctl_render_roomD: "render_room sq c cx = (c', cx') \<Longrightarrow> ctl cx' = ctl cx"
  using ctl_render_room [of sq c cx] by simp

lemma ctl_enter_room: "enter_room sq i c cx = (c', cx') \<Longrightarrow> ctl cx' = ctl cx"
  unfolding enter_room_def Let_def by (drule ctl_render_roomD) simp

lemma ctl_leave_room: "leave_room sq c cx = (c', cx') \<Longrightarrow> ctl cx' = ctl cx"
  by (auto simp: leave_room_def Let_def)

lemma ctl_chat_handle_key:
  assumes "chat_handle_key sq key c cx = (run, c', cx')"
  shows "ctl cx' = ctl cx"
proof -
  have "ctl (post_composed sq c cx) = ctl cx" by (simp add: post_composed_def split: option.split)
  with assms show ?thesis
    by (auto simp: chat_handle_key_def handle_username_def handle_lobby_def handle_in_room_def
          handle_compose_def Let_def split: chat_st.splits if_splits prod.splits
          dest!: ctl_render_roomD ctl_enter_room ctl_leave_room)
qed

lemma chat_create_inv:
  assumes "menu_ok cx" "chat_create sq cx = (r, cx')"
  shows "(case r of None \<Rightarrow> menu_ok cx' | Some c \<Rightarrow> chat_inv c cx')"
proof -
  define cx0 where "cx0 = on_world (chat_service_init sq) cx"
  have ok: "world_ok (cx_w cx0)" "sub_only (ts_notify_wfd (cx_s cx)) None (cx_w cx0)"
    using assms(1) by (simp_all add: cx0_def on_world_def menu_ok_def world_pre_init sub_only_init)
  have same: "cx_s cx0 = cx_s cx" "cx_overread cx0 = cx_overread cx" "cx_mem cx0 = cx_mem cx"
    by (simp_all add: cx0_def on_world_def)
  have "chat_inv (chat_state_zero\<lparr>cs_st := CHAT_ST_LOBBY\<rparr>) cx0" if "ts_username (cx_s cx) \<noteq> []"
    using ok same assms(1) that by (simp add: chat_inv_def menu_ok_def chat_state_zero_def in_room_def name_ok_def)
  moreover have "chat_inv chat_state_zero cx0"
    using ok same assms(1) by (simp add: chat_inv_def menu_ok_def chat_state_zero_def in_room_def name_ok_def)
  moreover have "menu_ok cx0"
    using ok same assms(1) by (simp add: menu_ok_def world_ok_def world_pre_def)
  ultimately show ?thesis
    using assms(2) same render_lobby_output [OF ok(1), of sq] render_username_output [of cx0 chat_state_zero]
    unfolding chat_create_def cx0_def [symmetric] Let_def
    by (auto split: if_splits intro: chat_inv_output)
qed

lemma chat_destroy_inv: "chat_inv c cx \<Longrightarrow> menu_ok (chat_destroy sq c cx)"
  using release_room_facts [of c cx "release_room sq c cx" sq]
  by (auto simp: chat_destroy_def on_session_def menu_ok_def chat_inv_def world_pre_def world_ok_def)

interpretation chat: feature "chat_create sq" "chat_handle_key sq" "chat_destroy sq" chat_inv for sq
proof (unfold_locales, goal_cases)
  case (1 cx st cx')
  with chat_create_inv show ?case by fastforce
next
  case (2 cx cx')
  with chat_create_inv show ?case by fastforce
next
  case (3 st cx k run st' cx')
  then show ?case by (rule chat_handle_key_inv)
next
  case (4 st cx)
  then show ?case by (rule chat_destroy_inv)
next
  case (5 cx r cx')
  then show ?case by (auto simp: chat_create_def Let_def split: if_splits)
next
  case (6 k st cx run st' cx')
  then show ?case by (rule ctl_chat_handle_key)
next
  case (7 st cx)
  show ?case by (simp add: chat_destroy_def)
qed

section \<open>Typing and posting\<close>

lemma printable_not_control:
  "is_printable k \<Longrightarrow> k \<noteq> ESC \<and> ord k \<noteq> 3 \<and> k \<noteq> CR \<and> k \<noteq> LF \<and> k \<noteq> DEL \<and> k \<noteq> BS"
  by (auto simp: is_printable_def)

lemma type_line:
  assumes "cs_st c = CHAT_ST_COMPOSE" "list_all is_printable str" "length (cs_compose c) + length str \<le> 511"
  shows "\<exists>cx'. run_keys (chat_handle_key sq) (str @ ks) c cx =
      run_keys (chat_handle_key sq) ks (c\<lparr>cs_compose := cs_compose c @ str\<rparr>) cx' \<and> only_output cx cx'"
  using assms
proof (induction str arbitrary: c cx)
  case (Cons k str)
  let ?c = "c\<lparr>cs_compose := cs_compose c @ [k]\<rparr>"
  have "chat_handle_key sq k c cx = (True, ?c, render_compose ?c cx)"
    using Cons.prems printable_not_control [of k]
    by (simp add: chat_handle_key_def handle_compose_def Let_def is_printable_def)
  moreover have "only_output cx (render_compose ?c cx)"
    using Cons.prems by (intro render_compose_output) simp
  moreover obtain cx' where "run_keys (chat_handle_key sq) (str @ ks) ?c (render_compose ?c cx) =
      run_keys (chat_handle_key sq) ks (c\<lparr>cs_compose := cs_compose c @ k # str\<rparr>) cx'"
      "only_output (render_compose ?c cx) cx'"
    using Cons.IH [of ?c "render_compose ?c cx"] Cons.prems by auto
  ultimately show ?case by (auto intro: only_output_trans)
qed auto

lemma sanitize_name_ok: "name_ok u \<Longrightarrow> sanitize_user u CHAT_USER_MAX = u"
  by (auto simp: name_ok_def list_all_iff chat_sizes intro!: sanitize_user_id)

text \<open>C23: Typing a line of printable characters in compose mode and pressing Enter posts exactly
  that line under the user's name: unless the storage refuses the row, the room's log
  grows by one message with that body, and the user is back in the live view of the room
  with an empty input line.\<close>

theorem typed_line_is_posted:
  assumes "sqlite_chat sq tables" and "db_wf tables (w_db (cx_w cx))"
    and "chat_inv c cx" "cs_st c = CHAT_ST_COMPOSE" "cs_compose c = []" "cs_room c = Some i"
    and "list_all is_printable line" "line \<noteq> []" "length line \<le> 511"
    and "run_keys (chat_handle_key sq) (line @ [CR]) c cx = (run, c', cx')"
  shows "run \<and> cs_st c' = CHAT_ST_IN_ROOM \<and> cs_room c' = Some i \<and> cs_compose c' = [] \<and> cs_at_live c'
    \<and> (let r = r_id (room_at (cx_w cx) i); user = ts_username (cx_s cx);
           mid = snd (chat_room_post sq (cx_w cx) i user line)
       in wlog tables (cx_w cx') = (if mid < 0 then wlog tables (cx_w cx)
            else (wlog tables (cx_w cx))(r := wlog tables (cx_w cx) r
              @ [\<lparr>cm_id = mid, cm_user = user, cm_ts = w_now (cx_w cx), cm_body = line\<rparr>])))"
proof -
  let ?user = "ts_username (cx_s cx)" and ?c = "c\<lparr>cs_compose := line\<rparr>"
  let ?c1 = "c\<lparr>cs_st := CHAT_ST_IN_ROOM, cs_compose := [], cs_at_live := True\<rparr>"
  obtain w1 mid where post: "chat_room_post sq (cx_w cx) i ?user line = (w1, mid)" by fastforce
  obtain cx1 where typed: "run_keys (chat_handle_key sq) [CR] ?c cx1 = (run, c', cx')" "only_output cx cx1"
    using type_line [of c line sq "[CR]" cx] assms(4,5,7,9,10) by auto
  note same = only_outputD [OF typed(2)]
  let ?cx2 = "post_composed sq ?c cx1"
  have hk: "chat_handle_key sq CR ?c cx1 =
      (case render_room sq ?c1 ?cx2 of (c, cx) \<Rightarrow> (True, c, cx))"
    using assms(4,8) by (simp add: chat_handle_key_def handle_compose_def Let_def)
  then have run: run and ren: "render_room sq ?c1 ?cx2 = (c', cx')"
    using typed(1) by (auto split: prod.splits)
  have w2: "cx_w ?cx2 = chat_room_presence_set sq w1 i ?user"
    using assms(6) post same by (simp add: post_composed_def on_world_def)
  have "chat_inv ?c1 ?cx2"
    using post_composed_inv [OF chat_inv_output [OF assms(3) typed(2)], of sq] assms(4,6)
    by (simp add: chat_inv_def in_room_def post_composed_def on_world_def)
  from chat_inv_render_room [OF this ren] render_room_output [OF _ _ _ ren]
  have "only_output ?cx2 cx'" "cs_st c' = CHAT_ST_IN_ROOM" "cs_room c' = Some i"
    using assms(6) by auto
  moreover have "\<exists>x. c' = ?c1\<lparr>cs_oldest_shown := x\<rparr>"
    using render_room_output [OF _ _ _ ren] \<open>chat_inv ?c1 ?cx2\<close> assms(6) by (simp add: chat_inv_def)
  ultimately have c': "cs_compose c' = []" "cs_at_live c'" "cx_w cx' = cx_w ?cx2"
    by (auto simp: only_outputD)
  have clean: "sanitize_user ?user CHAT_USER_MAX = ?user" "sanitize_text line CHAT_BODY_MAX = line"
    using assms(3,7,9) sanitize_name_ok sanitize_text_id [of line CHAT_BODY_MAX]
    by (auto simp: chat_inv_def list_all_iff chat_sizes)
  have "wlog tables (cx_w cx') = wlog tables w1"
    using c'(3) w2 sqlite_chat.presence_set_log [OF assms(1)]
    by (simp add: chat_room_presence_set_def Let_def)
  with post_store(2,3) [OF assms(1,2) post] clean
  have "wlog tables (cx_w cx') = (if mid < 0 then wlog tables (cx_w cx)
      else (wlog tables (cx_w cx))(r_id (room_at (cx_w cx) i) := wlog tables (cx_w cx) (r_id (room_at (cx_w cx) i))
        @ [\<lparr>cm_id = mid, cm_user = ?user, cm_ts = w_now (cx_w cx), cm_body = line\<rparr>]))"
    by (simp add: posted_def)
  with run c' \<open>cs_st c' = CHAT_ST_IN_ROOM\<close> \<open>cs_room c' = Some i\<close> post show ?thesis
    by (simp add: Let_def)
qed

lemma lobby_join_world:
  assumes "chat_inv c cx" and "cs_st c = CHAT_ST_LOBBY" and "i < length (w_rooms (cx_w cx))"
    and "0 \<le> ts_notify_wfd (cx_s cx)" and "chat_handle_key sq (char_of (49 + i)) c cx = (run, c', cx')"
  shows "run \<and> cs_room c' = Some i
    \<and> cx_w cx' = chat_room_subscribe (chat_room_presence_set sq (cx_w cx) i (ts_username (cx_s cx))) i
        (ts_notify_wfd (cx_s cx))"
proof -
  have ok: "world_ok (cx_w cx)" using assms(1) by (simp add: chat_inv_def)
  then have i8: "i < 8" using assms(3) by (simp add: world_ok_def CHAT_MAX_ROOMS_def)
  then have ord: "ord (char_of (49 + i) :: char) = 49 + i" by simp
  have key: "char_of (49 + i) \<noteq> k" if "ord k > 57" for k :: char
    using ord i8 that by auto
  have "char_of (49 + i) \<noteq> CHR ''Q''" "char_of (49 + i) \<noteq> CHR ''q''" by (rule key, simp)+
  then have en: "enter_room sq i c cx = (c', cx')" and run: run
    using assms(2,3,5) ok ord i8
    by (auto simp: chat_handle_key_def handle_lobby_def chat_rooms_list_def Let_def split: prod.splits)
  let ?c = "c\<lparr>cs_room := Some i, cs_oldest_shown := 0, cs_at_live := True, cs_st := CHAT_ST_IN_ROOM\<rparr>"
  let ?w1 = "chat_room_subscribe (chat_room_presence_set sq (cx_w cx) i (ts_username (cx_s cx))) i (ts_notify_wfd (cx_s cx))"
  obtain cx1 where ren: "render_room sq ?c cx1 = (c', cx')" and w1: "cx_w cx1 = ?w1"
    using en assms(4) unfolding enter_room_def Let_def by (simp add: on_world_def on_session_def)
  have okw: "world_ok (cx_w cx1)" "i < length (w_rooms (cx_w cx1))"
    using ok assms(3) unfolding w1 by (auto intro: world_ok_subs)
  have "only_output cx1 cx' \<and> (\<exists>x. c' = ?c\<lparr>cs_oldest_shown := x\<rparr>)"
    by (rule render_room_output [OF okw(1) _ okw(2) ren]) simp
  with run show ?thesis by (auto simp: only_outputD w1)
qed

text \<open>C27: Choosing a room in the lobby subscribes the session, when the room has a free slot: from
  then on, while the session waits and whatever the other threads do to the service meanwhile
  (their own subscriptions, posts and new rooms, as \<open>world_env\<close> allows), a message stored in the
  room by whomever makes the session's pipe readable, as long as the pipe is open.\<close>

theorem join_then_woken:
  assumes "chat_inv c cx" and "cs_st c = CHAT_ST_LOBBY" and "i < length (w_rooms (cx_w cx))"
    and "0 \<le> ts_notify_wfd (cx_s cx)" and "length (sub_fds (room_at (cx_w cx) i)) < CHAT_MAX_SUBSCRIBERS"
    and "chat_handle_key sq (char_of (49 + i)) c cx = (run, c', cx')"
    and "world_env (ts_notify_wfd (cx_s cx)) (cx_w cx') w" and "ts_notify_wfd (cx_s cx) \<in> dom (w_pipes w)"
    and "chat_room_post sq w i user body = (w', mid)" and "0 \<le> mid"
  shows "run \<and> cs_room c' = Some i \<and> pending (w_pipes w') (ts_notify_wfd (cx_s cx))"
proof -
  let ?wfd = "ts_notify_wfd (cx_s cx)"
  note join = lobby_join_world [OF assms(1-4,6)]
  then have "?wfd \<in> set (sub_fds (room_at (cx_w cx') i))" and len: "length (w_rooms (cx_w cx')) = length (w_rooms (cx_w cx))"
    "w_once (cx_w cx') = w_once (cx_w cx)"
    using assms(3,5)
    by (simp_all add: chat_room_subscribe_def update_subs_rooms sub_add_def chat_room_presence_set_def Let_def)
  then have "0 < subs_of ?wfd (cx_w cx') i" by (simp add: subs_of_def)
  moreover have "w_once (cx_w cx)" using assms(1) by (simp add: chat_inv_def world_ok_def)
  ultimately have "0 < subs_of ?wfd w i" using assms(3,4,7) len by (simp add: world_env_def)
  then have "?wfd \<in> set (sub_fds (room_at w i))" by (simp add: subs_of_def)
  then have "pending (w_pipes w') ?wfd"
    using post_frame(4) [OF assms(9)] assms(8,10) fold_pipe_write_pending by simp
  with join show ?thesis by simp
qed

text \<open>The screens of a room page backwards. A redraw while the user reads history shows only
  messages older than the oldest one on the screen, so a redraw that is not asked for by
  the paging key (leaving compose mode with Escape) also moves the view one page back;
  in the live view it shows the newest page.\<close>

theorem render_room_page:
  assumes "sqlite_chat sq tables" and "db_wf tables (w_db (cx_w cx))" and "db_readable sq (w_db (cx_w cx))"
    and "cs_room c = Some i" and "0 < cs_oldest_shown c"
    and "list_all (\<lambda>m. cm_id m < LONG_MAX) (wlog tables (cx_w cx) (r_id (room_at (cx_w cx) i)))"
    and "page = last_n (nat (page_size (term_rows cx)))
           (filter (\<lambda>m. cs_at_live c \<or> cm_id m < cs_oldest_shown c) (wlog tables (cx_w cx) (r_id (room_at (cx_w cx) i))))"
  shows "cs_oldest_shown (fst (render_room sq c cx)) = (if page = [] then cs_oldest_shown c else cm_id (hd page))
    \<and> snd (render_room sq c cx) =
        room_footer (term_rows cx) (fold send_msg_line page (room_header sq i cx))"
proof -
  let ?r = "r_id (room_at (cx_w cx) i)" and ?n = "page_size (term_rows cx)"
  have n: "0 \<le> ?n" "?n \<le> CHAT_MSG_LINES" by (auto simp: page_size_def Let_def CHAT_MSG_LINES_def)
  note before = sqlite_chat.db_before_any [OF assms(1-3) n]
  have "chat_room_before sq (cx_w cx) i (if cs_at_live c then 0 else cs_oldest_shown c) ?n CHAT_MSG_LINES = page"
  proof (cases "cs_at_live c")
    case True
    have "filter (\<lambda>m. cm_id m < LONG_MAX) (wlog tables (cx_w cx) ?r) = wlog tables (cx_w cx) ?r"
      using assms(6) by (simp add: filter_id_conv list_all_iff)
    with True assms(7) show ?thesis by (simp add: chat_room_before_def before)
  next
    case False
    with assms(5,7) show ?thesis by (simp add: chat_room_before_def before)
  qed
  then show ?thesis
    using assms(4) by (simp add: render_room_def render_room_at_def Let_def)
qed

section \<open>Examples\<close>

definition demo_session :: telnet_session where
  "demo_session = \<lparr>ts_sock = \<lparr>sk_script = [], sk_sent = [], sk_shut = False, sk_closed = False\<rparr>, ts_fsm = TSTATE_IN_GAME,
     ts_iac = iac_parser_init, ts_main_menu = \<lparr>m_title = None, m_subtitle = None, m_items = [],
       m_title_color = ANSI_BLACK, m_item_color = ANSI_BLACK, m_key_color = ANSI_BLACK\<rparr>,
     ts_active_game = Some Chat_feature, ts_game_state = None, ts_term_cols = 80, ts_term_rows = 24,
     ts_send_buf = [], ts_echo_ok = True, ts_sga_ok = True, ts_naws_ok = True, ts_nego_pending = 0,
     ts_pending_selection = -1, ts_game_over_pending = False, ts_quit_pending = False,
     ts_shutdown_requested = False, ts_username = ''bob'', ts_notify_rfd = 6, ts_notify_wfd = 7,
     ts_on_notify = None\<rparr>"

definition demo_cx :: "chat_tables tctx" where
  "demo_cx = \<lparr>cx_s = demo_session, cx_w = demo_boot, cx_online = 1,
     cx_tm = \<lparr>tm_wday = 1, tm_mday = 1, tm_mon = 0, tm_year = 2026, tm_hour = 0, tm_min = 0\<rparr>,
     cx_mem = True, cx_overread = False\<rparr>"

definition demo_room_cx :: "chat_tables tctx" where
  "demo_room_cx = demo_cx\<lparr>cx_w := demo_world, cx_s := demo_session\<lparr>ts_on_notify := Some Chat_on_notify\<rparr>\<rparr>"

definition demo_chat :: chat_state where
  "demo_chat = chat_state_zero\<lparr>cs_room := Some 0, cs_st := CHAT_ST_COMPOSE, cs_at_live := True\<rparr>"

lemma demo_name_ok: "name_ok ''bob''"
  by (simp add: name_ok_def char_class_defs)

lemma demo_menu_ok: "menu_ok demo_cx"
  by (simp add: menu_ok_def demo_cx_def demo_session_def demo_boot_def boot_world_def world_pre_def
        sub_only_def demo_name_ok)

lemma demo_chat_inv: "chat_inv demo_chat demo_room_cx"
  by (simp add: chat_inv_def demo_chat_def demo_room_cx_def demo_cx_def demo_session_def demo_world_eq
        chat_state_zero_def world_ok_def room_ok_def CHAT_MAX_ROOMS_def CHAT_MAX_SUBSCRIBERS_def chat_sizes
        sub_only_def subs_of_def in_room_def demo_name_ok less_Suc_eq nth_Cons' name_ok_def [of "[]"])

theorem typed_line_is_posted_witness:
  "wlog (\<lambda>t. t) (cx_w (snd (snd (run_keys (chat_handle_key ref_sqlite) (''hi'' @ [CR]) demo_chat demo_room_cx)))) 1
   = [\<lparr>cm_id = 1, cm_user = ''bob'', cm_ts = 1000, cm_body = ''hi''\<rparr>]"
proof -
  obtain run c' cx' where r: "run_keys (chat_handle_key ref_sqlite) (''hi'' @ [CR]) demo_chat demo_room_cx = (run, c', cx')"
    by (metis prod.exhaust)
  have w: "cx_w demo_room_cx = demo_world" "ts_username (cx_s demo_room_cx) = ''bob''"
    by (simp_all add: demo_room_cx_def demo_cx_def demo_session_def)
  have clean: "sanitize_user ''bob'' CHAT_USER_MAX = ''bob''" "sanitize_text ''hi'' CHAT_BODY_MAX = ''hi''"
    by (simp_all add: chat_sizes char_class_defs)
  have "snd (chat_room_post ref_sqlite demo_world 0 ''bob'' ''hi'') = 1"
    by (simp add: chat_room_post_def clean demo_world_eq demo_tables_def chat_db_insert_message_def
          del: sanitize_user.simps sanitize_text.simps)
  moreover have "db_wf (\<lambda>t. t) (w_db (cx_w demo_room_cx))"
    by (simp add: w demo_world_eq demo_tables_def db_wf_def tables_ok_def)
  moreover have "list_all is_printable ''hi''" by (simp add: is_printable_def)
  ultimately have "wlog (\<lambda>t. t) (cx_w cx') 1 = [\<lparr>cm_id = 1, cm_user = ''bob'', cm_ts = 1000, cm_body = ''hi''\<rparr>]"
    using typed_line_is_posted [OF ref_engine.sqlite_chat_axioms, of demo_room_cx demo_chat 0 "''hi''" run c' cx']
      demo_chat_inv r
    by (simp add: w demo_chat_def chat_state_zero_def Let_def demo_world_eq demo_tables_def db_log_def)
  with r show ?thesis by simp
qed

lemma demo_lobby_inv:
  "chat_inv (chat_state_zero\<lparr>cs_st := CHAT_ST_LOBBY\<rparr>) (demo_cx\<lparr>cx_w := chat_service_init ref_sqlite demo_boot\<rparr>)"
  by (simp add: chat_inv_def demo_init chat_state_zero_def demo_cx_def demo_session_def world_ok_def room_ok_def
      CHAT_MAX_ROOMS_def CHAT_MAX_SUBSCRIBERS_def chat_sizes sub_only_def subs_of_def in_room_def demo_name_ok
      less_Suc_eq nth_Cons' name_ok_def [of "[]"])

theorem join_then_woken_witness:
  "let cx = demo_cx\<lparr>cx_w := chat_service_init ref_sqlite demo_boot\<rparr>;
       cx' = snd (snd (chat_handle_key ref_sqlite (CHR ''2'') (chat_state_zero\<lparr>cs_st := CHAT_ST_LOBBY\<rparr>) cx))
   in pending (w_pipes (fst (chat_room_post ref_sqlite (cx_w cx') 1 ''eve'' ''hi''))) 7"
proof -
  let ?cx = "demo_cx\<lparr>cx_w := chat_service_init ref_sqlite demo_boot\<rparr>"
  let ?c = "chat_state_zero\<lparr>cs_st := CHAT_ST_LOBBY\<rparr>"
  have two: "char_of (49 + 1 :: nat) = CHR ''2''" by code_simp
  obtain run c' cx' where k: "chat_handle_key ref_sqlite (CHR ''2'') ?c ?cx = (run, c', cx')"
    by (metis prod.exhaust)
  obtain w' mid where p: "chat_room_post ref_sqlite (cx_w cx') 1 ''eve'' ''hi'' = (w', mid)" by fastforce
  have here: "1 < length (w_rooms (cx_w ?cx))" "0 \<le> ts_notify_wfd (cx_s ?cx)"
    "ts_notify_wfd (cx_s ?cx) \<in> dom (w_pipes (cx_w ?cx))" "cs_st ?c = CHAT_ST_LOBBY"
    "length (sub_fds (room_at (cx_w ?cx) 1)) < CHAT_MAX_SUBSCRIBERS"
    by (simp_all add: demo_init demo_cx_def demo_session_def CHAT_MAX_SUBSCRIBERS_def)
  have clean: "sanitize_user ''eve'' CHAT_USER_MAX = ''eve''" "sanitize_text ''hi'' CHAT_BODY_MAX = ''hi''"
    "sanitize_user ''bob'' CHAT_USER_MAX = ''bob''"
    by (simp_all add: chat_sizes char_class_defs)
  note w = lobby_join_world [OF demo_lobby_inv here(4,1,2), of ref_sqlite run c' cx', unfolded two, OF k]
  have "mid = 1"
    using p w
    by (simp add: demo_init demo_cx_def demo_session_def chat_room_post_def clean chat_room_subscribe_def
        update_subs_def chat_room_presence_set_def chat_db_presence_set_def Let_def chat_db_insert_message_def
        demo_tables_def del: sanitize_user.simps sanitize_text.simps)
  moreover have "ts_notify_wfd (cx_s ?cx) \<in> dom (w_pipes (cx_w cx'))"
    using here(3) w by (simp add: chat_room_subscribe_def chat_room_presence_set_def Let_def)
  ultimately show ?thesis
    using join_then_woken [OF demo_lobby_inv here(4,1,2,5), of ref_sqlite run c' cx' "cx_w cx'" "''eve''" "''hi''" w' mid,
        unfolded two, OF k world_env_refl] p k
    by (simp add: demo_cx_def demo_session_def Let_def)
qed

definition demo_history :: "chat_tables tctx" where
  "demo_history = demo_room_cx\<lparr>cx_w := demo_world\<lparr>w_db := Some (demo_tables\<lparr>tb_msgs :=
     [\<lparr>mr_id = 1, mr_room = 1, mr_user = ''bob'', mr_ts = 0, mr_body = ''one''\<rparr>,
      \<lparr>mr_id = 2, mr_room = 1, mr_user = ''bob'', mr_ts = 0, mr_body = ''two''\<rparr>], tb_seq := 2\<rparr>)\<rparr>\<rparr>"

theorem render_room_page_witness:
  "cs_oldest_shown (fst (render_room ref_sqlite
     (demo_chat\<lparr>cs_at_live := False, cs_oldest_shown := 2\<rparr>) demo_history)) = 1"
proof -
  let ?c = "demo_chat\<lparr>cs_at_live := False, cs_oldest_shown := 2\<rparr>"
  have "nat (page_size (term_rows demo_history)) = 18"
    by (simp add: demo_history_def demo_room_cx_def demo_cx_def demo_session_def term_rows_def page_size_def
        CHAT_MSG_LINES_def)
  moreover have "db_wf (\<lambda>t. t) (w_db (cx_w demo_history))" "db_readable ref_sqlite (w_db (cx_w demo_history))"
    by (simp_all add: demo_history_def db_wf_def tables_ok_def db_readable_def)
  ultimately show ?thesis
    using render_room_page [OF ref_engine.sqlite_chat_axioms, of demo_history ?c 0]
    by (simp add: demo_chat_def demo_history_def demo_world_eq db_log_def to_msg_def LONG_MAX_def last_n_def)
qed

end
