(* ===== verification/Features.thy ===== *)
theory Features
  imports Chat_Ui
begin

text \<open>
  Everything the main menu can start: the vtable \<^verbatim>\<open>game_ops_t\<close> of \<^verbatim>\<open>games/game.h\<close>, the
  placeholders of \<^verbatim>\<open>features/stubs.c\<close>, \<^verbatim>\<open>games/chess\<close> and \<^verbatim>\<open>games/backgammon\<close>, and the
  chat feature wrapped as a vtable. Every instance meets the contract \<open>feature\<close>.
\<close>

section \<open>The vtable\<close>

record 'db game_ops =
  go_name :: string
  go_description :: string
  go_menu_key :: char
  go_create :: "'db tctx \<Rightarrow> game_state option \<times> 'db tctx"
  go_handle_key :: "char \<Rightarrow> game_state \<Rightarrow> 'db tctx \<Rightarrow> bool \<times> game_state \<times> 'db tctx"
  go_destroy :: "game_state \<Rightarrow> 'db tctx \<Rightarrow> 'db tctx"

section \<open>Placeholders\<close>

definition coming_soon :: "string \<Rightarrow> string \<Rightarrow> 'db tctx \<Rightarrow> game_state option \<times> 'db tctx" where
  "coming_soon feature_name description cx =
     (Some Sentinel, cx_sendf 512 (csi ''2J'' @ csi ''H'' @ csi ''1;33m'' @ crlf @ ''  '' @ feature_name @ crlf
        @ csi ''0m'' @ ''  '' @ csi ''2m'' @ description @ csi ''0m'' @ crlf @ crlf @ ''  ''
        @ csi ''2mKomt binnenkort '' @ EMDASH @ '' druk op een toets om terug te gaan'' @ csi ''0m'' @ crlf) cx)"

definition stub_handle_key :: "char \<Rightarrow> game_state \<Rightarrow> 'db tctx \<Rightarrow> bool \<times> game_state \<times> 'db tctx" where
  "stub_handle_key key st cx = (False, st, cx)"

definition stub_destroy :: "game_state \<Rightarrow> 'db tctx \<Rightarrow> 'db tctx" where
  "stub_destroy st cx = cx"

definition adventure_create :: "'db tctx \<Rightarrow> game_state option \<times> 'db tctx" where
  "adventure_create cx =
     coming_soon ''Text Adventure'' ''Verken een tekstuele wereld vol gevaar en mysterie'' cx"

definition feature_text_adventure :: "'db game_ops" where
  "feature_text_adventure = \<lparr>go_name = ''Text Adventure'',
     go_description = ''Verken een tekstuele wereld vol gevaar en mysterie'', go_menu_key = CHR ''a'',
     go_create = adventure_create, go_handle_key = stub_handle_key, go_destroy = stub_destroy\<rparr>"

definition trivia_create :: "'db tctx \<Rightarrow> game_state option \<times> 'db tctx" where
  "trivia_create cx = coming_soon ''Trivia'' ''Test je kennis met meerdere keuze vragen'' cx"

definition feature_trivia :: "'db game_ops" where
  "feature_trivia = \<lparr>go_name = ''Trivia'', go_description = ''Test je kennis met meerdere keuze vragen'',
     go_menu_key = CHR ''t'', go_create = trivia_create, go_handle_key = stub_handle_key,
     go_destroy = stub_destroy\<rparr>"

definition reversi_create :: "'db tctx \<Rightarrow> game_state option \<times> 'db tctx" where
  "reversi_create cx = coming_soon ''Reversi'' ''Klassiek strategiespel voor twee spelers'' cx"

definition feature_reversi :: "'db game_ops" where
  "feature_reversi = \<lparr>go_name = ''Reversi'', go_description = ''Klassiek strategiespel voor twee spelers'',
     go_menu_key = CHR ''r'', go_create = reversi_create, go_handle_key = stub_handle_key,
     go_destroy = stub_destroy\<rparr>"

definition whosonline_create :: "'db tctx \<Rightarrow> game_state option \<times> 'db tctx" where
  "whosonline_create cx =
     (Some Sentinel, cx_sendf 512 (csi ''2J'' @ csi ''H'' @ csi ''1;36m'' @ crlf
        @ ''  WHO'' @ [CHR 0x27] @ ''S ONLINE'' @ crlf @ csi ''0m'' @ ''  '' @ csi ''1m''
        @ show_nat (unat (cx_online cx)) @ csi ''0m'' @ '' gebruiker'' @ (if cx_online cx = 1 then [] else ''s'')
        @ '' verbonden op dit moment.'' @ crlf @ crlf @ ''  '' @ csi ''2m(gebruikerslijst volgt binnenkort)''
        @ csi ''0m'' @ crlf @ crlf @ ''  '' @ csi ''2mDruk op een toets om terug te gaan'' @ csi ''0m'' @ crlf) cx)"

definition feature_whosonline :: "'db game_ops" where
  "feature_whosonline = \<lparr>go_name = ''Who'' @ [CHR 0x27] @ ''s Online'',
     go_description = ''Bekijk wie er nu verbonden is'', go_menu_key = CHR ''w'',
     go_create = whosonline_create, go_handle_key = stub_handle_key, go_destroy = stub_destroy\<rparr>"

definition profile_create :: "'db tctx \<Rightarrow> game_state option \<times> 'db tctx" where
  "profile_create cx = coming_soon ''Profiel'' ''Bekijk en bewerk je gebruikersprofiel'' cx"

definition feature_profile :: "'db game_ops" where
  "feature_profile = \<lparr>go_name = ''Profiel'', go_description = ''Bekijk en bewerk je gebruikersprofiel'',
     go_menu_key = CHR ''p'', go_create = profile_create, go_handle_key = stub_handle_key,
     go_destroy = stub_destroy\<rparr>"

definition alias_create :: "'db tctx \<Rightarrow> game_state option \<times> 'db tctx" where
  "alias_create cx =
     coming_soon ''Alias instellen'' ''Kies een bijnaam waarmee andere gebruikers je zien'' cx"

definition feature_alias :: "'db game_ops" where
  "feature_alias = \<lparr>go_name = ''Alias instellen'',
     go_description = ''Kies een bijnaam waarmee andere gebruikers je zien'', go_menu_key = CHR ''n'',
     go_create = alias_create, go_handle_key = stub_handle_key, go_destroy = stub_destroy\<rparr>"

definition messageboard_create :: "'db tctx \<Rightarrow> game_state option \<times> 'db tctx" where
  "messageboard_create cx =
     coming_soon ''Message Board'' ''Lees en schrijf berichten voor alle gebruikers'' cx"

definition feature_messageboard :: "'db game_ops" where
  "feature_messageboard = \<lparr>go_name = ''Message Board'',
     go_description = ''Lees en schrijf berichten voor alle gebruikers'', go_menu_key = CHR ''m'',
     go_create = messageboard_create, go_handle_key = stub_handle_key, go_destroy = stub_destroy\<rparr>"

definition help_text :: string where
  "help_text = csi ''2J'' @ csi ''H'' @ csi ''1;37m'' @ crlf @ ''  HELP'' @ crlf @ csi ''0m''
     @ ''  Druk een letter in het hoofdmenu om een optie te selecteren.'' @ crlf @ crlf
     @ ''  '' @ csi ''33m[C]'' @ csi ''0m Chess           '' @ csi ''33m[B]'' @ csi ''0m Backgammon'' @ crlf
     @ ''  '' @ csi ''33m[A]'' @ csi ''0m Text Adventure   '' @ csi ''33m[T]'' @ csi ''0m Trivia'' @ crlf
     @ ''  '' @ csi ''33m[R]'' @ csi ''0m Reversi          '' @ csi ''33m[W]'' @ csi ''0m Who'' @ [CHR 0x27]
     @ ''s Online'' @ crlf
     @ ''  '' @ csi ''33m[P]'' @ csi ''0m Profiel          '' @ csi ''33m[N]'' @ csi ''0m Alias instellen'' @ crlf
     @ ''  '' @ csi ''33m[M]'' @ csi ''0m Message board    '' @ csi ''33m[Q]'' @ csi ''0m Uitloggen'' @ crlf
     @ crlf @ ''  '' @ csi ''2mDruk op een toets om terug te gaan'' @ csi ''0m'' @ crlf"

definition help_create :: "'db tctx \<Rightarrow> game_state option \<times> 'db tctx" where
  "help_create cx = (Some Sentinel, cx_send help_text cx)"

definition feature_help :: "'db game_ops" where
  "feature_help = \<lparr>go_name = ''Help'', go_description = ''Uitleg over alle beschikbare functies'',
     go_menu_key = CHR ''h'', go_create = help_create, go_handle_key = stub_handle_key,
     go_destroy = stub_destroy\<rparr>"

definition chess_create :: "'db tctx \<Rightarrow> game_state option \<times> 'db tctx" where
  "chess_create cx =
     (Some Sentinel, cx_send (crlf @ csi ''1;33m  Chess'' @ csi ''0m'' @ crlf
        @ ''  Not yet implemented. Returning to menu...'' @ crlf @ crlf) cx)"

definition chess_handle_key :: "char \<Rightarrow> game_state \<Rightarrow> 'db tctx \<Rightarrow> bool \<times> game_state \<times> 'db tctx" where
  "chess_handle_key key st cx = (False, st, cx)"

definition chess_destroy :: "game_state \<Rightarrow> 'db tctx \<Rightarrow> 'db tctx" where
  "chess_destroy st cx = cx"

definition game_chess :: "'db game_ops" where
  "game_chess = \<lparr>go_name = ''Chess'', go_description = ''Play a game of chess'', go_menu_key = CHR ''c'',
     go_create = chess_create, go_handle_key = chess_handle_key, go_destroy = chess_destroy\<rparr>"

definition backgammon_create :: "'db tctx \<Rightarrow> game_state option \<times> 'db tctx" where
  "backgammon_create cx =
     (Some Sentinel, cx_send (crlf @ csi ''1;35m  Backgammon'' @ csi ''0m'' @ crlf
        @ ''  Not yet implemented. Returning to menu...'' @ crlf @ crlf) cx)"

definition backgammon_handle_key :: "char \<Rightarrow> game_state \<Rightarrow> 'db tctx \<Rightarrow> bool \<times> game_state \<times> 'db tctx" where
  "backgammon_handle_key key st cx = (False, st, cx)"

definition backgammon_destroy :: "game_state \<Rightarrow> 'db tctx \<Rightarrow> 'db tctx" where
  "backgammon_destroy st cx = cx"

definition game_backgammon :: "'db game_ops" where
  "game_backgammon = \<lparr>go_name = ''Backgammon'', go_description = ''Play a game of backgammon'',
     go_menu_key = CHR ''b'', go_create = backgammon_create, go_handle_key = backgammon_handle_key,
     go_destroy = backgammon_destroy\<rparr>"

section \<open>The chat as a vtable\<close>

text \<open>The casts between \<^verbatim>\<open>void *\<close> and \<^verbatim>\<open>chat_state_t *\<close>; the sentinel never reaches them
  (shown below: a chat state is what \<open>chat_create\<close> returned).\<close>

definition chat_feature :: "'db sqlite \<Rightarrow> 'db game_ops" where
  "chat_feature sq = \<lparr>go_name = ''Chat rooms'', go_description = ''Chat in real-time met andere gebruikers'',
     go_menu_key = CHR ''g'',
     go_create = (\<lambda>cx. case chat_create sq cx of (r, cx) \<Rightarrow> (map_option Chat_state r, cx)),
     go_handle_key = (\<lambda>key st cx. case st of Sentinel \<Rightarrow> (False, st, cx)
        | Chat_state c \<Rightarrow> (case chat_handle_key sq key c cx of (run, c, cx) \<Rightarrow> (run, Chat_state c, cx))),
     go_destroy = (\<lambda>st cx. case st of Sentinel \<Rightarrow> cx | Chat_state c \<Rightarrow> chat_destroy sq c cx)\<rparr>"

fun ops_of :: "'db sqlite \<Rightarrow> game \<Rightarrow> 'db game_ops" where
  "ops_of sq Game_chess = game_chess"
| "ops_of sq Game_backgammon = game_backgammon"
| "ops_of sq Feature_text_adventure = feature_text_adventure"
| "ops_of sq Feature_trivia = feature_trivia"
| "ops_of sq Feature_reversi = feature_reversi"
| "ops_of sq Feature_whosonline = feature_whosonline"
| "ops_of sq Feature_profile = feature_profile"
| "ops_of sq Feature_alias = feature_alias"
| "ops_of sq Feature_messageboard = feature_messageboard"
| "ops_of sq Feature_help = feature_help"
| "ops_of sq Chat_feature = chat_feature sq"

section \<open>Every vtable is a feature\<close>

lemmas create_defs = coming_soon_def adventure_create_def trivia_create_def reversi_create_def
  whosonline_create_def profile_create_def alias_create_def messageboard_create_def help_create_def
  chess_create_def backgammon_create_def

lemmas ops_defs = feature_text_adventure_def feature_trivia_def feature_reversi_def feature_whosonline_def
  feature_profile_def feature_alias_def feature_messageboard_def feature_help_def game_chess_def
  game_backgammon_def stub_handle_key_def stub_destroy_def chess_handle_key_def chess_destroy_def
  backgammon_handle_key_def backgammon_destroy_def

text \<open>A placeholder draws its screen and reports success, and its screen fits its buffer.\<close>

definition placeholder :: "('db tctx \<Rightarrow> game_state option \<times> 'db tctx) \<Rightarrow> bool" where
  "placeholder create \<longleftrightarrow>
     (\<forall>cx. fst (create cx) = Some Sentinel \<and> only_output cx (snd (create cx)) \<and> ctl (snd (create cx)) = ctl cx)"

lemma length_online: "length (show_nat (unat (n :: 32 word))) \<le> 10"
proof -
  have "unat n < 2 ^ 32" using unsigned_less [of n] by simp
  then have "unat n < 10 ^ Suc 9" by simp
  from length_show_nat [OF this] show ?thesis by simp
qed

lemma length_EMDASH [simp]: "length EMDASH = 3"
  by (simp add: EMDASH_def)

lemma placeholders:
  "placeholder adventure_create" "placeholder trivia_create" "placeholder reversi_create"
  "placeholder whosonline_create" "placeholder profile_create" "placeholder alias_create"
  "placeholder messageboard_create" "placeholder help_create" "placeholder chess_create"
  "placeholder backgammon_create"
  by (auto simp: placeholder_def create_defs intro!: only_output_sendf le_less_trans [OF length_online])

lemma ops_placeholder:
  "g \<noteq> Chat_feature \<Longrightarrow> placeholder (go_create (ops_of sq g))
     \<and> go_handle_key (ops_of sq g) = (\<lambda>k st cx. (False, st, cx)) \<and> go_destroy (ops_of sq g) = (\<lambda>st cx. cx)"
  using placeholders by (cases g) (simp_all add: ops_defs fun_eq_iff)

lemma menu_ok_output: "menu_ok cx \<Longrightarrow> only_output cx cx' \<Longrightarrow> menu_ok cx'"
  by (simp add: menu_ok_def only_outputD)

text \<open>The state a running game keeps: the sentinel for a placeholder, a chat state that
  satisfies its invariant for the chat.\<close>

definition game_inv :: "game \<Rightarrow> game_state \<Rightarrow> 'db tctx \<Rightarrow> bool" where
  "game_inv g st cx =
     (if g = Chat_feature then (case st of Sentinel \<Rightarrow> False | Chat_state c \<Rightarrow> chat_inv c cx)
      else st = Sentinel \<and> menu_ok cx)"

lemma placeholder_feature:
  assumes "g \<noteq> Chat_feature"
  shows "feature (go_create (ops_of sq g)) (go_handle_key (ops_of sq g)) (go_destroy (ops_of sq g)) (game_inv g)"
proof -
  note p = ops_placeholder [OF assms, of sq]
  have cr: "st = Some Sentinel \<and> only_output cx cx' \<and> ctl cx' = ctl cx"
    if "go_create (ops_of sq g) cx = (st, cx')" for cx cx' st
    using p that by (metis fst_conv placeholder_def snd_conv)
  show ?thesis
    by (unfold_locales) (use p assms cr in \<open>auto simp: game_inv_def dest: menu_ok_output dest!: cr\<close>)
qed

lemma chat_is_feature:
  "feature (go_create (ops_of sq Chat_feature)) (go_handle_key (ops_of sq Chat_feature))
     (go_destroy (ops_of sq Chat_feature)) (game_inv Chat_feature)"
proof (unfold_locales, goal_cases)
  case (1 cx st cx')
  then show ?case using chat.create_inv [of cx sq]
    by (auto simp: chat_feature_def game_inv_def split: prod.splits)
next
  case (2 cx cx')
  then show ?case using chat.create_failed [of cx sq] by (auto simp: chat_feature_def split: prod.splits)
next
  case (3 st cx k run st' cx')
  then show ?case using chat.key_inv
    by (auto simp: chat_feature_def game_inv_def split: prod.splits game_state.splits)
next
  case (4 st cx)
  then show ?case using chat.destroy_inv
    by (auto simp: chat_feature_def game_inv_def split: game_state.splits)
next
  case (5 cx r cx')
  then show ?case using chat.create_ctl [of sq cx] by (auto simp: chat_feature_def split: prod.splits)
next
  case (6 k st cx run st' cx')
  then show ?case using chat.key_ctl
    by (auto simp: chat_feature_def split: prod.splits game_state.splits)
next
  case (7 st cx)
  show ?case by (simp add: chat_feature_def chat.destroy_ctl split: game_state.split)
qed

interpretation games: feature "go_create (ops_of sq g)" "go_handle_key (ops_of sq g)"
  "go_destroy (ops_of sq g)" "game_inv g" for sq g
  by (cases "g = Chat_feature") (use chat_is_feature placeholder_feature in auto)

text \<open>C30: Every item of the main menu keeps the contract of the plugin interface: whatever was
  started and whatever is typed, when the feature is destroyed the session is as it was
  at the menu, with no handler and no subscription left behind, and every screen a
  feature formats fits the buffer it is formatted into.\<close>

theorem game_visit_returns:
  assumes "menu_ok cx" and "go_create (ops_of sq g) cx = (Some st, cx1)"
    and "run_keys (go_handle_key (ops_of sq g)) keys st cx1 = (run, st', cx2)"
  shows "menu_ok (go_destroy (ops_of sq g) st' cx2) \<and> ctl (go_destroy (ops_of sq g) st' cx2) = ctl cx"
  using assms by (rule games.visit)

theorem game_visit_returns_witness:
  "menu_ok (let (r, cx1) = go_create (ops_of ref_sqlite Feature_trivia) demo_cx;
                (run, st, cx2) = run_keys (go_handle_key (ops_of ref_sqlite Feature_trivia)) ''x'' (the r) cx1
            in go_destroy (ops_of ref_sqlite Feature_trivia) st cx2)"
proof -
  obtain cx1 where c: "go_create (ops_of ref_sqlite Feature_trivia) demo_cx = (Some Sentinel, cx1)"
    by (simp add: ops_defs create_defs)
  obtain run st cx2 where k: "run_keys (go_handle_key (ops_of ref_sqlite Feature_trivia)) ''x'' Sentinel cx1 = (run, st, cx2)"
    by (metis prod.exhaust)
  from game_visit_returns [OF demo_menu_ok c k] c k show ?thesis by simp
qed

end
