(* ===== verification/Fsm.thy ===== *)
theory Fsm
  imports Prelude
begin

text \<open>
  The table-driven state machine engine of \<^verbatim>\<open>core/fsm.c\<close>. States and events are the
  machine's own enumerations (type parameters here, \<^verbatim>\<open>uint16_t\<close> there); the context
  pointer of the callbacks is an explicit state \<open>'c\<close> that an action returns updated.
  An instance is its current state: the definition it points to is immutable and is
  passed as an argument. The engine scans the table from the first row, runs the
  action of the first row that matches, and only then writes the new state, which is
  why a nested dispatch inside an action would be lost.
\<close>

datatype fsm_action_result = FSM_ACTION_OK | FSM_ACTION_ERROR

record ('s, 'e, 'c, 'd) fsm_transition =
  t_state :: 's
  t_event :: 'e
  t_action :: "('c \<Rightarrow> 'e \<Rightarrow> 'd \<Rightarrow> 'c \<times> fsm_action_result) option"
  t_next :: 's
  t_error :: 's

record ('s, 'e, 'c, 'd) fsm_def =
  fsm_table :: "('s, 'e, 'c, 'd) fsm_transition list"
  initial_state :: 's
  terminal_state :: 's

definition fsm_init :: "('s, 'e, 'c, 'd) fsm_def \<Rightarrow> 's" where
  "fsm_init def = initial_state def"

definition run_action ::
  "('s, 'e, 'c, 'd) fsm_transition \<Rightarrow> 'e \<Rightarrow> 'c \<Rightarrow> 'd \<Rightarrow> 'c \<times> fsm_action_result" where
  "run_action t ev ctx dat =
     (case t_action t of None \<Rightarrow> (ctx, FSM_ACTION_OK) | Some act \<Rightarrow> act ctx ev dat)"

text \<open>The loop of \<^verbatim>\<open>fsm_dispatch\<close>: the return code, the new state and the context.\<close>

fun fsm_scan ::
  "('s, 'e, 'c, 'd) fsm_transition list \<Rightarrow> 's \<Rightarrow> 'e \<Rightarrow> 'c \<Rightarrow> 'd \<Rightarrow> int \<times> 's \<times> 'c" where
  "fsm_scan [] cur ev ctx dat = (-1, cur, ctx)"
| "fsm_scan (t # ts) cur ev ctx dat =
     (if t_state t \<noteq> cur \<or> t_event t \<noteq> ev then fsm_scan ts cur ev ctx dat
      else (case run_action t ev ctx dat of
              (ctx', res) \<Rightarrow> (0, if res = FSM_ACTION_OK then t_next t else t_error t, ctx')))"

definition fsm_dispatch ::
  "('s, 'e, 'c, 'd) fsm_def \<Rightarrow> 's \<Rightarrow> 'e \<Rightarrow> 'c \<Rightarrow> 'd \<Rightarrow> int \<times> 's \<times> 'c" where
  "fsm_dispatch def cur ev ctx dat = fsm_scan (fsm_table def) cur ev ctx dat"

definition fsm_is_terminal :: "('s, 'e, 'c, 'd) fsm_def \<Rightarrow> 's \<Rightarrow> bool" where
  "fsm_is_terminal def cur \<longleftrightarrow> cur = terminal_state def"

section \<open>What a dispatch does\<close>

definition matches :: "'s \<Rightarrow> 'e \<Rightarrow> ('s, 'e, 'c, 'd) fsm_transition \<Rightarrow> bool" where
  "matches cur ev t \<longleftrightarrow> t_state t = cur \<and> t_event t = ev"

lemma fsm_scan_find:
  "fsm_scan ts cur ev ctx dat =
     (case find (matches cur ev) ts of
        None \<Rightarrow> (-1, cur, ctx)
      | Some t \<Rightarrow> (case run_action t ev ctx dat of
          (ctx', res) \<Rightarrow> (0, if res = FSM_ACTION_OK then t_next t else t_error t, ctx')))"
  by (induction ts) (auto simp: matches_def)

lemma fsm_dispatch_find:
  "fsm_dispatch def cur ev ctx dat =
     (case find (matches cur ev) (fsm_table def) of
        None \<Rightarrow> (-1, cur, ctx)
      | Some t \<Rightarrow> (case run_action t ev ctx dat of
          (ctx', res) \<Rightarrow> (0, if res = FSM_ACTION_OK then t_next t else t_error t, ctx')))"
  by (simp add: fsm_dispatch_def fsm_scan_find)

lemma find_matches_SomeD:
  "find (matches cur ev) ts = Some t \<Longrightarrow> t \<in> set ts \<and> t_state t = cur \<and> t_event t = ev"
  by (auto simp: find_Some_iff matches_def)

text \<open>C36: one dispatch either ignores the event (return code \<open>-1\<close>, state and context
  untouched, no row of the table matches) or takes exactly one transition: the first row
  for the state and event, whose action ran and whose result selects the target.\<close>

theorem fsm_dispatch_first_match:
  fixes def :: "('s, 'e, 'c, 'd) fsm_def"
  shows "(fsm_dispatch def cur ev ctx dat = (-1, cur, ctx)
            \<and> filter (matches cur ev) (fsm_table def) = [])
       \<or> (\<exists>t before after ctx' res.
            fsm_table def = before @ t # after \<and> filter (matches cur ev) before = []
          \<and> matches cur ev t \<and> run_action t ev ctx dat = (ctx', res)
          \<and> fsm_dispatch def cur ev ctx dat =
              (0, if res = FSM_ACTION_OK then t_next t else t_error t, ctx'))"
proof (cases "find (matches cur ev) (fsm_table def)")
  case None
  then have "fsm_dispatch def cur ev ctx dat = (-1, cur, ctx)"
    by (simp add: fsm_dispatch_find)
  moreover from None have "filter (matches cur ev) (fsm_table def) = []"
    by (simp add: find_None_iff filter_empty_conv)
  ultimately show ?thesis by blast
next
  case (Some t)
  then obtain i where i: "i < length (fsm_table def)" "matches cur ev (fsm_table def ! i)"
      "t = fsm_table def ! i" "\<forall>j < i. \<not> matches cur ev (fsm_table def ! j)"
    by (auto simp: find_Some_iff)
  obtain ctx' res where ra: "run_action t ev ctx dat = (ctx', res)" by fastforce
  have "fsm_table def = take i (fsm_table def) @ t # drop (Suc i) (fsm_table def)"
    using i id_take_nth_drop by blast
  moreover have "filter (matches cur ev) (take i (fsm_table def)) = []"
    using i by (auto simp: filter_empty_conv in_set_conv_nth)
  ultimately show ?thesis
    using i ra Some by (fastforce simp: fsm_dispatch_find)
qed

section \<open>Machines whose actions keep an invariant\<close>

text \<open>
  The contract of a machine built on the engine: \<open>inv\<close> relates the current state and the
  context, and every row keeps it, whichever result its action reports. The engine then
  keeps it for every event whose payload fits the state (\<open>allowed\<close>).
\<close>

locale fsm_machine =
  fixes def :: "('s, 'e, 'c, 'd) fsm_def"
    and inv :: "'s \<Rightarrow> 'c \<Rightarrow> bool"
    and allowed :: "'s \<Rightarrow> 'e \<Rightarrow> 'd \<Rightarrow> 'c \<Rightarrow> bool"
  assumes row_ok: "t \<in> set (fsm_table def) \<Longrightarrow> inv (t_state t) ctx \<Longrightarrow>
      allowed (t_state t) (t_event t) dat ctx \<Longrightarrow> run_action t (t_event t) ctx dat = (ctx', res) \<Longrightarrow>
      inv (if res = FSM_ACTION_OK then t_next t else t_error t) ctx'"
begin

lemma dispatch_inv:
  assumes "inv cur ctx" and "allowed cur ev dat ctx"
    and "fsm_dispatch def cur ev ctx dat = (rc, cur', ctx')"
  shows "inv cur' ctx'"
proof (cases "find (matches cur ev) (fsm_table def)")
  case None
  with assms show ?thesis by (simp add: fsm_dispatch_find)
next
  case (Some t)
  from find_matches_SomeD [OF Some] have t: "t \<in> set (fsm_table def)"
    "t_state t = cur" "t_event t = ev" by auto
  obtain c res where ra: "run_action t ev ctx dat = (c, res)" by fastforce
  have "inv (if res = FSM_ACTION_OK then t_next t else t_error t) c"
    using row_ok [OF t(1), of ctx dat c res] assms(1,2) t ra by simp
  with assms(3) Some ra show ?thesis by (auto simp: fsm_dispatch_find)
qed

lemma dispatch_rc:
  "fsm_dispatch def cur ev ctx dat = (rc, cur', ctx') \<Longrightarrow> rc = 0 \<or> (rc = -1 \<and> cur' = cur \<and> ctx' = ctx)"
  by (auto simp: fsm_dispatch_find split: option.splits prod.splits)

end

end
