(* ===== verification/Registry.thy ===== *)
theory Registry
  imports Net_Io
begin

text \<open>
  The contract of the session registries. Both transports keep a linked list of their live
  sessions under a mutex, so that a server shutdown can flag and wake every one of them.
  The state is the list from its head, the flag \<^verbatim>\<open>s_shutting_down\<close>, and the parts of the
  session objects the registry touches: the stop flag and the pipe. Sessions are pointers,
  here numbers. The locale states what register, unregister and shutdown promise; its
  lemmas hold for any interleaving of calls, since each call runs under the mutex. It is
  interpreted for the telnet and for the HTTP registry.
\<close>

record reg_state =
  rg_head :: "nat list"
  rg_down :: bool
  rg_stop :: "nat \<Rightarrow> bool"
  rg_wfd :: "nat \<Rightarrow> fd"
  rg_pipes :: pipes

datatype reg_op = Op_register nat | Op_unregister nat | Op_shutdown

primrec apply_op ::
  "(nat \<Rightarrow> reg_state \<Rightarrow> reg_state) \<Rightarrow> (nat \<Rightarrow> reg_state \<Rightarrow> reg_state) \<Rightarrow> (reg_state \<Rightarrow> reg_state) \<Rightarrow>
   reg_op \<Rightarrow> reg_state \<Rightarrow> reg_state" where
  "apply_op register unregister shutdown_all (Op_register s) st = register s st"
| "apply_op register unregister shutdown_all (Op_unregister s) st = unregister s st"
| "apply_op register unregister shutdown_all Op_shutdown st = shutdown_all st"

text \<open>While a shutdown is under way every registered session is flagged.\<close>

definition flagged :: "reg_state \<Rightarrow> bool" where
  "flagged st \<longleftrightarrow> (rg_down st \<longrightarrow> list_all (rg_stop st) (rg_head st))"

text \<open>The loop over the list that flags a session and writes to its pipe.\<close>

definition flag_and_wake :: "nat \<Rightarrow> reg_state \<Rightarrow> reg_state" where
  "flag_and_wake s st =
     (let st = st\<lparr>rg_stop := (rg_stop st)(s := True)\<rparr>
      in if rg_wfd st s \<ge> 0 then st\<lparr>rg_pipes := pipe_write (rg_wfd st s) (rg_pipes st)\<rparr> else st)"

lemma flag_and_wake_simps [simp]:
  "rg_head (flag_and_wake s st) = rg_head st" "rg_down (flag_and_wake s st) = rg_down st"
  "rg_wfd (flag_and_wake s st) = rg_wfd st"
  "rg_stop (flag_and_wake s st) = (rg_stop st)(s := True)"
  "dom (rg_pipes (flag_and_wake s st)) = dom (rg_pipes st)"
  by (simp_all add: flag_and_wake_def Let_def)

lemma fold_flag_simps [simp]:
  "rg_head (fold flag_and_wake ss st) = rg_head st" "rg_down (fold flag_and_wake ss st) = rg_down st"
  "rg_wfd (fold flag_and_wake ss st) = rg_wfd st" "dom (rg_pipes (fold flag_and_wake ss st)) = dom (rg_pipes st)"
  by (induction ss arbitrary: st) simp_all

lemma fold_flag_stop: "rg_stop (fold flag_and_wake ss st) s = (rg_stop st s \<or> s \<in> set ss)"
  by (induction ss arbitrary: st) auto

lemma fold_flag_keeps: "pending (rg_pipes st) f \<Longrightarrow> pending (rg_pipes (fold flag_and_wake ss st)) f"
proof (induction ss arbitrary: st)
  case (Cons a ss)
  then have "pending (rg_pipes (flag_and_wake a st)) f"
    by (simp add: flag_and_wake_def Let_def pipe_write_keeps)
  with Cons show ?case by simp
qed simp

lemma fold_flag_pending:
  "s \<in> set ss \<Longrightarrow> 0 \<le> rg_wfd st s \<Longrightarrow> rg_wfd st s \<in> dom (rg_pipes st) \<Longrightarrow>
   pending (rg_pipes (fold flag_and_wake ss st)) (rg_wfd st s)"
proof (induction ss arbitrary: st)
  case (Cons a ss)
  show ?case
  proof (cases "a = s")
    case True
    with Cons.prems have "pending (rg_pipes (flag_and_wake a st)) (rg_wfd st s)"
      by (simp add: flag_and_wake_def Let_def pipe_write_pending)
    then show ?thesis by (simp add: fold_flag_keeps)
  next
    case False
    with Cons.IH [of "flag_and_wake a st"] Cons.prems show ?thesis by simp
  qed
qed simp

lemma fold_flag_other:
  "f \<notin> rg_wfd st ` set ss \<Longrightarrow> rg_pipes (fold flag_and_wake ss st) f = rg_pipes st f"
proof (induction ss arbitrary: st)
  case (Cons a ss)
  then have "rg_pipes (flag_and_wake a st) f = rg_pipes st f"
    by (auto simp: flag_and_wake_def Let_def pipe_write_def split: option.split)
  with Cons show ?case by simp
qed simp

locale registry =
  fixes register :: "nat \<Rightarrow> reg_state \<Rightarrow> reg_state"
    and unregister :: "nat \<Rightarrow> reg_state \<Rightarrow> reg_state"
    and shutdown_all :: "reg_state \<Rightarrow> reg_state"
  assumes register_members: "set (rg_head (register s st)) = insert s (set (rg_head st))"
    and register_stop: "rg_stop (register s st) = (rg_stop st)(s := rg_stop st s \<or> rg_down st)"
    and register_rest: "rg_down (register s st) = rg_down st" "rg_pipes (register s st) = rg_pipes st"
      "rg_wfd (register s st) = rg_wfd st"
    and unregister_head: "rg_head (unregister s st) = remove1 s (rg_head st)"
    and unregister_rest: "rg_down (unregister s st) = rg_down st" "rg_pipes (unregister s st) = rg_pipes st"
      "rg_wfd (unregister s st) = rg_wfd st" "rg_stop (unregister s st) = rg_stop st"
    and shutdown_eq: "shutdown_all st = fold flag_and_wake (rg_head st) (st\<lparr>rg_down := True\<rparr>)"
begin

abbreviation op_step :: "reg_op \<Rightarrow> reg_state \<Rightarrow> reg_state" where
  "op_step \<equiv> apply_op register unregister shutdown_all"

lemma shutdown_members: "rg_head (shutdown_all st) = rg_head st" "rg_down (shutdown_all st)"
  by (simp_all add: shutdown_eq)

lemma shutdown_flags: "s \<in> set (rg_head st) \<Longrightarrow> rg_stop (shutdown_all st) s"
  by (simp add: shutdown_eq fold_flag_stop)

lemma shutdown_wakes:
  "s \<in> set (rg_head st) \<Longrightarrow> 0 \<le> rg_wfd st s \<Longrightarrow> rg_wfd st s \<in> dom (rg_pipes st) \<Longrightarrow>
   pending (rg_pipes (shutdown_all st)) (rg_wfd st s)"
  unfolding shutdown_eq using fold_flag_pending [of s "rg_head st" "st\<lparr>rg_down := True\<rparr>"] by simp

text \<open>A pipe that belongs to no registered session is never written.\<close>

lemma shutdown_other: "f \<notin> rg_wfd st ` set (rg_head st) \<Longrightarrow> rg_pipes (shutdown_all st) f = rg_pipes st f"
  unfolding shutdown_eq using fold_flag_other [of f "st\<lparr>rg_down := True\<rparr>" "rg_head st"] by simp

lemma flagged_op: "flagged st \<Longrightarrow> flagged (op_step op st)"
  by (cases op)
     (auto simp: flagged_def list_all_iff register_members register_stop register_rest unregister_head unregister_rest
        shutdown_members shutdown_flags dest: notin_set_remove1)

lemma down_op: "rg_down st \<Longrightarrow> rg_down (op_step op st)"
  by (cases op) (simp_all add: register_rest unregister_rest shutdown_members)

text \<open>No session survives a shutdown, whatever the order of the calls.\<close>

lemma run_flagged:
  assumes "flagged st" "Op_shutdown \<in> set ops" "s \<in> set (rg_head (fold op_step ops st))"
  shows "rg_stop (fold op_step ops st) s"
proof -
  have fl: "flagged st' \<Longrightarrow> flagged (fold op_step ops st')" for ops st'
    by (induction ops arbitrary: st') (simp_all add: flagged_op)
  have dn: "rg_down st' \<Longrightarrow> rg_down (fold op_step ops st')" for ops st'
    by (induction ops arbitrary: st') (simp_all add: down_op)
  from assms(2) obtain as bs where "ops = as @ Op_shutdown # bs" by (auto simp: in_set_conv_decomp)
  then have "rg_down (fold op_step ops st)" using dn by (simp add: shutdown_members)
  with fl [OF assms(1), of ops] assms(3) show ?thesis by (simp add: flagged_def list_all_iff)
qed

end

end
