(* ===== verification/Telnet_Session.thy ===== *)
theory Telnet_Session
  imports Features Fsm Registry
begin

text \<open>
  The telnet transport, \<^verbatim>\<open>protocol/telnet/telnet_session.c\<close>: the actions and the transition
  table of the session machine, the callbacks of the IAC parser with the deferred
  dispatches, the menu, the registry, session creation, and the event loop. One call of
  \<open>telnet_loop_iter\<close> is one turn of the loop after \<^verbatim>\<open>poll\<close> has returned; what other
  threads do while the session waits is the relation \<open>env_step\<close>.
\<close>

section \<open>Registry\<close>

definition session_register :: "nat \<Rightarrow> reg_state \<Rightarrow> reg_state" where
  "session_register s st =
     (let st = st\<lparr>rg_head := s # rg_head st\<rparr>
      in if rg_down st then st\<lparr>rg_stop := (rg_stop st)(s := True)\<rparr> else st)"

fun unlink :: "nat \<Rightarrow> nat list \<Rightarrow> nat list" where
  "unlink s [] = []"
| "unlink s (p # ps) = (if p = s then ps else p # unlink s ps)"

definition session_unregister :: "nat \<Rightarrow> reg_state \<Rightarrow> reg_state" where
  "session_unregister s st = st\<lparr>rg_head := unlink s (rg_head st)\<rparr>"

definition telnet_shutdown_all :: "reg_state \<Rightarrow> reg_state" where
  "telnet_shutdown_all st = (let st = st\<lparr>rg_down := True\<rparr> in fold flag_and_wake (rg_head st) st)"

section \<open>FSM actions\<close>

definition byte_char :: "byte \<Rightarrow> char" where
  "byte_char b = char_of (unat b)"

definition to_out :: "byte list option \<Rightarrow> string" where
  "to_out r = (case r of None \<Rightarrow> [] | Some bs \<Rightarrow> map byte_char bs)"

definition act_send_negotiations :: "'db tctx \<Rightarrow> telnet_event \<Rightarrow> ev_data \<Rightarrow> 'db tctx \<times> fsm_action_result" where
  "act_send_negotiations cx ev dat =
     (let nego = to_out (iac_write_will 16 TELOPT_ECHO);
          nego = nego @ to_out (iac_write_will (16 - length nego) TELOPT_SGA);
          nego = nego @ to_out (iac_write_do (16 - length nego) TELOPT_NAWS);
          cx = on_session (\<lambda>s. s\<lparr>ts_nego_pending := 3\<rparr>) cx
      in (on_session (\<lambda>s. fst (session_flush (fst (session_append s nego)))) cx, FSM_ACTION_OK))"

definition act_show_main_menu :: "'db tctx \<Rightarrow> telnet_event \<Rightarrow> ev_data \<Rightarrow> 'db tctx \<times> fsm_action_result" where
  "act_show_main_menu cx ev dat =
     (let cx = on_session (\<lambda>s. s\<lparr>ts_pending_selection := -1, ts_game_over_pending := False\<rparr>) cx;
          screen = \<lparr>bs_hostname = ''oetelx.nl'', bs_online = cx_online cx,
                    bs_items = m_items (ts_main_menu (cx_s cx)), bs_left_count = 5\<rparr>
      in (case bbs_render (cx_tm cx) screen TELNET_SEND_BUFSZ of
            None \<Rightarrow> (cx, FSM_ACTION_OK)
          | Some buf \<Rightarrow> (cx_send buf cx, FSM_ACTION_OK)))"

text \<open>Without a payload the action does not return: the assertion fails.\<close>

definition act_handle_menu_key :: "'db tctx \<Rightarrow> telnet_event \<Rightarrow> ev_data \<Rightarrow> 'db tctx \<times> fsm_action_result" where
  "act_handle_menu_key cx ev dat =
     (case dat of
        KeyData key \<Rightarrow>
          if key = CHR ''q'' \<or> key = CHR ''Q'' \<or> ord key = 3
          then (on_session (\<lambda>s. s\<lparr>ts_quit_pending := True\<rparr>) cx, FSM_ACTION_OK)
          else (let sel = menu_handle_key (ts_main_menu (cx_s cx)) key
                in (if sel \<ge> 0 then on_session (\<lambda>s. s\<lparr>ts_pending_selection := sel\<rparr>) cx else cx, FSM_ACTION_OK))
      | _ \<Rightarrow> (cx, FSM_ACTION_OK))"

definition act_start_game :: "'db sqlite \<Rightarrow> 'db tctx \<Rightarrow> telnet_event \<Rightarrow> ev_data \<Rightarrow> 'db tctx \<times> fsm_action_result" where
  "act_start_game sq cx ev dat =
     (case dat of
        SelData sel \<Rightarrow>
          (case mi_user_data (m_items (ts_main_menu (cx_s cx)) ! nat sel) of
             None \<Rightarrow> (cx, FSM_ACTION_ERROR)
           | Some g \<Rightarrow>
              let cx = on_session (\<lambda>s. s\<lparr>ts_active_game := Some g\<rparr>) cx
              in (case go_create (ops_of sq g) cx of (st, cx) \<Rightarrow>
                    let cx = on_session (\<lambda>s. s\<lparr>ts_game_state := st\<rparr>) cx
                    in (case st of
                          None \<Rightarrow> (on_session (\<lambda>s. s\<lparr>ts_active_game := None\<rparr>) cx, FSM_ACTION_ERROR)
                        | Some _ \<Rightarrow> (cx, FSM_ACTION_OK))))
      | _ \<Rightarrow> (cx, FSM_ACTION_OK))"

definition act_game_key :: "'db sqlite \<Rightarrow> 'db tctx \<Rightarrow> telnet_event \<Rightarrow> ev_data \<Rightarrow> 'db tctx \<times> fsm_action_result" where
  "act_game_key sq cx ev dat =
     (case (ts_active_game (cx_s cx), ts_game_state (cx_s cx), dat) of
        (Some g, Some st, KeyData key) \<Rightarrow>
          (case go_handle_key (ops_of sq g) key st cx of (running, st, cx) \<Rightarrow>
             let cx = on_session (\<lambda>s. s\<lparr>ts_game_state := Some st\<rparr>) cx
             in if running then (cx, FSM_ACTION_OK)
                else (let cx = go_destroy (ops_of sq g) st cx
                      in (on_session (\<lambda>s. s\<lparr>ts_game_state := None, ts_active_game := None,
                            ts_game_over_pending := True\<rparr>) cx, FSM_ACTION_OK)))
      | (None, _, _) \<Rightarrow> (on_session (\<lambda>s. s\<lparr>ts_game_over_pending := True\<rparr>) cx, FSM_ACTION_OK)
      | _ \<Rightarrow> (cx, FSM_ACTION_OK))"

definition act_close :: "'db tctx \<Rightarrow> telnet_event \<Rightarrow> ev_data \<Rightarrow> 'db tctx \<times> fsm_action_result" where
  "act_close cx ev dat =
     (let cx = cx_send (crlf @ csi ''1;31mTot ziens!'' @ csi ''0m'' @ crlf) cx
      in (on_session (\<lambda>s. s\<lparr>ts_sock := (ts_sock s)\<lparr>sk_shut := True\<rparr>\<rparr>) cx, FSM_ACTION_OK))"

section \<open>Transition table\<close>

abbreviation row ::
  "telnet_state \<Rightarrow> telnet_event \<Rightarrow> ('c \<Rightarrow> telnet_event \<Rightarrow> ev_data \<Rightarrow> 'c \<times> fsm_action_result) \<Rightarrow>
   telnet_state \<Rightarrow> telnet_state \<Rightarrow> (telnet_state, telnet_event, 'c, ev_data) fsm_transition" where
  "row st ev act nx er \<equiv> \<lparr>t_state = st, t_event = ev, t_action = Some act, t_next = nx, t_error = er\<rparr>"

definition telnet_fsm_table ::
  "'db sqlite \<Rightarrow> (telnet_state, telnet_event, 'db tctx, ev_data) fsm_transition list" where
  "telnet_fsm_table sq =
    [row TSTATE_INIT        TEV_CONNECTED   act_send_negotiations TSTATE_NEGOTIATING TSTATE_CLOSING,
     row TSTATE_NEGOTIATING TEV_NEGO_DONE   act_show_main_menu    TSTATE_MAIN_MENU   TSTATE_CLOSING,
     row TSTATE_NEGOTIATING TEV_KEY_INPUT   act_show_main_menu    TSTATE_MAIN_MENU   TSTATE_CLOSING,
     row TSTATE_MAIN_MENU   TEV_KEY_INPUT   act_handle_menu_key   TSTATE_MAIN_MENU   TSTATE_CLOSING,
     row TSTATE_MAIN_MENU   TEV_MENU_SELECT (act_start_game sq)   TSTATE_IN_GAME     TSTATE_MAIN_MENU,
     row TSTATE_IN_GAME     TEV_KEY_INPUT   (act_game_key sq)     TSTATE_IN_GAME     TSTATE_CLOSING,
     row TSTATE_IN_GAME     TEV_GAME_OVER   act_show_main_menu    TSTATE_MAIN_MENU   TSTATE_CLOSING,
     row TSTATE_INIT        TEV_DISCONNECT  act_close             TSTATE_CLOSED      TSTATE_CLOSED,
     row TSTATE_NEGOTIATING TEV_DISCONNECT  act_close             TSTATE_CLOSED      TSTATE_CLOSED,
     row TSTATE_MAIN_MENU   TEV_DISCONNECT  act_close             TSTATE_CLOSED      TSTATE_CLOSED,
     row TSTATE_IN_GAME     TEV_DISCONNECT  act_close             TSTATE_CLOSED      TSTATE_CLOSED,
     row TSTATE_CLOSING     TEV_DISCONNECT  act_close             TSTATE_CLOSED      TSTATE_CLOSED,
     row TSTATE_MAIN_MENU   TEV_TIMEOUT     act_close             TSTATE_CLOSED      TSTATE_CLOSED,
     row TSTATE_IN_GAME     TEV_TIMEOUT     act_close             TSTATE_CLOSED      TSTATE_CLOSED]"

definition telnet_fsm_def :: "'db sqlite \<Rightarrow> (telnet_state, telnet_event, 'db tctx, ev_data) fsm_def" where
  "telnet_fsm_def sq = \<lparr>fsm_table = telnet_fsm_table sq, initial_state = TSTATE_INIT,
     terminal_state = TSTATE_CLOSED\<rparr>"

text \<open>\<^verbatim>\<open>fsm_dispatch (&s->fsm, ev, s, data)\<close>\<close>

definition tdispatch :: "'db sqlite \<Rightarrow> telnet_event \<Rightarrow> ev_data \<Rightarrow> 'db tctx \<Rightarrow> 'db tctx" where
  "tdispatch sq ev dat cx =
     (case fsm_dispatch (telnet_fsm_def sq) (ts_fsm (cx_s cx)) ev cx dat of
        (rc, st, cx) \<Rightarrow> on_session (\<lambda>s. s\<lparr>ts_fsm := st\<rparr>) cx)"

definition terminal :: "'db tctx \<Rightarrow> bool" where
  "terminal cx \<longleftrightarrow> ts_fsm (cx_s cx) = TSTATE_CLOSED"

section \<open>IAC callbacks\<close>

text \<open>The body of the loop of \<^verbatim>\<open>on_data\<close> for one key.\<close>

definition on_key :: "'db sqlite \<Rightarrow> char \<Rightarrow> 'db tctx \<Rightarrow> 'db tctx" where
  "on_key sq key cx =
     (let cx = tdispatch sq TEV_KEY_INPUT (KeyData key) cx;
          cx = (if ts_game_over_pending (cx_s cx) \<and> \<not> terminal cx
                then tdispatch sq TEV_GAME_OVER NoData (on_session (\<lambda>s. s\<lparr>ts_game_over_pending := False\<rparr>) cx)
                else cx);
          cx = (if ts_quit_pending (cx_s cx) \<and> \<not> terminal cx
                then tdispatch sq TEV_DISCONNECT NoData (on_session (\<lambda>s. s\<lparr>ts_quit_pending := False\<rparr>) cx)
                else cx)
      in if ts_pending_selection (cx_s cx) \<ge> 0 \<and> \<not> terminal cx
         then (let sel = ts_pending_selection (cx_s cx)
               in tdispatch sq TEV_MENU_SELECT (SelData sel) (on_session (\<lambda>s. s\<lparr>ts_pending_selection := -1\<rparr>) cx))
         else cx)"

fun on_data :: "'db sqlite \<Rightarrow> byte list \<Rightarrow> 'db tctx \<Rightarrow> 'db tctx" where
  "on_data sq [] cx = cx"
| "on_data sq (b # bs) cx =
     (if b = 0 then on_data sq bs cx
      else if terminal cx then cx
      else on_data sq bs (on_key sq (byte_char b) cx))"

text \<open>The four conditional assignments at the start of \<^verbatim>\<open>on_option\<close>.\<close>

definition record_option :: "iac_option_event \<Rightarrow> telnet_session \<Rightarrow> telnet_session" where
  "record_option ev s =
     (let s = (if oe_cmd ev = TELNET_WILL \<and> oe_opt ev = TELOPT_NAWS then s\<lparr>ts_naws_ok := True\<rparr> else s);
          s = (if oe_cmd ev = TELNET_DO \<and> oe_opt ev = TELOPT_ECHO then s\<lparr>ts_echo_ok := True\<rparr> else s);
          s = (if oe_cmd ev = TELNET_DO \<and> oe_opt ev = TELOPT_SGA then s\<lparr>ts_sga_ok := True\<rparr> else s)
      in if oe_cmd ev = TELNET_DONT \<and> oe_opt ev = TELOPT_ECHO then s\<lparr>ts_echo_ok := False\<rparr> else s)"

definition on_option :: "'db sqlite \<Rightarrow> iac_option_event \<Rightarrow> 'db tctx \<Rightarrow> 'db tctx" where
  "on_option sq ev cx =
     (let cx = on_session (record_option ev) cx
      in if ts_nego_pending (cx_s cx) > 0
         then (let cx = on_session (\<lambda>s. s\<lparr>ts_nego_pending := ts_nego_pending s - 1\<rparr>) cx
               in if ts_nego_pending (cx_s cx) = 0 \<and> \<not> terminal cx then tdispatch sq TEV_NEGO_DONE NoData cx else cx)
         else cx)"

definition be16 :: "byte \<Rightarrow> byte \<Rightarrow> 16 word" where
  "be16 hi lo = or (push_bit 8 (ucast hi)) (ucast lo)"

definition on_subneg :: "'db sqlite \<Rightarrow> iac_sb_event \<Rightarrow> 'db tctx \<Rightarrow> 'db tctx" where
  "on_subneg sq ev cx =
     (if se_opt ev = TELOPT_NAWS \<and> se_len ev \<ge> 4
      then tdispatch sq TEV_NAWS NoData (on_session (\<lambda>s.
             s\<lparr>ts_term_cols := be16 (se_data ev ! 0) (se_data ev ! 1),
               ts_term_rows := be16 (se_data ev ! 2) (se_data ev ! 3)\<rparr>) cx)
      else cx)"

definition iac_cbs :: "'db sqlite \<Rightarrow> 'db tctx iac_callbacks" where
  "iac_cbs sq = \<lparr>cb_on_data = Some (\<lambda>cx bs. on_data sq bs cx), cb_on_option = Some (\<lambda>cx ev. on_option sq ev cx),
     cb_on_subneg = Some (\<lambda>cx ev. on_subneg sq ev cx)\<rparr>"

section \<open>Menu and session creation\<close>

text \<open>\<^verbatim>\<open>strncpy\<close> with the forced terminator keeps at most 47 characters of the label.\<close>

definition menu_add :: "char \<Rightarrow> string \<Rightarrow> game option \<Rightarrow> game menu \<Rightarrow> game menu" where
  "menu_add key label ops m =
     m\<lparr>m_items := m_items m @ [\<lparr>mi_label = take (MENU_LABEL_MAX - 1) (cstr label), mi_key = key, mi_user_data = ops\<rparr>]\<rparr>"

definition setup_main_menu :: "game menu \<Rightarrow> game menu" where
  "setup_main_menu m =
     (let m = m\<lparr>m_items := []\<rparr>;
          m = menu_add (CHR ''c'') ''Chess'' (Some Game_chess) m;
          m = menu_add (CHR ''b'') ''Backgammon'' (Some Game_backgammon) m;
          m = menu_add (CHR ''a'') ''Text Adventure'' (Some Feature_text_adventure) m;
          m = menu_add (CHR ''t'') ''Trivia'' (Some Feature_trivia) m;
          m = menu_add (CHR ''r'') ''Reversi'' (Some Feature_reversi) m;
          m = menu_add (CHR ''w'') (''Who'' @ [CHR 0x27] @ ''s Online'') (Some Feature_whosonline) m;
          m = menu_add (CHR ''p'') ''Profiel'' (Some Feature_profile) m;
          m = menu_add (CHR ''n'') ''Alias instellen'' (Some Feature_alias) m;
          m = menu_add (CHR ''g'') ''Chat rooms'' (Some Chat_feature) m;
          m = menu_add (CHR ''m'') ''Message board'' (Some Feature_messageboard) m;
          m = menu_add (CHR ''h'') ''Help'' (Some Feature_help) m
      in menu_add (CHR ''q'') ''Uitloggen'' None m)"

text \<open>A zeroed menu: no title, colors 0.\<close>

definition menu_zero :: "game menu" where
  "menu_zero = \<lparr>m_title = None, m_subtitle = None, m_items = [], m_title_color = ANSI_BLACK,
     m_item_color = ANSI_BLACK, m_key_color = ANSI_BLACK\<rparr>"

text \<open>\<open>mem\<close>: whether \<^verbatim>\<open>malloc\<close> succeeds; \<open>pipe2\<close>: the two ends, or \<open>None\<close> when the call fails.\<close>

definition telnet_create_session ::
  "'db sqlite \<Rightarrow> sock \<Rightarrow> bool \<Rightarrow> bool \<Rightarrow> (fd \<times> fd) option \<Rightarrow> telnet_session option" where
  "telnet_create_session sq sk peer mem pipe2 =
     (if \<not> peer then None
      else if \<not> mem then None
      else (let fds = (case pipe2 of None \<Rightarrow> (-1, -1) | Some p \<Rightarrow> p)
            in Some \<lparr>ts_sock = sk, ts_fsm = fsm_init (telnet_fsm_def sq),
                 ts_iac = iac_parser_init, ts_main_menu = setup_main_menu menu_zero, ts_active_game = None,
                 ts_game_state = None, ts_term_cols = 80, ts_term_rows = 24, ts_send_buf = [],
                 ts_echo_ok = False, ts_sga_ok = False, ts_naws_ok = False, ts_nego_pending = 0,
                 ts_pending_selection = -1, ts_game_over_pending = False, ts_quit_pending = False,
                 ts_shutdown_requested = False, ts_username = [], ts_notify_rfd = fst fds,
                 ts_notify_wfd = snd fds, ts_on_notify = None\<rparr>))"

section \<open>The event loop\<close>

text \<open>What \<^verbatim>\<open>poll\<close> reported and \<^verbatim>\<open>recv\<close> then returned: an error other than \<^verbatim>\<open>EINTR\<close>, an
  interruption, a timeout, or readiness of the pipe and of the socket with the bytes
  received (none: the peer is gone or the call failed).\<close>

datatype poll_event = Poll_error | Poll_eintr | Poll_timeout | Poll_ready bool bool "byte list"

datatype 'a loop_result = Continue 'a | Break 'a

definition telnet_timeout_ms :: "telnet_session \<Rightarrow> int \<Rightarrow> int \<Rightarrow> int" where
  "telnet_timeout_ms s now nego_deadline =
     (let wait = nego_deadline - now
      in if ts_nego_pending s > 0 \<and> wait > 0 then wait * 1000 else TELNET_IDLE_TIMEOUT * 1000)"

definition telnet_drain :: "'db tctx \<Rightarrow> 'db tctx" where
  "telnet_drain cx = on_world (\<lambda>w. w\<lparr>w_pipes := pipe_drain (ts_notify_wfd (cx_s cx)) (w_pipes w)\<rparr>) cx"

definition call_on_notify :: "'db sqlite \<Rightarrow> 'db tctx \<Rightarrow> 'db tctx" where
  "call_on_notify sq cx =
     (case ts_on_notify (cx_s cx) of None \<Rightarrow> cx | Some Chat_on_notify \<Rightarrow> chat_on_notify sq cx)"

definition telnet_recv :: "'db sqlite \<Rightarrow> byte list \<Rightarrow> 'db tctx \<Rightarrow> 'db tctx" where
  "telnet_recv sq bytes cx =
     (case iac_parser_feed (iac_cbs sq) (ts_iac (cx_s cx)) bytes cx of
        (p, cx) \<Rightarrow> on_session (\<lambda>s. s\<lparr>ts_iac := p\<rparr>) cx)"

definition telnet_loop_iter ::
  "'db sqlite \<Rightarrow> poll_event \<Rightarrow> int \<Rightarrow> 'db tctx \<Rightarrow> ('db tctx \<times> int) loop_result" where
  "telnet_loop_iter sq ev nego_deadline cx =
     (case ev of
        Poll_error \<Rightarrow> Break (cx, nego_deadline)
      | Poll_eintr \<Rightarrow> Continue (cx, nego_deadline)
      | Poll_timeout \<Rightarrow>
          if ts_nego_pending (cx_s cx) > 0
          then Continue (tdispatch sq TEV_NEGO_DONE NoData (on_session (\<lambda>s. s\<lparr>ts_nego_pending := 0\<rparr>) cx), 0)
          else Continue (tdispatch sq TEV_TIMEOUT NoData cx, nego_deadline)
      | Poll_ready notify sock_ready bytes \<Rightarrow>
          let woken = ts_notify_rfd (cx_s cx) \<ge> 0 \<and> notify;
              cx = (if woken then telnet_drain cx else cx)
          in if woken \<and> ts_shutdown_requested (cx_s cx) then Break (cx, nego_deadline)
             else let cx = (if woken then call_on_notify sq cx else cx)
                  in if \<not> sock_ready then Continue (cx, nego_deadline)
                     else if bytes = [] then Break (tdispatch sq TEV_DISCONNECT NoData cx, nego_deadline)
                     else Continue (telnet_recv sq bytes cx, nego_deadline))"

text \<open>A turn: what other threads did while the session waited, and what the wait reported.\<close>

record 'db turn =
  tu_env :: "'db tctx \<Rightarrow> 'db tctx"
  tu_poll :: poll_event

text \<open>\<open>None\<close>: the turns are used up and the loop is waiting again.\<close>

fun telnet_loop :: "'db sqlite \<Rightarrow> 'db turn list \<Rightarrow> int \<Rightarrow> 'db tctx \<Rightarrow> 'db tctx option" where
  "telnet_loop sq [] nego_deadline cx =
     (if terminal cx \<or> ts_shutdown_requested (cx_s cx) then Some cx else None)"
| "telnet_loop sq (t # ts) nego_deadline cx =
     (if terminal cx \<or> ts_shutdown_requested (cx_s cx) then Some cx
      else (case telnet_loop_iter sq (tu_poll t) nego_deadline (tu_env t cx) of
              Break (cx, _) \<Rightarrow> Some cx
            | Continue (cx, nego_deadline) \<Rightarrow> telnet_loop sq ts nego_deadline cx))"

definition telnet_begin :: "'db sqlite \<Rightarrow> 'db tctx \<Rightarrow> 'db tctx" where
  "telnet_begin sq cx = tdispatch sq TEV_CONNECTED NoData (cx\<lparr>cx_online := cx_online cx + 1\<rparr>)"

text \<open>After the loop: destroy a running feature, then close both pipe ends and the socket.\<close>

definition telnet_end_game :: "'db sqlite \<Rightarrow> 'db tctx \<Rightarrow> 'db tctx" where
  "telnet_end_game sq cx =
     (case (ts_active_game (cx_s cx), ts_game_state (cx_s cx)) of
        (Some g, Some st) \<Rightarrow>
          on_session (\<lambda>s. s\<lparr>ts_game_state := None, ts_active_game := None\<rparr>) (go_destroy (ops_of sq g) st cx)
      | _ \<Rightarrow> cx)"

definition telnet_close :: "'db tctx \<Rightarrow> 'db tctx" where
  "telnet_close cx =
     (let wfd = ts_notify_wfd (cx_s cx);
          cx = (if wfd \<ge> 0 then on_world (\<lambda>w. w\<lparr>w_pipes := (w_pipes w)(wfd := None)\<rparr>) cx else cx);
          cx = cx\<lparr>cx_online := cx_online cx - 1\<rparr>
      in on_session (\<lambda>s. s\<lparr>ts_sock := (ts_sock s)\<lparr>sk_closed := True\<rparr>\<rparr>) cx)"

text \<open>\<open>self\<close> is the session in the registry. The first component of the result tells
  whether the loop has ended.\<close>

definition telnet_run_session ::
  "'db sqlite \<Rightarrow> nat \<Rightarrow> int \<Rightarrow> 'db turn list \<Rightarrow> reg_state \<Rightarrow> 'db tctx \<Rightarrow> (reg_state \<times> 'db tctx) option" where
  "telnet_run_session sq self now turns rg cx =
     (let rg = session_register self rg;
          cx = (if rg_stop rg self then on_session (\<lambda>s. s\<lparr>ts_shutdown_requested := True\<rparr>) cx else cx);
          cx = telnet_begin sq cx
      in case telnet_loop sq turns (now + TELNET_NEGO_TIMEOUT) cx of
           None \<Rightarrow> None
         | Some cx \<Rightarrow>
            let cx = telnet_end_game sq cx
            in Some (session_unregister self rg, telnet_close cx))"

definition telnet_request_shutdown :: "telnet_session option \<Rightarrow> telnet_session option" where
  "telnet_request_shutdown s = map_option (\<lambda>s. s\<lparr>ts_shutdown_requested := True\<rparr>) s"

section \<open>The registry keeps its contract\<close>

lemma unlink_remove1: "unlink s xs = remove1 s xs"
  by (induction xs) auto

interpretation telnet_reg: registry session_register session_unregister telnet_shutdown_all
  by unfold_locales
     (auto simp: session_register_def session_unregister_def telnet_shutdown_all_def unlink_remove1 Let_def fun_eq_iff)

section \<open>Reads can be cut anywhere\<close>

lemma on_data_append: "on_data sq (xs @ ys) cx = on_data sq ys (on_data sq xs cx)"
proof -
  have "terminal c \<Longrightarrow> on_data sq ys c = c" for c by (induction ys) auto
  then show ?thesis by (induction xs arbitrary: cx) auto
qed

interpretation telnet_sink: iac_sink "iac_cbs sq" for sq
  by unfold_locales (simp add: call_data_def iac_cbs_def on_data_append)

text \<open>C33: What a session does depends on the byte stream the client sent and not on how the
  network cut it into reads: receiving two pieces one after the other has the effect of
  receiving them at once.\<close>

theorem telnet_feed_split:
  "iac_parser_feed (iac_cbs sq) p (xs @ ys) cx =
     (case iac_parser_feed (iac_cbs sq) p xs cx of (p', cx') \<Rightarrow> iac_parser_feed (iac_cbs sq) p' ys cx')"
  by (rule telnet_sink.feed_append)

section \<open>The session invariant\<close>

text \<open>The invariants of the features read these parts of the context only.\<close>

definition view :: "'db tctx \<Rightarrow> 'db chat_world \<times> bool \<times> string \<times> notify_handler option \<times> fd" where
  "view cx = (cx_w cx, cx_overread cx, ts_username (cx_s cx), ts_on_notify (cx_s cx), ts_notify_wfd (cx_s cx))"

lemma view_cong:
  assumes "view cx' = view cx"
  shows "menu_ok cx' = menu_ok cx" "chat_inv c cx' = chat_inv c cx" "game_inv g st cx' = game_inv g st cx"
  using assms by (auto simp: view_def menu_ok_def chat_inv_def game_inv_def split: game_state.split)

lemma view_session [simp]:
  "view (on_session (\<lambda>s. s\<lparr>ts_fsm := a\<rparr>) cx) = view cx"
  "view (on_session (\<lambda>s. s\<lparr>ts_iac := p\<rparr>) cx) = view cx"
  "view (on_session (\<lambda>s. s\<lparr>ts_nego_pending := n\<rparr>) cx) = view cx"
  "view (on_session (\<lambda>s. s\<lparr>ts_nego_pending := ts_nego_pending s - 1\<rparr>) cx) = view cx"
  "view (on_session (\<lambda>s. s\<lparr>ts_game_state := gs\<rparr>) cx) = view cx"
  "view (on_session (\<lambda>s. s\<lparr>ts_active_game := ag\<rparr>) cx) = view cx"
  "view (on_session (\<lambda>s. s\<lparr>ts_game_state := gs, ts_active_game := ag\<rparr>) cx) = view cx"
  "view (on_session (\<lambda>s. s\<lparr>ts_game_state := gs, ts_active_game := ag, ts_game_over_pending := b\<rparr>) cx) = view cx"
  "view (on_session (\<lambda>s. s\<lparr>ts_pending_selection := i, ts_game_over_pending := b\<rparr>) cx) = view cx"
  "view (on_session (\<lambda>s. s\<lparr>ts_pending_selection := i\<rparr>) cx) = view cx"
  "view (on_session (\<lambda>s. s\<lparr>ts_game_over_pending := b\<rparr>) cx) = view cx"
  "view (on_session (\<lambda>s. s\<lparr>ts_quit_pending := b\<rparr>) cx) = view cx"
  "view (on_session (\<lambda>s. s\<lparr>ts_shutdown_requested := b\<rparr>) cx) = view cx"
  "view (on_session (\<lambda>s. s\<lparr>ts_term_cols := w1, ts_term_rows := w2\<rparr>) cx) = view cx"
  "view (on_session (\<lambda>s. s\<lparr>ts_sock := k s\<rparr>) cx) = view cx"
  "view (cx_send str cx) = view cx"
  by (simp_all add: view_def on_session_def)

lemmas view_keeps [simp] =
  view_cong [OF view_session(1)]
  view_cong [OF view_session(2)]
  view_cong [OF view_session(3)]
  view_cong [OF view_session(4)]
  view_cong [OF view_session(5)]
  view_cong [OF view_session(6)]
  view_cong [OF view_session(7)]
  view_cong [OF view_session(8)]
  view_cong [OF view_session(9)]
  view_cong [OF view_session(10)]
  view_cong [OF view_session(11)]
  view_cong [OF view_session(12)]
  view_cong [OF view_session(13)]
  view_cong [OF view_session(14)]
  view_cong [OF view_session(15)]
  view_cong [OF view_session(16)]

definition main_menu :: "game menu" where
  "main_menu = setup_main_menu menu_zero"

definition minv :: "telnet_state \<Rightarrow> 'db tctx \<Rightarrow> bool" where
  "minv st cx \<longleftrightarrow> st \<noteq> TSTATE_CLOSING \<and> ts_main_menu (cx_s cx) = main_menu
     \<and> (case ts_active_game (cx_s cx) of
          None \<Rightarrow> ts_game_state (cx_s cx) = None \<and> menu_ok cx
        | Some g \<Rightarrow> (st = TSTATE_IN_GAME \<or> st = TSTATE_CLOSED)
            \<and> (case ts_game_state (cx_s cx) of None \<Rightarrow> False | Some gs \<Rightarrow> game_inv g gs cx))"

text \<open>The payload a row relies on: its \<^verbatim>\<open>assert\<close>s.\<close>

definition tallowed :: "telnet_state \<Rightarrow> telnet_event \<Rightarrow> ev_data \<Rightarrow> 'db tctx \<Rightarrow> bool" where
  "tallowed st ev dat cx =
     (case ev of
        TEV_KEY_INPUT \<Rightarrow> (case dat of KeyData k \<Rightarrow> True | _ \<Rightarrow> False)
      | TEV_MENU_SELECT \<Rightarrow> (case dat of SelData i \<Rightarrow> 0 \<le> i \<and> nat i < length (m_items main_menu) | _ \<Rightarrow> False)
      | TEV_GAME_OVER \<Rightarrow> ts_active_game (cx_s cx) = None
      | _ \<Rightarrow> True)"

lemma ctlD:
  assumes "ctl cx' = ctl cx"
  shows "ts_fsm (cx_s cx') = ts_fsm (cx_s cx)" "ts_main_menu (cx_s cx') = ts_main_menu (cx_s cx)"
    "ts_active_game (cx_s cx') = ts_active_game (cx_s cx)" "ts_game_state (cx_s cx') = ts_game_state (cx_s cx)"
    "ts_nego_pending (cx_s cx') = ts_nego_pending (cx_s cx)"
    "ts_pending_selection (cx_s cx') = ts_pending_selection (cx_s cx)"
    "ts_game_over_pending (cx_s cx') = ts_game_over_pending (cx_s cx)"
    "ts_quit_pending (cx_s cx') = ts_quit_pending (cx_s cx)"
    "ts_shutdown_requested (cx_s cx') = ts_shutdown_requested (cx_s cx)"
    "ts_notify_rfd (cx_s cx') = ts_notify_rfd (cx_s cx)" "ts_notify_wfd (cx_s cx') = ts_notify_wfd (cx_s cx)"
    "cx_mem cx' = cx_mem cx" "cx_online cx' = cx_online cx"
  using assms by (simp_all add: ctl_def Let_def)

lemma cx_s_on_session [simp]: "cx_s (on_session f cx) = f (cx_s cx)"
  by (simp add: on_session_def)

lemma minv_frame:
  assumes "view cx' = view cx" "ts_main_menu (cx_s cx') = ts_main_menu (cx_s cx)"
    "ts_active_game (cx_s cx') = ts_active_game (cx_s cx)" "ts_game_state (cx_s cx') = ts_game_state (cx_s cx)"
  shows "minv st cx' = minv st cx"
  unfolding minv_def view_cong [OF assms(1)] assms(2-4) ..

section \<open>Each action\<close>

text \<open>The flags the actions raise.\<close>

definition flags :: "'db tctx \<Rightarrow> int \<times> bool \<times> bool" where
  "flags cx = (ts_pending_selection (cx_s cx), ts_game_over_pending (cx_s cx), ts_quit_pending (cx_s cx))"

lemma view_frames [simp]:
  "ts_active_game (cx_s (cx_send str cx)) = ts_active_game (cx_s cx)"
  by simp

lemma act_show_main_menu_facts:
  assumes "act_show_main_menu cx ev dat = (cx', res)"
  shows "res = FSM_ACTION_OK" "view cx' = view cx" "flags cx' = (-1, False, ts_quit_pending (cx_s cx))"
    "ts_main_menu (cx_s cx') = ts_main_menu (cx_s cx)" "ts_active_game (cx_s cx') = ts_active_game (cx_s cx)"
    "ts_game_state (cx_s cx') = ts_game_state (cx_s cx)" "ts_shutdown_requested (cx_s cx') = ts_shutdown_requested (cx_s cx)"
  using assms by (auto simp: act_show_main_menu_def Let_def flags_def split: option.splits)

lemma act_handle_menu_key_facts:
  assumes "act_handle_menu_key cx ev (KeyData key) = (cx', res)"
  shows "res = FSM_ACTION_OK" "view cx' = view cx"
    "ts_main_menu (cx_s cx') = ts_main_menu (cx_s cx)" "ts_active_game (cx_s cx') = ts_active_game (cx_s cx)"
    "ts_game_state (cx_s cx') = ts_game_state (cx_s cx)" "ts_shutdown_requested (cx_s cx') = ts_shutdown_requested (cx_s cx)"
    "flags cx' = (if key = CHR ''q'' \<or> key = CHR ''Q'' \<or> ord key = 3
         then (ts_pending_selection (cx_s cx), ts_game_over_pending (cx_s cx), True)
         else (if menu_handle_key (ts_main_menu (cx_s cx)) key \<ge> 0
               then menu_handle_key (ts_main_menu (cx_s cx)) key else ts_pending_selection (cx_s cx),
               ts_game_over_pending (cx_s cx), ts_quit_pending (cx_s cx)))"
  using assms by (auto simp: act_handle_menu_key_def Let_def flags_def split: if_splits)

lemma act_close_facts:
  assumes "act_close cx ev dat = (cx', res)"
  shows "res = FSM_ACTION_OK" "flags cx' = flags cx" "view cx' = view cx"
    "ts_main_menu (cx_s cx') = ts_main_menu (cx_s cx)" "ts_active_game (cx_s cx') = ts_active_game (cx_s cx)"
    "ts_game_state (cx_s cx') = ts_game_state (cx_s cx)" "ts_shutdown_requested (cx_s cx') = ts_shutdown_requested (cx_s cx)"
  using assms by (auto simp: act_close_def Let_def flags_def)

lemma act_send_negotiations_facts:
  assumes "act_send_negotiations cx ev dat = (cx', res)"
  shows "res = FSM_ACTION_OK" "flags cx' = flags cx" "view cx' = view cx"
    "ts_main_menu (cx_s cx') = ts_main_menu (cx_s cx)" "ts_active_game (cx_s cx') = ts_active_game (cx_s cx)"
    "ts_game_state (cx_s cx') = ts_game_state (cx_s cx)" "ts_shutdown_requested (cx_s cx') = ts_shutdown_requested (cx_s cx)"
proof -
  obtain nego where cx': "cx' = on_session (\<lambda>s. fst (session_flush (fst (session_append s nego))))
      (on_session (\<lambda>s. s\<lparr>ts_nego_pending := 3\<rparr>) cx)" and res: "res = FSM_ACTION_OK"
    using assms by (auto simp: act_send_negotiations_def Let_def)
  obtain sk b where "fst (session_flush (fst (session_append ((cx_s cx)\<lparr>ts_nego_pending := 3\<rparr>) nego)))
      = (cx_s cx)\<lparr>ts_nego_pending := 3\<rparr>\<lparr>ts_sock := sk, ts_send_buf := b\<rparr>"
    using flush_append_out by blast
  then have "cx_s cx' = (cx_s cx)\<lparr>ts_nego_pending := 3\<rparr>\<lparr>ts_sock := sk, ts_send_buf := b\<rparr>" "cx_w cx' = cx_w cx"
    "cx_overread cx' = cx_overread cx"
    by (simp_all add: cx' on_session_def)
  then show "res = FSM_ACTION_OK" "flags cx' = flags cx" "view cx' = view cx"
    "ts_main_menu (cx_s cx') = ts_main_menu (cx_s cx)" "ts_active_game (cx_s cx') = ts_active_game (cx_s cx)"
    "ts_game_state (cx_s cx') = ts_game_state (cx_s cx)" "ts_shutdown_requested (cx_s cx') = ts_shutdown_requested (cx_s cx)"
    by (simp_all add: res flags_def view_def)
qed

lemma minv_state:
  "minv st cx \<Longrightarrow> st' \<noteq> TSTATE_CLOSING \<Longrightarrow> ts_active_game (cx_s cx) = None \<or> st' = TSTATE_CLOSED \<or> st' = TSTATE_IN_GAME
   \<Longrightarrow> minv st' cx"
  by (auto simp: minv_def split: option.splits)

lemma act_start_game_facts:
  assumes "minv TSTATE_MAIN_MENU cx" "act_start_game sq cx ev (SelData sel) = (cx', res)"
  shows "minv (if res = FSM_ACTION_OK then TSTATE_IN_GAME else TSTATE_MAIN_MENU) cx'" "flags cx' = flags cx"
    "ts_shutdown_requested (cx_s cx') = ts_shutdown_requested (cx_s cx)"
    "res = FSM_ACTION_OK \<Longrightarrow> ts_active_game (cx_s cx') \<noteq> None"
proof -
  have idle: "ts_active_game (cx_s cx) = None" "ts_game_state (cx_s cx) = None" "menu_ok cx"
    and menu: "ts_main_menu (cx_s cx) = main_menu"
    using assms(1) by (auto simp: minv_def split: option.splits)
  have "minv (if res = FSM_ACTION_OK then TSTATE_IN_GAME else TSTATE_MAIN_MENU) cx' \<and> flags cx' = flags cx
    \<and> ts_shutdown_requested (cx_s cx') = ts_shutdown_requested (cx_s cx)
    \<and> (res = FSM_ACTION_OK \<longrightarrow> ts_active_game (cx_s cx') \<noteq> None)"
  proof (cases "mi_user_data (m_items (ts_main_menu (cx_s cx)) ! nat sel)")
    case None
    with assms idle show ?thesis by (simp add: act_start_game_def)
  next
    case (Some g)
    define cx1 where "cx1 = on_session (\<lambda>s. s\<lparr>ts_active_game := Some g\<rparr>) cx"
    obtain st cx2 where cr: "go_create (ops_of sq g) cx1 = (st, cx2)" by fastforce
    have ok1: "menu_ok cx1" using idle(3) by (simp add: cx1_def)
    note c2 = ctlD [OF games.create_ctl [OF cr]]
    show ?thesis
    proof (cases st)
      case None
      then have "menu_ok cx2" using games.create_failed [OF ok1] cr by simp
      moreover have "cx' = on_session (\<lambda>s. s\<lparr>ts_active_game := None\<rparr>) (on_session (\<lambda>s. s\<lparr>ts_game_state := None\<rparr>) cx2)"
        "res = FSM_ACTION_ERROR"
        using assms(2) Some None cr by (auto simp: act_start_game_def Let_def cx1_def)
      ultimately show ?thesis
        using c2 menu by (simp add: minv_def flags_def cx1_def)
    next
      case (Some gs)
      then have "game_inv g gs cx2" using games.create_inv [OF ok1] cr by simp
      moreover have "cx' = on_session (\<lambda>s. s\<lparr>ts_game_state := Some gs\<rparr>) cx2" "res = FSM_ACTION_OK"
        using assms(2) \<open>mi_user_data _ = Some g\<close> Some cr by (auto simp: act_start_game_def Let_def cx1_def)
      ultimately show ?thesis
        using c2 menu by (simp add: minv_def flags_def cx1_def)
    qed
  qed
  then show "minv (if res = FSM_ACTION_OK then TSTATE_IN_GAME else TSTATE_MAIN_MENU) cx'" "flags cx' = flags cx"
    "ts_shutdown_requested (cx_s cx') = ts_shutdown_requested (cx_s cx)"
    "res = FSM_ACTION_OK \<Longrightarrow> ts_active_game (cx_s cx') \<noteq> None" by blast+
qed

lemma act_game_key_facts:
  assumes "minv TSTATE_IN_GAME cx" "act_game_key sq cx ev (KeyData key) = (cx', res)"
  shows "minv TSTATE_IN_GAME cx' \<and> res = FSM_ACTION_OK \<and> (ts_active_game (cx_s cx) \<noteq> None \<longrightarrow>
      flags cx' = (ts_pending_selection (cx_s cx), ts_active_game (cx_s cx') = None \<or> ts_game_over_pending (cx_s cx),
        ts_quit_pending (cx_s cx)))
    \<and> ts_shutdown_requested (cx_s cx') = ts_shutdown_requested (cx_s cx)"
proof (cases "ts_active_game (cx_s cx)")
  case None
  with assms show ?thesis
    by (auto simp: act_game_key_def minv_def split: option.splits)
next
  case (Some g)
  then obtain st where st: "ts_game_state (cx_s cx) = Some st" "game_inv g st cx"
    and menu: "ts_main_menu (cx_s cx) = main_menu"
    using assms(1) by (auto simp: minv_def split: option.splits)
  obtain run st1 cx1 where hk: "go_handle_key (ops_of sq g) key st cx = (run, st1, cx1)"
    by (metis prod.exhaust)
  define cx2 where "cx2 = on_session (\<lambda>s. s\<lparr>ts_game_state := Some st1\<rparr>) cx1"
  have inv1: "game_inv g st1 cx2" using games.key_inv [OF st(2) hk] by (simp add: cx2_def)
  note c1 = ctlD [OF games.key_ctl [OF hk]]
  show ?thesis
  proof (cases run)
    case True
    then have "cx' = cx2" "res = FSM_ACTION_OK"
      using assms(2) Some st(1) hk by (auto simp: act_game_key_def cx2_def)
    with inv1 c1 menu Some show ?thesis by (simp add: minv_def cx2_def flags_def)
  next
    case False
    define cx3 where "cx3 = go_destroy (ops_of sq g) st1 cx2"
    have "menu_ok cx3" unfolding cx3_def using inv1 by (rule games.destroy_inv)
    note c3 = ctlD [OF games.destroy_ctl [of sq g st1 cx2, folded cx3_def]]
    have "cx' = on_session (\<lambda>s. s\<lparr>ts_game_state := None, ts_active_game := None, ts_game_over_pending := True\<rparr>) cx3"
      "res = FSM_ACTION_OK"
      using assms(2) Some st(1) hk False by (auto simp: act_game_key_def cx2_def cx3_def Let_def)
    with \<open>menu_ok cx3\<close> c1 c3 menu show ?thesis
      by (simp add: minv_def flags_def cx2_def)
  qed
qed

section \<open>The machine keeps the invariant\<close>

lemma main_menu_items: "length (m_items main_menu) = 12"
  by (simp add: main_menu_def setup_main_menu_def menu_add_def menu_zero_def Let_def)

lemma minv_keep:
  assumes "minv st cx" "view cx' = view cx" "ts_main_menu (cx_s cx') = ts_main_menu (cx_s cx)"
    "ts_active_game (cx_s cx') = ts_active_game (cx_s cx)" "ts_game_state (cx_s cx') = ts_game_state (cx_s cx)"
    "st' \<noteq> TSTATE_CLOSING" "ts_active_game (cx_s cx) = None \<or> st' = TSTATE_CLOSED \<or> st' = TSTATE_IN_GAME"
  shows "minv st' cx'"
  unfolding minv_frame [OF assms(2-5)] using assms(1,6,7) by (rule minv_state)

lemma minv_idle: "minv st cx \<Longrightarrow> st \<noteq> TSTATE_IN_GAME \<Longrightarrow> st \<noteq> TSTATE_CLOSED \<Longrightarrow> ts_active_game (cx_s cx) = None"
  by (auto simp: minv_def split: option.splits)

interpretation telnet_machine: fsm_machine "telnet_fsm_def sq" minv tallowed for sq
proof (unfold_locales, goal_cases)
  case (1 t ctx dat ctx' res)
  from 1(1) consider
      (nego) "t_action t = Some act_send_negotiations" "t_state t = TSTATE_INIT" "t_next t = TSTATE_NEGOTIATING"
    | (screen) "t_action t = Some act_show_main_menu" "t_state t \<in> {TSTATE_NEGOTIATING, TSTATE_IN_GAME}"
        "t_next t = TSTATE_MAIN_MENU" "t_state t = TSTATE_IN_GAME \<longrightarrow> t_event t = TEV_GAME_OVER"
    | (key) "t_action t = Some act_handle_menu_key" "t_state t = TSTATE_MAIN_MENU" "t_event t = TEV_KEY_INPUT"
        "t_next t = TSTATE_MAIN_MENU"
    | (start) "t_action t = Some (act_start_game sq)" "t_state t = TSTATE_MAIN_MENU" "t_event t = TEV_MENU_SELECT"
        "t_next t = TSTATE_IN_GAME" "t_error t = TSTATE_MAIN_MENU"
    | (game) "t_action t = Some (act_game_key sq)" "t_state t = TSTATE_IN_GAME" "t_event t = TEV_KEY_INPUT"
        "t_next t = TSTATE_IN_GAME"
    | (close) "t_action t = Some act_close" "t_next t = TSTATE_CLOSED"
    by (auto simp: telnet_fsm_def_def telnet_fsm_table_def)
  then show ?case
  proof cases
    case nego
    with 1(4) have a: "act_send_negotiations ctx (t_event t) dat = (ctx', res)" by (simp add: run_action_def)
    note f = act_send_negotiations_facts [OF a]
    from f nego minv_idle [OF 1(2)] show ?thesis by (simp add: minv_keep [OF 1(2) f(3-6)])
  next
    case screen
    with 1(4) have a: "act_show_main_menu ctx (t_event t) dat = (ctx', res)" by (simp add: run_action_def)
    note f = act_show_main_menu_facts [OF a]
    have "ts_active_game (cx_s ctx) = None"
      using screen 1(3) minv_idle [OF 1(2)] by (auto simp: tallowed_def)
    with f screen show ?thesis by (simp add: minv_keep [OF 1(2) f(2,4-6)])
  next
    case key
    with 1(3) obtain k where "dat = KeyData k" by (auto simp: tallowed_def split: ev_data.splits)
    with 1(4) key have a: "act_handle_menu_key ctx (t_event t) (KeyData k) = (ctx', res)" by (simp add: run_action_def)
    note f = act_handle_menu_key_facts [OF a]
    from f key minv_idle [OF 1(2)] show ?thesis by (simp add: minv_keep [OF 1(2) f(2-5)])
  next
    case start
    with 1(3) obtain i where "dat = SelData i" by (auto simp: tallowed_def split: ev_data.splits)
    with 1(4) start have "act_start_game sq ctx (t_event t) (SelData i) = (ctx', res)" by (simp add: run_action_def)
    from act_start_game_facts(1) [OF _ this] 1(2) start show ?thesis by (auto split: if_splits)
  next
    case game
    with 1(3) obtain k where "dat = KeyData k" by (auto simp: tallowed_def split: ev_data.splits)
    with 1(4) game have "act_game_key sq ctx (t_event t) (KeyData k) = (ctx', res)" by (simp add: run_action_def)
    from act_game_key_facts [OF _ this] 1(2) game show ?thesis by simp
  next
    case close
    with 1(4) have a: "act_close ctx (t_event t) dat = (ctx', res)" by (simp add: run_action_def)
    note f = act_close_facts [OF a]
    from f close show ?thesis by (simp add: minv_keep [OF 1(2) f(3-6)])
  qed
qed

definition settled :: "'db tctx \<Rightarrow> bool" where
  "settled cx \<longleftrightarrow> flags cx = (-1, False, False)
     \<and> (ts_fsm (cx_s cx) = TSTATE_IN_GAME \<longrightarrow> ts_active_game (cx_s cx) \<noteq> None)"

definition sess_inv :: "'db tctx \<Rightarrow> bool" where
  "sess_inv cx \<longleftrightarrow> minv (ts_fsm (cx_s cx)) cx \<and> settled cx"

abbreviation with_fsm :: "telnet_state \<Rightarrow> 'db tctx \<Rightarrow> 'db tctx" where
  "with_fsm st cx \<equiv> on_session (\<lambda>s. s\<lparr>ts_fsm := st\<rparr>) cx"

lemma tdispatch_minv:
  assumes "minv (ts_fsm (cx_s cx)) cx" "tallowed (ts_fsm (cx_s cx)) ev dat cx"
  shows "minv (ts_fsm (cx_s (tdispatch sq ev dat cx))) (tdispatch sq ev dat cx)"
proof -
  obtain rc st cx' where d: "fsm_dispatch (telnet_fsm_def sq) (ts_fsm (cx_s cx)) ev cx dat = (rc, st, cx')"
    by (metis prod.exhaust)
  from telnet_machine.dispatch_inv [OF assms d] have "minv st cx'" .
  then have "minv st (with_fsm st cx')" by (subst minv_frame [of _ cx']) simp_all
  with d show ?thesis by (simp add: tdispatch_def)
qed

lemma tdispatch_row:
  "ts_fsm (cx_s cx) = st \<Longrightarrow> find (matches st ev) (telnet_fsm_table sq) = Some t \<Longrightarrow>
   run_action t ev cx dat = (cx', res) \<Longrightarrow>
   tdispatch sq ev dat cx = with_fsm (if res = FSM_ACTION_OK then t_next t else t_error t) cx'"
  by (simp add: tdispatch_def fsm_dispatch_find telnet_fsm_def_def)

lemma tdispatch_ignored:
  "find (matches (ts_fsm (cx_s cx)) ev) (telnet_fsm_table sq) = None \<Longrightarrow> tdispatch sq ev dat cx = cx"
  by (simp add: tdispatch_def fsm_dispatch_find telnet_fsm_def_def on_session_def)

lemma flags_with_fsm [simp]: "flags (with_fsm st cx) = flags cx"
  by (simp add: flags_def)

lemma settledI:
  "flags cx = (-1, False, False) \<Longrightarrow> st \<noteq> TSTATE_IN_GAME \<or> ts_active_game (cx_s cx) \<noteq> None \<Longrightarrow> settled (with_fsm st cx)"
  by (auto simp: settled_def)

section \<open>One key\<close>

text \<open>The rows the keys take.\<close>

lemma key_rows:
  "find (matches TSTATE_INIT TEV_KEY_INPUT) (telnet_fsm_table sq) = None"
  "find (matches TSTATE_NEGOTIATING TEV_KEY_INPUT) (telnet_fsm_table sq) =
     Some (row TSTATE_NEGOTIATING TEV_KEY_INPUT act_show_main_menu TSTATE_MAIN_MENU TSTATE_CLOSING)"
  "find (matches TSTATE_MAIN_MENU TEV_KEY_INPUT) (telnet_fsm_table sq) =
     Some (row TSTATE_MAIN_MENU TEV_KEY_INPUT act_handle_menu_key TSTATE_MAIN_MENU TSTATE_CLOSING)"
  "find (matches TSTATE_IN_GAME TEV_KEY_INPUT) (telnet_fsm_table sq) =
     Some (row TSTATE_IN_GAME TEV_KEY_INPUT (act_game_key sq) TSTATE_IN_GAME TSTATE_CLOSING)"
  "find (matches TSTATE_IN_GAME TEV_GAME_OVER) (telnet_fsm_table sq) =
     Some (row TSTATE_IN_GAME TEV_GAME_OVER act_show_main_menu TSTATE_MAIN_MENU TSTATE_CLOSING)"
  "find (matches TSTATE_MAIN_MENU TEV_DISCONNECT) (telnet_fsm_table sq) =
     Some (row TSTATE_MAIN_MENU TEV_DISCONNECT act_close TSTATE_CLOSED TSTATE_CLOSED)"
  "find (matches TSTATE_MAIN_MENU TEV_MENU_SELECT) (telnet_fsm_table sq) =
     Some (row TSTATE_MAIN_MENU TEV_MENU_SELECT (act_start_game sq) TSTATE_IN_GAME TSTATE_MAIN_MENU)"
  by (simp_all add: telnet_fsm_table_def matches_def)

lemma show_menu_dispatch:
  assumes "ts_fsm (cx_s cx) = st" "find (matches st ev) (telnet_fsm_table sq) =
      Some (row st ev act_show_main_menu TSTATE_MAIN_MENU TSTATE_CLOSING)" "\<not> ts_quit_pending (cx_s cx)"
  shows "flags (tdispatch sq ev dat cx) = (-1, False, False) \<and> ts_fsm (cx_s (tdispatch sq ev dat cx)) = TSTATE_MAIN_MENU"
proof -
  obtain cx' res where a: "act_show_main_menu cx ev dat = (cx', res)" by fastforce
  note f = act_show_main_menu_facts [OF a]
  have "tdispatch sq ev dat cx = with_fsm TSTATE_MAIN_MENU cx'"
    using tdispatch_row [OF assms(1,2)] a f(1) by (simp add: run_action_def)
  with f(3) assms(3) show ?thesis by (simp add: flags_def)
qed

lemma settled_menu: "flags cx = (-1, False, False) \<Longrightarrow> ts_fsm (cx_s cx) \<noteq> TSTATE_IN_GAME \<Longrightarrow> settled cx"
  by (simp add: settled_def)

lemma on_key_nego:
  assumes "sess_inv cx" "ts_fsm (cx_s cx) = TSTATE_NEGOTIATING"
  shows "sess_inv (on_key sq key cx) \<and> ts_fsm (cx_s (on_key sq key cx)) = TSTATE_MAIN_MENU"
proof -
  let ?cx = "tdispatch sq TEV_KEY_INPUT (KeyData key) cx"
  have q: "\<not> ts_quit_pending (cx_s cx)" using assms(1) by (simp add: sess_inv_def settled_def flags_def)
  from show_menu_dispatch [OF assms(2) key_rows(2) q, of sq "KeyData key"]
  have f: "flags ?cx = (-1, False, False)" "ts_fsm (cx_s ?cx) = TSTATE_MAIN_MENU" by auto
  then have "on_key sq key cx = ?cx" by (simp add: on_key_def Let_def flags_def)
  moreover have "minv (ts_fsm (cx_s ?cx)) ?cx"
    by (rule tdispatch_minv) (use assms(1) in \<open>simp_all add: sess_inv_def tallowed_def\<close>)
  ultimately show ?thesis using f by (simp add: sess_inv_def settled_menu)
qed

lemma on_key_game:
  assumes "sess_inv cx" "ts_fsm (cx_s cx) = TSTATE_IN_GAME"
  shows "sess_inv (on_key sq key cx) \<and> ts_fsm (cx_s (on_key sq key cx)) \<in> {TSTATE_IN_GAME, TSTATE_MAIN_MENU}"
proof -
  let ?cx = "tdispatch sq TEV_KEY_INPUT (KeyData key) cx"
  obtain cx' res where a: "act_game_key sq cx TEV_KEY_INPUT (KeyData key) = (cx', res)" by fastforce
  have m: "minv TSTATE_IN_GAME cx" and s: "settled cx" using assms by (simp_all add: sess_inv_def)
  from act_game_key_facts [OF m a] s assms(2)
  have f: "minv TSTATE_IN_GAME cx'" "res = FSM_ACTION_OK" "flags cx' = (-1, ts_active_game (cx_s cx') = None, False)"
    by (auto simp: settled_def flags_def)
  have cx: "?cx = with_fsm TSTATE_IN_GAME cx'"
    using tdispatch_row [OF assms(2) key_rows(4)] a f(2) by (simp add: run_action_def)
  show ?thesis
  proof (cases "ts_active_game (cx_s cx')")
    case (Some g)
    then have "on_key sq key cx = ?cx" using f(3) by (simp add: on_key_def Let_def cx flags_def)
    moreover have "minv TSTATE_IN_GAME ?cx" unfolding cx using f(1) by (subst minv_frame [of _ cx']) simp_all
    ultimately show ?thesis using f(3) Some by (simp add: cx sess_inv_def settled_def)
  next
    case None
    let ?c1 = "on_session (\<lambda>s. s\<lparr>ts_game_over_pending := False\<rparr>) ?cx"
    let ?c2 = "tdispatch sq TEV_GAME_OVER NoData ?c1"
    have c1: "ts_fsm (cx_s ?c1) = TSTATE_IN_GAME" "\<not> ts_quit_pending (cx_s ?c1)" "ts_active_game (cx_s ?c1) = None"
      "ts_game_over_pending (cx_s ?cx)"
      using f(3) None by (simp_all add: cx flags_def)
    from show_menu_dispatch [OF c1(1) key_rows(5) c1(2), of sq NoData]
    have g: "flags ?c2 = (-1, False, False)" "ts_fsm (cx_s ?c2) = TSTATE_MAIN_MENU" by auto
    have "minv (ts_fsm (cx_s ?c1)) ?c1" unfolding c1(1) using f(1) by (subst minv_frame [of _ cx']) (simp_all add: cx)
    then have "minv (ts_fsm (cx_s ?c2)) ?c2" by (rule tdispatch_minv) (use c1(3) in \<open>simp add: tallowed_def\<close>)
    moreover have "on_key sq key cx = ?c2"
      using g c1 by (simp add: on_key_def Let_def flags_def terminal_def cx)
    ultimately show ?thesis using g by (simp add: sess_inv_def settled_menu)
  qed
qed

lemma on_key_menu:
  assumes "sess_inv cx" "ts_fsm (cx_s cx) = TSTATE_MAIN_MENU"
  shows "sess_inv (on_key sq key cx)"
    and "(key = CHR ''q'' \<or> key = CHR ''Q'' \<or> ord key = 3) \<Longrightarrow> terminal (on_key sq key cx)"
    and "\<not> (key = CHR ''q'' \<or> key = CHR ''Q'' \<or> ord key = 3) \<Longrightarrow> menu_handle_key main_menu key < 0 \<Longrightarrow>
      on_key sq key cx = tdispatch sq TEV_KEY_INPUT (KeyData key) cx"
proof -
  let ?cx = "tdispatch sq TEV_KEY_INPUT (KeyData key) cx"
  let ?quit = "key = CHR ''q'' \<or> key = CHR ''Q'' \<or> ord key = 3" and ?sel = "menu_handle_key main_menu key"
  obtain cx' res where a: "act_handle_menu_key cx TEV_KEY_INPUT (KeyData key) = (cx', res)" by fastforce
  have m: "minv TSTATE_MAIN_MENU cx" and s: "settled cx" using assms by (simp_all add: sess_inv_def)
  note f = act_handle_menu_key_facts [OF a]
  have menu: "ts_main_menu (cx_s cx) = main_menu" "ts_active_game (cx_s cx) = None"
    using m minv_idle [OF m] by (simp_all add: minv_def)
  have cx: "?cx = with_fsm TSTATE_MAIN_MENU cx'"
    using tdispatch_row [OF assms(2) key_rows(3)] a f(1) by (simp add: run_action_def)
  have mx: "minv TSTATE_MAIN_MENU ?cx"
    using tdispatch_minv [of cx TEV_KEY_INPUT "KeyData key" sq] assms by (simp add: sess_inv_def tallowed_def cx)
  have fl: "flags ?cx = (if ?quit then (-1, False, True) else (if ?sel \<ge> 0 then ?sel else -1, False, False))"
    using f(7) s menu by (simp add: cx settled_def flags_def)
  have all: "sess_inv (on_key sq key cx) \<and> (?quit \<longrightarrow> terminal (on_key sq key cx))
    \<and> (\<not> ?quit \<longrightarrow> ?sel < 0 \<longrightarrow> on_key sq key cx = ?cx)"
  proof (cases ?quit)
    case True
    let ?c1 = "on_session (\<lambda>s. s\<lparr>ts_quit_pending := False\<rparr>) ?cx"
    let ?c2 = "tdispatch sq TEV_DISCONNECT NoData ?c1"
    obtain c res2 where b: "act_close ?c1 TEV_DISCONNECT NoData = (c, res2)" by fastforce
    have "ts_fsm (cx_s ?c1) = TSTATE_MAIN_MENU" by (simp add: cx)
    from tdispatch_row [OF this key_rows(6)] b act_close_facts(1) [OF b]
    have c2: "?c2 = with_fsm TSTATE_CLOSED c" by (simp add: run_action_def)
    have "minv (ts_fsm (cx_s ?c1)) ?c1" using mx by (subst minv_frame [of _ ?cx]) (simp_all add: cx)
    then have "minv (ts_fsm (cx_s ?c2)) ?c2" by (rule tdispatch_minv) (simp add: tallowed_def)
    moreover have "flags ?c2 = (-1, False, False)"
      using act_close_facts(2) [OF b] fl True by (simp add: c2 flags_def)
    moreover have "on_key sq key cx = ?c2"
      using fl True c2 by (simp add: on_key_def Let_def flags_def terminal_def cx)
    ultimately show ?thesis using True c2 by (simp add: sess_inv_def settled_menu terminal_def)
  next
    case False
    show ?thesis
    proof (cases "?sel \<ge> 0")
      case True
      let ?c1 = "on_session (\<lambda>s. s\<lparr>ts_pending_selection := -1\<rparr>) ?cx"
      let ?c2 = "tdispatch sq TEV_MENU_SELECT (SelData ?sel) ?c1"
      obtain c res2 where b: "act_start_game sq ?c1 TEV_MENU_SELECT (SelData ?sel) = (c, res2)" by fastforce
      have m1: "minv TSTATE_MAIN_MENU ?c1" using mx by (subst minv_frame [of _ ?cx]) simp_all
      note g = act_start_game_facts [OF m1 b]
      have "ts_fsm (cx_s ?c1) = TSTATE_MAIN_MENU" by (simp add: cx)
      from tdispatch_row [OF this key_rows(7)] b
      have c2: "?c2 = with_fsm (if res2 = FSM_ACTION_OK then TSTATE_IN_GAME else TSTATE_MAIN_MENU) c"
        by (simp add: run_action_def)
      have "minv (if res2 = FSM_ACTION_OK then TSTATE_IN_GAME else TSTATE_MAIN_MENU) ?c2"
        unfolding c2 using g(1) by (subst minv_frame [of _ c]) simp_all
      moreover have "flags ?c2 = (-1, False, False)" using g(2) fl False by (simp add: c2 flags_def)
      moreover have "on_key sq key cx = ?c2"
        using fl False True by (simp add: on_key_def Let_def flags_def terminal_def cx)
      ultimately show ?thesis using False True g(4) c2 by (auto simp: sess_inv_def settled_def)
    next
      case no: False
      then have "on_key sq key cx = ?cx" using fl False by (simp add: on_key_def Let_def flags_def)
      with mx fl False no show ?thesis by (simp add: sess_inv_def settled_def cx)
    qed
  qed
  from all show "sess_inv (on_key sq key cx)" by blast
  from all show "?quit \<Longrightarrow> terminal (on_key sq key cx)" by blast
  from all show "\<not> ?quit \<Longrightarrow> ?sel < 0 \<Longrightarrow> on_key sq key cx = ?cx" by blast
qed

lemma on_key_inv:
  assumes "sess_inv cx" "\<not> terminal cx"
  shows "sess_inv (on_key sq key cx)"
proof (cases "ts_fsm (cx_s cx)")
  case TSTATE_INIT
  then have "tdispatch sq TEV_KEY_INPUT (KeyData key) cx = cx" by (simp add: tdispatch_ignored key_rows)
  with assms(1) have "on_key sq key cx = cx"
    by (simp add: on_key_def Let_def sess_inv_def settled_def flags_def)
  with assms(1) show ?thesis by simp
next
  case TSTATE_CLOSING
  with assms(1) show ?thesis by (simp add: sess_inv_def minv_def)
next
  case TSTATE_CLOSED
  with assms(2) show ?thesis by (simp add: terminal_def)
qed (use assms on_key_nego on_key_menu(1) on_key_game in blast)+

lemma on_data_inv: "sess_inv cx \<Longrightarrow> sess_inv (on_data sq bs cx)"
  by (induction sq bs cx rule: on_data.induct) (simp_all add: on_key_inv)

section \<open>Events from the loop and from the parser\<close>

lemma quiet_rows:
  assumes "find (matches st ev) (telnet_fsm_table sq) = Some t"
    "ev \<in> {TEV_CONNECTED, TEV_NEGO_DONE, TEV_NAWS, TEV_DISCONNECT, TEV_TIMEOUT}"
  shows "t_action t \<in> {Some act_send_negotiations, Some act_show_main_menu, Some act_close}
    \<and> t_next t \<noteq> TSTATE_IN_GAME"
proof -
  have "t \<in> set (telnet_fsm_table sq)" "t_event t = ev" using find_matches_SomeD [OF assms(1)] by auto
  with assms(2) show ?thesis by (auto simp: telnet_fsm_table_def)
qed

lemma tdispatch_quiet:
  assumes "sess_inv cx" "ev \<in> {TEV_CONNECTED, TEV_NEGO_DONE, TEV_NAWS, TEV_DISCONNECT, TEV_TIMEOUT}"
  shows "sess_inv (tdispatch sq ev NoData cx)"
proof (cases "find (matches (ts_fsm (cx_s cx)) ev) (telnet_fsm_table sq)")
  case None
  with assms(1) show ?thesis by (simp add: tdispatch_ignored)
next
  case (Some t)
  obtain cx' res where a: "run_action t ev cx NoData = (cx', res)" by fastforce
  have fl: "flags cx = (-1, False, False)" using assms(1) by (simp add: sess_inv_def settled_def)
  from quiet_rows [OF Some assms(2)] a consider "act_send_negotiations cx ev NoData = (cx', res)"
    | "act_show_main_menu cx ev NoData = (cx', res)" | "act_close cx ev NoData = (cx', res)"
    by (auto simp: run_action_def)
  then have "res = FSM_ACTION_OK \<and> flags cx' = (-1, False, False)"
  proof cases
    case 1
    from act_send_negotiations_facts(1,2) [OF 1] fl show ?thesis by simp
  next
    case 2
    from act_show_main_menu_facts(1,3) [OF 2] fl show ?thesis by (simp add: flags_def)
  next
    case 3
    from act_close_facts(1,2) [OF 3] fl show ?thesis by simp
  qed
  then have "flags (tdispatch sq ev NoData cx) = (-1, False, False)"
    "ts_fsm (cx_s (tdispatch sq ev NoData cx)) = t_next t"
    using tdispatch_row [OF refl Some a] by simp_all
  moreover have "minv (ts_fsm (cx_s (tdispatch sq ev NoData cx))) (tdispatch sq ev NoData cx)"
    by (rule tdispatch_minv) (use assms in \<open>auto simp: sess_inv_def tallowed_def\<close>)
  ultimately show ?thesis
    using quiet_rows [OF Some assms(2)] by (simp add: sess_inv_def settled_menu)
qed

lemma sess_inv_frame:
  assumes "sess_inv cx" "view cx' = view cx" "ts_main_menu (cx_s cx') = ts_main_menu (cx_s cx)"
    "ts_active_game (cx_s cx') = ts_active_game (cx_s cx)" "ts_game_state (cx_s cx') = ts_game_state (cx_s cx)"
    "flags cx' = flags cx" "ts_fsm (cx_s cx') = ts_fsm (cx_s cx)"
  shows "sess_inv cx'"
  using assms(1) unfolding sess_inv_def settled_def assms(4,6,7) minv_frame [OF assms(2-5)] .

lemma on_option_inv:
  assumes "sess_inv cx"
  shows "sess_inv (on_option sq ev cx)"
proof -
  have "sess_inv (on_session (record_option ev) cx)"
    by (rule sess_inv_frame [OF assms]) (simp_all add: record_option_def view_def flags_def on_session_def Let_def)
  moreover from this have
    "sess_inv (on_session (\<lambda>s. s\<lparr>ts_nego_pending := ts_nego_pending s - 1\<rparr>) (on_session (record_option ev) cx))"
    by (rule sess_inv_frame) (simp_all add: flags_def)
  ultimately show ?thesis unfolding on_option_def Let_def by (simp add: tdispatch_quiet)
qed

lemma on_subneg_inv:
  assumes "sess_inv cx"
  shows "sess_inv (on_subneg sq ev cx)"
proof -
  have "sess_inv (on_session (\<lambda>s. s\<lparr>ts_term_cols := a, ts_term_rows := b\<rparr>) cx)" for a b
    by (rule sess_inv_frame [OF assms]) (simp_all add: flags_def)
  with assms show ?thesis unfolding on_subneg_def by (simp add: tdispatch_quiet)
qed

lemma feed_preserves:
  assumes "P cx" "\<And>c d. P c \<Longrightarrow> P (call_data cbs d c)" "\<And>c e. P c \<Longrightarrow> P (call_option cbs e c)"
    "\<And>c e. P c \<Longrightarrow> P (call_subneg cbs e c)"
  shows "P (snd (iac_parser_feed cbs p bs cx))"
proof -
  have fl: "P c \<Longrightarrow> P (flush_data cbs d c)" for c d using assms(2) by (simp add: flush_data_def)
  have "P (snd (snd (iac_byte cbs b (q, d, c))))" if "P c" for b q d c
    using that fl assms(2-4) by (cases "ip_state q") (simp_all add: iac_byte_def Let_def)
  then have "P (snd (snd st)) \<Longrightarrow> P (snd (snd (iac_byte cbs b st)))" for b st
    by (cases st) simp
  then have "P (snd (snd st)) \<Longrightarrow> P (snd (snd (fold (iac_byte cbs) bs st)))" for st
    by (induction bs arbitrary: st) auto
  from this [of "(p, [], cx)"] assms(1) have "P (snd (snd (fold (iac_byte cbs) bs (p, [], cx))))" by simp
  then show ?thesis
    using fl by (cases "fold (iac_byte cbs) bs (p, [], cx)") (simp add: feed_settle settle_def)
qed

lemma telnet_recv_inv:
  assumes "sess_inv cx"
  shows "sess_inv (telnet_recv sq bytes cx)"
proof -
  have "sess_inv (snd (iac_parser_feed (iac_cbs sq) (ts_iac (cx_s cx)) bytes cx))"
    by (rule feed_preserves [of sess_inv])
       (simp_all add: assms call_data_def call_option_def call_subneg_def iac_cbs_def on_data_inv on_option_inv on_subneg_inv)
  then show ?thesis
    by (auto simp: telnet_recv_def flags_def split: prod.splits intro: sess_inv_frame)
qed

section \<open>Wake-ups and other threads\<close>

lemma notify_inv:
  assumes "sess_inv cx"
  shows "sess_inv (call_on_notify sq cx)"
proof (cases "ts_on_notify (cx_s cx)")
  case None
  with assms show ?thesis by (simp add: call_on_notify_def)
next
  case (Some h)
  then obtain g gs where g: "ts_active_game (cx_s cx) = Some g" "ts_game_state (cx_s cx) = Some gs" "game_inv g gs cx"
    using assms by (auto simp: sess_inv_def minv_def menu_ok_def split: option.splits)
  with Some obtain c where c: "g = Chat_feature" "gs = Chat_state c" "chat_inv c cx"
    by (auto simp: game_inv_def menu_ok_def split: if_splits game_state.splits)
  obtain c1 cx1 where r: "render_room sq c cx = (c1, cx1)" by fastforce
  have i1: "chat_inv c1 cx1" "only_output cx cx1" using chat_inv_render_room [OF c(3) r] by auto
  have rd: "ctl cx1 = ctl cx" using r by (rule ctl_render_roomD)
  define cx2 where "cx2 = on_session (\<lambda>s. s\<lparr>ts_game_state := Some (Chat_state c1)\<rparr>) cx1"
  have inv2: "sess_inv cx2"
    using assms i1(1) ctlD [OF rd] g c(1,2)
    by (simp add: sess_inv_def minv_def settled_def flags_def cx2_def game_inv_def)
  have "sess_inv (render_compose c1 cx2)"
  proof (rule sess_inv_frame [OF inv2])
    have "only_output cx2 (render_compose c1 cx2)"
      using i1(1) by (intro render_compose_output) (simp add: chat_inv_def)
    from only_outputD [OF this] show "view (render_compose c1 cx2) = view cx2" by (simp add: view_def)
  qed (use ctlD [of "render_compose c1 cx2" cx2] in \<open>simp_all add: flags_def\<close>)
  with inv2 r assms show ?thesis
    by (simp add: call_on_notify_def Some c(2) g(2) chat_on_notify_def cx2_def [symmetric] Let_def
        split: notify_handler.split)
qed

text \<open>Other threads use the chat service, count themselves, and may raise the stop flag.\<close>

definition env_step :: "'db tctx \<Rightarrow> 'db tctx \<Rightarrow> bool" where
  "env_step cx cx' \<longleftrightarrow> (\<exists>w n t m stop. cx' = cx\<lparr>cx_w := w, cx_online := n, cx_tm := t, cx_mem := m,
       cx_s := (cx_s cx)\<lparr>ts_shutdown_requested := ts_shutdown_requested (cx_s cx) \<or> stop\<rparr>\<rparr>
     \<and> world_env (ts_notify_wfd (cx_s cx)) (cx_w cx) w)"

lemma env_step_inv:
  assumes "sess_inv cx" "env_step cx cx'"
  shows "sess_inv cx'"
proof -
  obtain w n t m stop where cx': "cx' = cx\<lparr>cx_w := w, cx_online := n, cx_tm := t, cx_mem := m,
      cx_s := (cx_s cx)\<lparr>ts_shutdown_requested := ts_shutdown_requested (cx_s cx) \<or> stop\<rparr>\<rparr>"
    and env: "world_env (ts_notify_wfd (cx_s cx)) (cx_w cx) w"
    using assms(2) by (auto simp: env_step_def)
  note ok = world_env_ok [OF env]
  have menu: "menu_ok cx \<Longrightarrow> menu_ok cx'" using ok(1,3) by (simp add: menu_ok_def cx')
  have chat: "chat_inv c cx \<Longrightarrow> chat_inv c cx'" for c
    using ok(2,4) env by (auto simp: chat_inv_def cx' world_ok_def world_env_def)
  have "game_inv g gs cx \<Longrightarrow> game_inv g gs cx'" for g gs
    using menu chat by (auto simp: game_inv_def split: if_splits game_state.splits)
  then show ?thesis
    using assms(1) menu
    by (auto simp: sess_inv_def minv_def settled_def flags_def cx' split: option.splits)
qed

section \<open>The loop\<close>

lemma telnet_drain_inv: "sess_inv cx \<Longrightarrow> sess_inv (telnet_drain cx)"
proof -
  assume inv: "sess_inv cx"
  have "world_env fd (cx_w cx) (cx_w (telnet_drain cx))" for fd
    by (simp add: telnet_drain_def on_world_def world_env_def world_pre_def subs_of_def)
  then have "env_step cx (telnet_drain cx)"
    unfolding env_step_def
    by (intro exI [of _ "cx_w (telnet_drain cx)"] exI [of _ "cx_online cx"] exI [of _ "cx_tm cx"]
          exI [of _ "cx_mem cx"] exI [of _ False]) (simp add: telnet_drain_def on_world_def)
  with inv show ?thesis by (rule env_step_inv)
qed

fun loop_cx :: "('db tctx \<times> int) loop_result \<Rightarrow> 'db tctx" where
  "loop_cx (Continue r) = fst r"
| "loop_cx (Break r) = fst r"

lemma telnet_loop_iter_inv:
  assumes "sess_inv cx"
  shows "sess_inv (loop_cx (telnet_loop_iter sq ev dl cx))"
proof -
  have nego: "sess_inv (on_session (\<lambda>s. s\<lparr>ts_nego_pending := 0\<rparr>) cx)"
    by (rule sess_inv_frame [OF assms]) (simp_all add: flags_def)
  have dr: "sess_inv (telnet_drain cx)" using assms by (rule telnet_drain_inv)
  show ?thesis
    using assms nego dr
    by (cases ev) (simp_all add: telnet_loop_iter_def Let_def tdispatch_quiet notify_inv telnet_recv_inv)
qed

definition turns_ok :: "'db turn list \<Rightarrow> bool" where
  "turns_ok ts \<longleftrightarrow> (\<forall>t \<in> set ts. \<forall>cx. env_step cx (tu_env t cx))"

lemma telnet_loop_inv:
  "sess_inv cx \<Longrightarrow> turns_ok ts \<Longrightarrow> telnet_loop sq ts dl cx = Some cx' \<Longrightarrow> sess_inv cx'"
proof (induction ts arbitrary: dl cx)
  case Nil
  then show ?case by (simp split: if_splits)
next
  case (Cons t ts)
  have "env_step cx (tu_env t cx)" and ts: "turns_ok ts" using Cons.prems(2) by (simp_all add: turns_ok_def)
  with Cons.prems(1) have "sess_inv (tu_env t cx)" using env_step_inv by blast
  then have it: "sess_inv (loop_cx (telnet_loop_iter sq (tu_poll t) dl (tu_env t cx)))"
    by (rule telnet_loop_iter_inv)
  show ?case
  proof (cases "terminal cx \<or> ts_shutdown_requested (cx_s cx)")
    case True
    with Cons.prems show ?thesis by auto
  next
    case False
    with Cons.prems(3) it ts Cons.IH show ?thesis
      by (auto split: loop_result.splits prod.splits)
  qed
qed

text \<open>What the invariant says about a session at every point between two inputs.\<close>

definition session_safe :: "'db tctx \<Rightarrow> bool" where
  "session_safe cx \<longleftrightarrow>
     ts_fsm (cx_s cx) \<noteq> TSTATE_CLOSING
     \<and> ts_pending_selection (cx_s cx) = -1 \<and> \<not> ts_game_over_pending (cx_s cx) \<and> \<not> ts_quit_pending (cx_s cx)
     \<and> (ts_active_game (cx_s cx) = None \<longleftrightarrow> ts_game_state (cx_s cx) = None)
     \<and> (ts_fsm (cx_s cx) = TSTATE_IN_GAME \<longrightarrow> ts_active_game (cx_s cx) \<noteq> None)
     \<and> (ts_active_game (cx_s cx) \<noteq> None \<longrightarrow> ts_fsm (cx_s cx) = TSTATE_IN_GAME \<or> ts_fsm (cx_s cx) = TSTATE_CLOSED)
     \<and> (ts_on_notify (cx_s cx) \<noteq> None \<longrightarrow>
          ts_active_game (cx_s cx) = Some Chat_feature \<and> (\<exists>c. ts_game_state (cx_s cx) = Some (Chat_state c)))
     \<and> \<not> cx_overread cx"

lemma sess_inv_safe: "sess_inv cx \<Longrightarrow> session_safe cx"
  by (auto simp: session_safe_def sess_inv_def minv_def settled_def flags_def menu_ok_def game_inv_def chat_inv_def
        split: option.splits if_splits game_state.splits)

lemma fresh_fields:
  assumes "telnet_create_session sq sk peer mem pipes = Some s"
  shows "ts_fsm s = TSTATE_INIT" "ts_main_menu s = main_menu" "ts_active_game s = None" "ts_game_state s = None"
    "ts_pending_selection s = -1" "\<not> ts_game_over_pending s" "\<not> ts_quit_pending s" "ts_username s = []"
    "ts_on_notify s = None" "ts_sock s = sk" "ts_send_buf s = []" "ts_nego_pending s = 0"
    "\<not> ts_shutdown_requested s"
  using assms
  by (auto simp: telnet_create_session_def Let_def fsm_init_def telnet_fsm_def_def main_menu_def split: if_splits)

lemma fresh_session_inv:
  assumes "telnet_create_session sq sk peer mem pipes = Some (cx_s cx)" "world_pre (cx_w cx)"
    "\<not> cx_overread cx" "sub_only (ts_notify_wfd (cx_s cx)) None (cx_w cx)"
  shows "sess_inv cx"
  using fresh_fields [OF assms(1)] assms(2-4)
  by (simp add: sess_inv_def minv_def settled_def flags_def menu_ok_def name_ok_def)

lemma telnet_begin_inv:
  assumes "sess_inv cx"
  shows "sess_inv (telnet_begin sq cx)"
proof -
  have "sess_inv (cx\<lparr>cx_online := n\<rparr>)" for n
    by (rule sess_inv_frame [OF assms]) (simp_all add: view_def flags_def)
  then show ?thesis by (simp add: telnet_begin_def tdispatch_quiet)
qed

text \<open>C2: From its creation on, whatever bytes arrive in whatever pieces, whatever timeouts and
  wake-ups come and whatever other sessions do meanwhile, a telnet session is never in the
  error state, its three deferred flags are always consumed before the next input, a game
  is running exactly when the machine is in the game state (or the session has just
  closed under it), the notify handler is only installed while a chat state is there for
  it to read, and no formatted text ever exceeds its buffer.\<close>

theorem telnet_session_safe:
  assumes "telnet_create_session sq sk peer mem pipe2 = Some (cx_s cx)"
    and "world_pre (cx_w cx)" and "\<not> cx_overread cx" and "sub_only (ts_notify_wfd (cx_s cx)) None (cx_w cx)"
    and "turns_ok turns" and "telnet_loop sq turns dl (telnet_begin sq cx) = Some cx'"
  shows "session_safe cx'"
proof -
  have "sess_inv cx" using assms(1-4) by (rule fresh_session_inv)
  from telnet_loop_inv [OF telnet_begin_inv [OF this] assms(5,6)] show ?thesis by (rule sess_inv_safe)
qed

section \<open>Leaving\<close>

lemma telnet_end_game_clean:
  assumes "sess_inv cx"
  shows "menu_ok (telnet_end_game sq cx)" "ts_notify_wfd (cx_s (telnet_end_game sq cx)) = ts_notify_wfd (cx_s cx)"
    "cx_online (telnet_end_game sq cx) = cx_online cx"
proof -
  have "menu_ok (telnet_end_game sq cx) \<and> ts_notify_wfd (cx_s (telnet_end_game sq cx)) = ts_notify_wfd (cx_s cx)
    \<and> cx_online (telnet_end_game sq cx) = cx_online cx"
  proof (cases "ts_active_game (cx_s cx)")
    case None
    with assms show ?thesis by (simp add: sess_inv_def minv_def telnet_end_game_def)
  next
    case (Some g)
    then obtain gs where gs: "ts_game_state (cx_s cx) = Some gs" "game_inv g gs cx"
      using assms by (auto simp: sess_inv_def minv_def split: option.splits)
    from games.destroy_inv [OF gs(2), of sq] ctlD [OF games.destroy_ctl [of sq g gs cx]] show ?thesis
      by (simp add: telnet_end_game_def Some gs(1) on_session_def [of _ "go_destroy _ _ _"] view_cong(1) [OF view_session(7), unfolded on_session_def])
  qed
  then show "menu_ok (telnet_end_game sq cx)" "ts_notify_wfd (cx_s (telnet_end_game sq cx)) = ts_notify_wfd (cx_s cx)"
    "cx_online (telnet_end_game sq cx) = cx_online cx" by blast+
qed

lemma telnet_run_clean:
  assumes "telnet_create_session sq sk peer mem pipe2 = Some (cx_s cx)"
    and "world_pre (cx_w cx)" and "\<not> cx_overread cx" and "sub_only (ts_notify_wfd (cx_s cx)) None (cx_w cx)"
    and "self \<notin> set (rg_head rg)" and "turns_ok turns"
    and "telnet_run_session sq self now turns rg cx = Some (rg', cx')"
  shows "self \<notin> set (rg_head rg') \<and> set (rg_head rg') = set (rg_head rg)
    \<and> (0 \<le> ts_notify_wfd (cx_s cx') \<longrightarrow>
        list_all (\<lambda>r. ts_notify_wfd (cx_s cx') \<notin> set (sub_fds r)) (w_rooms (cx_w cx'))
        \<and> w_pipes (cx_w cx') (ts_notify_wfd (cx_s cx')) = None)
    \<and> ts_on_notify (cx_s cx') = None \<and> sk_closed (ts_sock (cx_s cx'))"
proof -
  define rg1 where "rg1 = session_register self rg"
  define cx1 where "cx1 = (if rg_stop rg1 self then on_session (\<lambda>s. s\<lparr>ts_shutdown_requested := True\<rparr>) cx else cx)"
  obtain cx2 where loop: "telnet_loop sq turns (now + TELNET_NEGO_TIMEOUT) (telnet_begin sq cx1) = Some cx2"
    and rg': "rg' = session_unregister self rg1" and cx': "cx' = telnet_close (telnet_end_game sq cx2)"
    using assms(7) by (auto simp: telnet_run_session_def Let_def rg1_def cx1_def split: option.splits)
  have "sess_inv cx" using assms(1-4) by (rule fresh_session_inv)
  then have "sess_inv cx1" unfolding cx1_def by (auto simp: flags_def intro: sess_inv_frame)
  from telnet_loop_inv [OF telnet_begin_inv [OF this] assms(6) loop] have "sess_inv cx2" .
  note clean = telnet_end_game_clean [OF this, of sq]
  have "rg_head rg' = rg_head rg"
    by (simp add: rg' rg1_def session_unregister_def session_register_def Let_def)
  with clean(1) assms(5) show ?thesis
    by (auto simp: cx' telnet_close_def Let_def on_world_def on_session_def menu_ok_def sub_only_def subs_of_def list_all_length
          count_eq_zero_iff)
qed

text \<open>C20: When a telnet session ends, for whatever reason, nothing of it is left behind: its
  socket and its pipe are closed, no room lists its descriptor (so no later post writes to a closed or
  reused descriptor), no notify handler remains, and it is out of the registry.\<close>

theorem telnet_run_leaves_nothing:
  assumes "telnet_create_session sq sk peer mem pipe2 = Some (cx_s cx)"
    and "world_pre (cx_w cx)" and "\<not> cx_overread cx" and "sub_only (ts_notify_wfd (cx_s cx)) None (cx_w cx)"
    and "self \<notin> set (rg_head rg)" and "turns_ok turns"
    and "telnet_run_session sq self now turns rg cx = Some (rg', cx')"
  shows "self \<notin> set (rg_head rg') \<and> set (rg_head rg') = set (rg_head rg)
    \<and> (0 \<le> ts_notify_wfd (cx_s cx') \<longrightarrow>
        list_all (\<lambda>r. ts_notify_wfd (cx_s cx') \<notin> set (sub_fds r)) (w_rooms (cx_w cx'))
        \<and> w_pipes (cx_w cx') (ts_notify_wfd (cx_s cx')) = None)
    \<and> ts_on_notify (cx_s cx') = None \<and> sk_closed (ts_sock (cx_s cx'))"
  using assms by (rule telnet_run_clean)

section \<open>What the keys of the menu do\<close>

lemma menu_lookup_all:
  "list_all (\<lambda>i. menu_handle_key main_menu (mi_key (m_items main_menu ! i)) = int i
     \<and> mi_key (m_items main_menu ! i) \<noteq> CHR ''q'' \<and> mi_key (m_items main_menu ! i) \<noteq> CHR ''Q''
     \<and> ord (mi_key (m_items main_menu ! i)) \<noteq> (3 :: nat) \<and> mi_user_data (m_items main_menu ! i) \<noteq> None) [0..<11]"
  by code_simp

lemma menu_lookup:
  assumes "i < 11"
  shows "menu_handle_key main_menu (mi_key (m_items main_menu ! i)) = int i"
    and "mi_key (m_items main_menu ! i) \<noteq> CHR ''q''" "mi_key (m_items main_menu ! i) \<noteq> CHR ''Q''"
    and "mi_user_data (m_items main_menu ! i) \<noteq> None" and "ord (mi_key (m_items main_menu ! i)) \<noteq> (3 :: nat)"
  using menu_lookup_all assms by (simp_all add: list_all_iff)

lemma create_succeeds:
  assumes "cx_mem cx"
  shows "\<exists>st cx'. go_create (ops_of sq g) cx = (Some st, cx')"
proof (cases "g = Chat_feature")
  case True
  have "\<exists>c cx'. chat_create sq cx = (Some c, cx')"
    using assms by (simp add: chat_create_def on_world_def Let_def)
  with True show ?thesis by (auto simp: chat_feature_def)
next
  case False
  with ops_placeholder [OF False, of sq] show ?thesis by (metis placeholder_def prod.collapse)
qed

lemma menu_key_starts:
  assumes "sess_inv cx" and "ts_fsm (cx_s cx) = TSTATE_MAIN_MENU" and "cx_mem cx" and i: "i < 11"
  shows "ts_fsm (cx_s (on_key sq (mi_key (m_items main_menu ! i)) cx)) = TSTATE_IN_GAME"
    "ts_active_game (cx_s (on_key sq (mi_key (m_items main_menu ! i)) cx)) = mi_user_data (m_items main_menu ! i)"
proof -
  let ?k = "mi_key (m_items main_menu ! i)"
  obtain cx1 res where a: "act_handle_menu_key cx TEV_KEY_INPUT (KeyData ?k) = (cx1, res)" by fastforce
  note f = act_handle_menu_key_facts [OF a]
  have m: "minv TSTATE_MAIN_MENU cx" and s: "settled cx" using assms by (simp_all add: sess_inv_def)
  have menu: "ts_main_menu (cx_s cx) = main_menu" using m by (simp add: minv_def)
  let ?cx = "with_fsm TSTATE_MAIN_MENU cx1"
  have d1: "tdispatch sq TEV_KEY_INPUT (KeyData ?k) cx = ?cx"
    using tdispatch_row [OF assms(2) key_rows(3)] a f(1) by (simp add: run_action_def)
  have fl: "flags ?cx = (int i, False, False)"
    using f(7) s menu menu_lookup [OF i] by (simp add: settled_def flags_def)
  let ?c1 = "on_session (\<lambda>s. s\<lparr>ts_pending_selection := -1\<rparr>) ?cx"
  have key: "on_key sq ?k cx = tdispatch sq TEV_MENU_SELECT (SelData (int i)) ?c1"
    using fl by (simp add: on_key_def Let_def d1 flags_def terminal_def)
  obtain g where g: "mi_user_data (m_items main_menu ! i) = Some g" using menu_lookup(4) [OF i] by auto
  let ?c2 = "on_session (\<lambda>s. s\<lparr>ts_active_game := Some g\<rparr>) ?c1"
  have mem: "cx_mem ?c2"
    using a assms(3) by (auto simp: act_handle_menu_key_def on_session_def Let_def split: if_splits)
  then obtain st c3 where c3: "go_create (ops_of sq g) ?c2 = (Some st, c3)" using create_succeeds by blast
  have "act_start_game sq ?c1 TEV_MENU_SELECT (SelData (int i)) = (on_session (\<lambda>s. s\<lparr>ts_game_state := Some st\<rparr>) c3, FSM_ACTION_OK)"
    using g c3 f(3) menu by (simp add: act_start_game_def Let_def)
  then have "on_key sq ?k cx = with_fsm TSTATE_IN_GAME (on_session (\<lambda>s. s\<lparr>ts_game_state := Some st\<rparr>) c3)"
    using tdispatch_row [OF _ key_rows(7), of ?c1 sq "SelData (int i)"] key by (simp add: run_action_def)
  then show "ts_fsm (cx_s (on_key sq ?k cx)) = TSTATE_IN_GAME"
    "ts_active_game (cx_s (on_key sq ?k cx)) = mi_user_data (m_items main_menu ! i)"
    using ctlD(3) [OF games.create_ctl [OF c3]] g by simp_all
qed

lemma menu_key_ignored:
  assumes "sess_inv cx" and "ts_fsm (cx_s cx) = TSTATE_MAIN_MENU"
    and k: "key \<notin> mi_key ` set (m_items main_menu) \<and> key \<noteq> CHR ''Q'' \<and> ord key \<noteq> 3"
  shows "ts_fsm (cx_s (on_key sq key cx)) = TSTATE_MAIN_MENU" "ts_active_game (cx_s (on_key sq key cx)) = None"
proof -
  have "CHR ''q'' \<in> mi_key ` set (m_items main_menu)"
    by (simp add: main_menu_def setup_main_menu_def menu_add_def Let_def)
  with k have nq: "\<not> (key = CHR ''q'' \<or> key = CHR ''Q'' \<or> ord key = 3)" by auto
  have "menu_handle_key main_menu key < 0"
    using k memchr_None_iff [of key "map mi_key (m_items main_menu)"]
    by (simp add: menu_handle_key_def menu_scan_spec)
  from on_key_menu(3) [OF assms(1,2) nq this, of sq]
  have e: "on_key sq key cx = tdispatch sq TEV_KEY_INPUT (KeyData key) cx" .
  obtain cx1 res where a: "act_handle_menu_key cx TEV_KEY_INPUT (KeyData key) = (cx1, res)" by fastforce
  note f = act_handle_menu_key_facts [OF a]
  have "on_key sq key cx = with_fsm TSTATE_MAIN_MENU cx1"
    using e tdispatch_row [OF assms(2) key_rows(3)] a f(1) by (simp add: run_action_def)
  moreover have "ts_active_game (cx_s cx) = None"
    using minv_idle [of TSTATE_MAIN_MENU cx] assms(1,2) by (simp add: sess_inv_def)
  ultimately show "ts_fsm (cx_s (on_key sq key cx)) = TSTATE_MAIN_MENU"
    "ts_active_game (cx_s (on_key sq key cx)) = None" using f(4) by simp_all
qed

text \<open>C29: In the main menu the key of an item starts exactly that item (unless memory runs
  out): the machine is in the game state with that game active. The quit keys close the
  session, and a key that is not the letter of an item, in lower case or upper case, leaves it
  in the menu with nothing started.\<close>

theorem menu_keys:
  assumes "sess_inv cx" and "ts_fsm (cx_s cx) = TSTATE_MAIN_MENU" and "cx_mem cx"
  shows "(\<forall>i < 11. ts_fsm (cx_s (on_key sq (mi_key (m_items main_menu ! i)) cx)) = TSTATE_IN_GAME
        \<and> ts_active_game (cx_s (on_key sq (mi_key (m_items main_menu ! i)) cx)) = mi_user_data (m_items main_menu ! i))
    \<and> ((key = CHR ''q'' \<or> key = CHR ''Q'' \<or> ord key = 3) \<longrightarrow> terminal (on_key sq key cx))
    \<and> (key \<notin> mi_key ` set (m_items main_menu) \<and> to_lower key \<notin> mi_key ` set (m_items main_menu) \<and> ord key \<noteq> 3 \<longrightarrow>
        ts_fsm (cx_s (on_key sq key cx)) = TSTATE_MAIN_MENU \<and> ts_active_game (cx_s (on_key sq key cx)) = None)"
proof -
  have "CHR ''q'' \<in> mi_key ` set (m_items main_menu)"
    by (simp add: main_menu_def setup_main_menu_def menu_add_def Let_def)
  moreover have "to_lower (CHR ''Q'') = CHR ''q''" by code_simp
  ultimately have q: "key \<noteq> CHR ''Q''" if "to_lower key \<notin> mi_key ` set (m_items main_menu)" using that by auto
  show ?thesis
    by (intro conjI allI impI)
      (simp only: menu_key_starts [OF assms], simp only: menu_key_starts [OF assms], rule on_key_menu(2) [OF assms(1,2)], assumption,
        (rule menu_key_ignored [OF assms(1,2)], use q in blast)+)
qed

text \<open>A client that presses a key before its option replies arrived is shown the menu, but
  the replies stay awaited, and then the idle timeout of the menu does not close the
  session: the first expiry only ends the negotiation that the menu no longer waits for,
  and only a second one disconnects.\<close>

theorem idle_timeout_needs_two:
  assumes "sess_inv cx" and "ts_fsm (cx_s cx) = TSTATE_MAIN_MENU" and "ts_nego_pending (cx_s cx) > 0"
    and "telnet_loop_iter sq Poll_timeout dl cx = r"
  shows "\<exists>cx'. r = Continue (cx', 0) \<and> ts_fsm (cx_s cx') = TSTATE_MAIN_MENU \<and> ts_nego_pending (cx_s cx') = 0
    \<and> terminal (loop_cx (telnet_loop_iter sq Poll_timeout 0 cx'))"
proof -
  let ?cx = "on_session (\<lambda>s. s\<lparr>ts_nego_pending := 0\<rparr>) cx"
  have rows: "find (matches TSTATE_MAIN_MENU TEV_NEGO_DONE) (telnet_fsm_table sq) = None"
    "find (matches TSTATE_MAIN_MENU TEV_TIMEOUT) (telnet_fsm_table sq) =
       Some (row TSTATE_MAIN_MENU TEV_TIMEOUT act_close TSTATE_CLOSED TSTATE_CLOSED)"
    by (simp_all add: telnet_fsm_table_def matches_def)
  have "tdispatch sq TEV_NEGO_DONE NoData ?cx = ?cx"
    by (rule tdispatch_ignored) (simp add: assms(2) rows)
  then have r: "r = Continue (?cx, 0)" using assms(3,4) by (simp add: telnet_loop_iter_def)
  obtain c res where a: "act_close ?cx TEV_TIMEOUT NoData = (c, res)" by fastforce
  have "tdispatch sq TEV_TIMEOUT NoData ?cx = with_fsm TSTATE_CLOSED c"
    using tdispatch_row [OF _ rows(2), of ?cx NoData] a act_close_facts(1) [OF a] assms(2)
    by (simp add: run_action_def)
  then have "terminal (loop_cx (telnet_loop_iter sq Poll_timeout 0 ?cx))"
    by (simp add: telnet_loop_iter_def terminal_def)
  with r assms(2) show ?thesis by auto
qed

text \<open>A new session opens the dialogue with exactly the three offers of the protocol: it
  offers to echo, offers to suppress go-ahead and asks for the window size (nine bytes),
  expects three replies, and waits in the negotiating state.\<close>

theorem telnet_offers:
  assumes "telnet_create_session sq sk peer mem pipe2 = Some (cx_s cx)" and "sk_script sk = []"
  shows "sent_to (cx_s (telnet_begin sq cx)) = sk_sent sk
      @ map byte_char [TELNET_IAC, TELNET_WILL, TELOPT_ECHO, TELNET_IAC, TELNET_WILL, TELOPT_SGA,
          TELNET_IAC, TELNET_DO, TELOPT_NAWS]
    \<and> ts_nego_pending (cx_s (telnet_begin sq cx)) = 3
    \<and> ts_fsm (cx_s (telnet_begin sq cx)) = TSTATE_NEGOTIATING"
proof -
  note f = fresh_fields [OF assms(1)]
  let ?cx = "cx\<lparr>cx_online := cx_online cx + 1\<rparr>"
  let ?nego = "map byte_char [TELNET_IAC, TELNET_WILL, TELOPT_ECHO, TELNET_IAC, TELNET_WILL, TELOPT_SGA,
      TELNET_IAC, TELNET_DO, TELOPT_NAWS]"
  obtain cx' res where a: "act_send_negotiations ?cx TEV_CONNECTED NoData = (cx', res)" by fastforce
  have "find (matches TSTATE_INIT TEV_CONNECTED) (telnet_fsm_table sq) =
      Some (row TSTATE_INIT TEV_CONNECTED act_send_negotiations TSTATE_NEGOTIATING TSTATE_CLOSING)"
    by (simp add: telnet_fsm_table_def matches_def)
  from tdispatch_row [OF _ this, of ?cx NoData] a act_send_negotiations_facts(1) [OF a] f(1)
  have d: "telnet_begin sq cx = with_fsm TSTATE_NEGOTIATING cx'" by (simp add: telnet_begin_def run_action_def)
  have "cx_s cx' = (cx_s cx)\<lparr>ts_nego_pending := 3, ts_sock := sk\<lparr>sk_sent := sk_sent sk @ ?nego\<rparr>\<rparr>"
    using a f(10,11) assms(2)
    by (auto simp: act_send_negotiations_def Let_def to_out_def iac_write_will_def iac_write_do_def iac_write_def
        on_session_def session_append_def session_flush_def TELNET_SEND_BUFSZ_def sock_send_empty_script)
  with d show ?thesis by (simp add: sent_to_def)
qed

text \<open>No telnet session survives a server shutdown: in any order of registrations,
  departures and shutdown calls (each one atomic under the registry's lock), once a
  shutdown call is among them every session still registered carries the stop flag that
  ends its loop, and the call itself makes the pipe of every session it finds readable.\<close>

theorem telnet_shutdown_reaches_all:
  assumes "flagged st" and "Op_shutdown \<in> set ops"
  shows "list_all (rg_stop (fold (apply_op session_register session_unregister telnet_shutdown_all) ops st))
      (rg_head (fold (apply_op session_register session_unregister telnet_shutdown_all) ops st))
    \<and> (\<forall>s \<in> set (rg_head st). 0 \<le> rg_wfd st s \<and> rg_wfd st s \<in> dom (rg_pipes st) \<longrightarrow>
        pending (rg_pipes (telnet_shutdown_all st)) (rg_wfd st s))"
  using telnet_reg.run_flagged [OF assms] telnet_reg.shutdown_wakes by (simp add: list_all_iff)

section \<open>Examples\<close>

definition demo_sock :: sock where
  "demo_sock = \<lparr>sk_script = [], sk_sent = [], sk_shut = False, sk_closed = False\<rparr>"

definition demo_fresh :: "chat_tables tctx" where
  "demo_fresh = demo_cx\<lparr>cx_s := the (telnet_create_session ref_sqlite demo_sock True True (Some (6, 7)))\<rparr>"

definition demo_menu_cx :: "chat_tables tctx" where
  "demo_menu_cx = demo_cx\<lparr>cx_s := demo_session\<lparr>ts_fsm := TSTATE_MAIN_MENU, ts_main_menu := main_menu,
     ts_active_game := None, ts_nego_pending := 2\<rparr>\<rparr>"

definition demo_turns :: "chat_tables turn list" where
  "demo_turns = [\<lparr>tu_env = (\<lambda>cx. cx), tu_poll = Poll_eintr\<rparr>, \<lparr>tu_env = (\<lambda>cx. cx), tu_poll = Poll_ready False True []\<rparr>]"

lemma demo_fresh_ok:
  "telnet_create_session ref_sqlite demo_sock True True (Some (6, 7)) = Some (cx_s demo_fresh)"
  "world_pre (cx_w demo_fresh)" "\<not> cx_overread demo_fresh" "sub_only (ts_notify_wfd (cx_s demo_fresh)) None (cx_w demo_fresh)"
  by (simp_all add: demo_fresh_def telnet_create_session_def demo_cx_def demo_boot_def boot_world_def world_pre_def
      sub_only_def Let_def)

lemma demo_turns_ok: "turns_ok demo_turns"
proof -
  have "env_step cx cx" for cx :: "chat_tables tctx"
    unfolding env_step_def
    by (intro exI [of _ "cx_w cx"] exI [of _ "cx_online cx"] exI [of _ "cx_tm cx"] exI [of _ "cx_mem cx"]
          exI [of _ False]) (auto simp: world_env_def)
  then show ?thesis by (simp add: turns_ok_def demo_turns_def)
qed

lemma demo_loop_ends: "\<exists>cx'. telnet_loop ref_sqlite demo_turns dl cx = Some cx'"
  by (simp add: demo_turns_def telnet_loop_iter_def)

lemma demo_menu_inv: "sess_inv demo_menu_cx"
proof -
  have "menu_ok demo_menu_cx"
    using demo_menu_ok by (simp add: demo_menu_cx_def menu_ok_def demo_cx_def demo_session_def)
  then show ?thesis
    by (simp add: sess_inv_def minv_def settled_def flags_def demo_menu_cx_def demo_session_def)
qed

theorem telnet_session_safe_witness:
  "session_safe (the (telnet_loop ref_sqlite demo_turns 3 (telnet_begin ref_sqlite demo_fresh)))"
proof -
  obtain cx' where "telnet_loop ref_sqlite demo_turns 3 (telnet_begin ref_sqlite demo_fresh) = Some cx'"
    using demo_loop_ends by blast
  from telnet_session_safe [OF demo_fresh_ok demo_turns_ok this] this show ?thesis by simp
qed

theorem telnet_run_leaves_nothing_witness:
  "rg_head (fst (the (telnet_run_session ref_sqlite 1 1000 demo_turns
     \<lparr>rg_head = [], rg_down = False, rg_stop = (\<lambda>_. False), rg_wfd = (\<lambda>_. 7), rg_pipes = Map.empty\<rparr> demo_fresh))) = []"
proof -
  let ?rg = "\<lparr>rg_head = [], rg_down = False, rg_stop = (\<lambda>_. False), rg_wfd = (\<lambda>_. 7), rg_pipes = Map.empty\<rparr>"
  obtain cx' where "telnet_loop ref_sqlite demo_turns (1000 + TELNET_NEGO_TIMEOUT) (telnet_begin ref_sqlite demo_fresh) = Some cx'"
    using demo_loop_ends by blast
  then obtain r where r: "telnet_run_session ref_sqlite 1 1000 demo_turns ?rg demo_fresh = Some r"
    by (simp add: telnet_run_session_def session_register_def Let_def)
  then have "telnet_run_session ref_sqlite 1 1000 demo_turns ?rg demo_fresh = Some (fst r, snd r)" by simp
  from telnet_run_leaves_nothing [OF demo_fresh_ok _ demo_turns_ok this] r show ?thesis by simp
qed

theorem menu_keys_witness:
  "ts_active_game (cx_s (on_key ref_sqlite (mi_key (m_items main_menu ! 8)) demo_menu_cx)) = Some Chat_feature"
proof -
  have "mi_user_data (m_items main_menu ! 8) = Some Chat_feature" by code_simp
  with menu_keys [OF demo_menu_inv, of ref_sqlite "CHR ''x''"] show ?thesis
    by (simp add: demo_menu_cx_def demo_cx_def demo_session_def)
qed

theorem idle_timeout_needs_two_witness:
  "\<not> terminal (loop_cx (telnet_loop_iter ref_sqlite Poll_timeout 3 demo_menu_cx))"
  using idle_timeout_needs_two [OF demo_menu_inv, of ref_sqlite 3 "telnet_loop_iter ref_sqlite Poll_timeout 3 demo_menu_cx"]
  by (auto simp: demo_menu_cx_def terminal_def)

theorem telnet_offers_witness:
  "ts_fsm (cx_s (telnet_begin ref_sqlite demo_fresh)) = TSTATE_NEGOTIATING"
  using telnet_offers [OF demo_fresh_ok(1)] by (simp add: demo_sock_def)

theorem telnet_shutdown_reaches_all_witness:
  "rg_stop (fold (apply_op session_register session_unregister telnet_shutdown_all)
       [Op_register 1, Op_shutdown, Op_register 2]
       \<lparr>rg_head = [], rg_down = False, rg_stop = (\<lambda>_. False), rg_wfd = (\<lambda>_. -1), rg_pipes = Map.empty\<rparr>) 2"
proof -
  let ?st = "\<lparr>rg_head = [], rg_down = False, rg_stop = (\<lambda>_. False), rg_wfd = (\<lambda>_. -1), rg_pipes = Map.empty\<rparr>"
  have "flagged ?st" by (simp add: flagged_def)
  from telnet_shutdown_reaches_all [OF this, of "[Op_register 1, Op_shutdown, Op_register 2]"] show ?thesis
    by (simp add: session_register_def telnet_shutdown_all_def Let_def)
qed

end
