(* ===== verification/Http_Proto.thy ===== *)
theory Http_Proto
  imports Prelude
begin

text \<open>
  The HTTP request parser \<^verbatim>\<open>protocol/http/http_proto.c\<close>. The parser works on the receive
  buffer: \<open>mem\<close> is the memory from \<^verbatim>\<open>buf\<close> on and \<open>len\<close> the number of bytes received, since
  \<^verbatim>\<open>strtol\<close> on a header value is bounded by neither the line nor \<^verbatim>\<open>len\<close>. Pointers into the
  buffer are offsets. The arrays \<^verbatim>\<open>path\<close> and \<^verbatim>\<open>query\<close> are the bytes stored before their
  terminating NUL; they can hold a NUL themselves, so a reader applies \<open>cstr\<close>.
\<close>

section \<open>The model\<close>

definition HTTP_PATH_MAX :: nat where "HTTP_PATH_MAX = 1024"
definition HTTP_QUERY_MAX :: nat where "HTTP_QUERY_MAX = 1024"

datatype http_method = HTTP_M_GET | HTTP_M_POST | HTTP_M_PUT | HTTP_M_DELETE | HTTP_M_OTHER

record http_request =
  rq_method :: http_method
  rq_path :: string
  rq_query :: string
  rq_content_length :: int
  rq_body :: string
  rq_body_len :: nat
  rq_keep_alive :: bool

fun http_method_name :: "http_method \<Rightarrow> string" where
  "http_method_name HTTP_M_GET = ''GET''"
| "http_method_name HTTP_M_POST = ''POST''"
| "http_method_name HTTP_M_PUT = ''PUT''"
| "http_method_name HTTP_M_DELETE = ''DELETE''"
| "http_method_name HTTP_M_OTHER = ''OTHER''"

definition hexval :: "char \<Rightarrow> int" where
  "hexval c =
     (if 48 \<le> ord c \<and> ord c \<le> 57 then int (ord c) - 48
      else if 97 \<le> ord c \<and> ord c \<le> 102 then int (ord c) - 97 + 10
      else if 65 \<le> ord c \<and> ord c \<le> 70 then int (ord c) - 65 + 10
      else -1)"

text \<open>The loop from position \<open>i\<close>: the list is \<^verbatim>\<open>src[i..slen)\<close>, \<open>k\<close> what is left of \<^verbatim>\<open>dsz\<close>.\<close>

function url_decode :: "string \<Rightarrow> nat \<Rightarrow> bool \<Rightarrow> string" where
  "url_decode [] k plus_space = []"
| "url_decode (ch # cs) k plus_space =
     (if k \<le> 1 then []
      else if ch = CHR ''%'' \<and> 2 \<le> length cs \<and> hexval (cs ! 0) \<ge> 0 \<and> hexval (cs ! 1) \<ge> 0
      then char_of (nat (16 * hexval (cs ! 0) + hexval (cs ! 1))) # url_decode (drop 2 cs) (k - 1) plus_space
      else if ch = CHR ''+'' \<and> plus_space then CHR '' '' # url_decode cs (k - 1) plus_space
      else ch # url_decode cs (k - 1) plus_space)"
  by pat_completeness auto
termination by (relation "measure (\<lambda>(cs, k, ps). length cs)") auto

text \<open>The length of the line at \<open>p\<close> without its ending, and the offset after it.\<close>

definition get_line :: "string \<Rightarrow> nat \<Rightarrow> nat \<Rightarrow> (nat \<times> nat) option" where
  "get_line mem len p =
     (case memchr LF (drop p (take len mem)) of
        None \<Rightarrow> None
      | Some l \<Rightarrow> Some (if l > 0 \<and> mem ! (p + l - 1) = CR then l - 1 else l, p + l + 1))"

definition parse_method :: "string \<Rightarrow> http_method" where
  "parse_method s =
     (if s = ''GET'' then HTTP_M_GET
      else if s = ''POST'' then HTTP_M_POST
      else if s = ''PUT'' then HTTP_M_PUT
      else if s = ''DELETE'' then HTTP_M_DELETE
      else HTTP_M_OTHER)"

text \<open>The target: up to the next space, or the rest of the line.\<close>

definition until_space :: "string \<Rightarrow> string" where
  "until_space s = (case memchr (CHR '' '') s of None \<Rightarrow> s | Some n \<Rightarrow> take n s)"

definition parse_request_line :: "string \<Rightarrow> http_request \<Rightarrow> int \<times> http_request" where
  "parse_request_line line out =
     (case memchr (CHR '' '') line of
        None \<Rightarrow> (-1, out)
      | Some mlen \<Rightarrow>
         (let out = out\<lparr>rq_method := parse_method (take mlen line)\<rparr>;
              target = until_space (drop (mlen + 1) line);
              q = memchr (CHR ''?'') target;
              plen = (case q of None \<Rightarrow> length target | Some n \<Rightarrow> n);
              out = out\<lparr>rq_path := url_decode (take plen target) HTTP_PATH_MAX False\<rparr>
          in (0, out\<lparr>rq_query := (case q of None \<Rightarrow> []
                       | Some n \<Rightarrow> take (HTTP_QUERY_MAX - 1) (drop (n + 1) target))\<rparr>)))"

text \<open>One header line, \<^verbatim>\<open>[p, p + llen)\<close>.\<close>

definition parse_header :: "string \<Rightarrow> nat \<Rightarrow> nat \<Rightarrow> http_request \<Rightarrow> http_request" where
  "parse_header mem p llen out =
     (if llen \<ge> 15 \<and> starts_with_nocase ''Content-Length:'' (drop p mem) then
        (let v = fst (strtol (drop (p + 15) mem))
         in out\<lparr>rq_content_length := (if v < 0 then 0 else v)\<rparr>)
      else if llen \<ge> 11 \<and> starts_with_nocase ''Connection:'' (drop p mem) then
        (if memmem (take (llen - 11) (drop (p + 11) mem)) ''keep-alive'' \<noteq> None
         then out\<lparr>rq_keep_alive := True\<rparr> else out)
      else out)"

text \<open>The loop over the headers: the offset after the blank line, when there is one.\<close>

function parse_headers :: "string \<Rightarrow> nat \<Rightarrow> nat \<Rightarrow> http_request \<Rightarrow> nat option \<times> http_request" where
  "parse_headers mem len p out =
     (case get_line mem len p of
        None \<Rightarrow> (None, out)
      | Some (llen, nxt) \<Rightarrow>
         if llen = 0 then (Some nxt, out)
         else parse_headers mem len nxt (parse_header mem p llen out))"
  by pat_completeness auto
termination
proof (relation "measure (\<lambda>(mem, len, p, out). len - p)", goal_cases)
  case (2 mem len p out y llen nxt)
  then have "\<exists>l. memchr LF (drop p (take len mem)) = Some l \<and> nxt = p + l + 1"
    by (auto simp: get_line_def split: option.splits)
  then show ?case by (auto dest: memchr_Some_less)
qed simp

declare parse_headers.simps [simp del]

text \<open>The body, once the header loop has stopped.\<close>

definition parse_body :: "string \<Rightarrow> nat \<Rightarrow> nat option \<times> http_request \<Rightarrow> int \<times> http_request" where
  "parse_body mem len res =
     (case res of
        (None, out) \<Rightarrow> (0, out)
      | (Some header_len, out) \<Rightarrow>
         (let total = header_len + nat (rq_content_length out)
          in if len < total then (0, out)
             else (int total,
                   out\<lparr>rq_body := drop header_len (take len mem),
                     rq_body_len := nat (rq_content_length out)\<rparr>)))"

definition http_parse_request :: "string \<Rightarrow> nat \<Rightarrow> http_request \<Rightarrow> int \<times> http_request" where
  "http_parse_request mem len out =
     (case get_line mem len 0 of
        None \<Rightarrow> (0, out)
      | Some (llen, nxt) \<Rightarrow>
         (case parse_request_line (take llen mem) out of (rc, out) \<Rightarrow>
            if rc \<noteq> 0 then (-1, out)
            else parse_body mem len
                   (parse_headers mem len nxt (out\<lparr>rq_content_length := 0, rq_keep_alive := False\<rparr>))))"

function http_query_get :: "string \<Rightarrow> string \<Rightarrow> nat \<Rightarrow> string option" where
  "http_query_get p key outsz =
     (if p = [] then None
      else (let amp = memchr (CHR ''&'') p;
                seg = (case amp of None \<Rightarrow> length p | Some n \<Rightarrow> n);
                klen = length key
            in if seg > klen \<and> p ! klen = CHR ''='' \<and> starts_with key p
               then Some (url_decode (take (seg - klen - 1) (drop (klen + 1) p)) outsz True)
               else (case amp of None \<Rightarrow> None | Some n \<Rightarrow> http_query_get (drop (n + 1) p) key outsz)))"
  by pat_completeness auto
termination by (relation "measure (\<lambda>(p, key, k). length p)") auto

declare http_query_get.simps [simp del]

section \<open>Percent-decoding\<close>

lemma url_decode_length [ns_len]: "length (url_decode s k ps) \<le> k - 1"
  by (induction s k ps rule: url_decode.induct) auto

definition hex_digit :: "nat \<Rightarrow> char" where
  "hex_digit d = (if d < 10 then char_of (48 + d) else char_of (55 + d))"

text \<open>The characters a client sends as they are; it encodes all others.\<close>

definition url_plain :: "char \<Rightarrow> bool" where
  "url_plain c \<longleftrightarrow> is_word_char c \<or> c \<in> {CHR ''-'', CHR ''.'', CHR ''~'', CHR ''/''}"

definition url_encode :: "string \<Rightarrow> string" where
  "url_encode s = concat (map (\<lambda>c. if url_plain c then [c]
     else [CHR ''%'', hex_digit (ord c div 16), hex_digit (ord c mod 16)]) s)"

lemma hexval_hex_digit [simp]: "d < 16 \<Longrightarrow> hexval (hex_digit d) = int d"
  by (simp add: hexval_def hex_digit_def)

lemma url_plain_not_special: "url_plain c \<Longrightarrow> c \<noteq> CHR ''%'' \<and> c \<noteq> CHR ''+''"
  by (auto simp: url_plain_def char_class_defs)

lemma ord_less_256 [simp]: "ord c < 256"
  by (rule nat_of_char_less_256)

lemma char_of_hex: "char_of (nat (16 * int (ord c div 16) + int (ord c mod 16))) = c"
proof -
  have "nat (16 * int a + int b) = 16 * a + b" for a b by linarith
  then have "nat (16 * int (ord c div 16) + int (ord c mod 16)) = 16 * (ord c div 16) + ord c mod 16" .
  also have "\<dots> = ord c" by simp
  finally show ?thesis by simp
qed

lemma url_decode_encode: "url_decode (url_encode s) k ps = take (k - 1) s"
proof (induction s arbitrary: k)
  case (Cons c s)
  have h: "ord c div 16 < 16" using ord_less_256 [of c] by linarith
  show ?case
  proof (cases "url_plain c")
    case True
    with Cons url_plain_not_special [OF True] show ?thesis
      by (cases "k - 1") (simp_all add: url_encode_def)
  next
    case False
    with Cons h char_of_hex [of c] show ?thesis by (cases "k - 1") (simp_all add: url_encode_def)
  qed
qed (simp add: url_encode_def)

lemma url_encode_chars: "c \<in> set (url_encode s) \<Longrightarrow> url_plain c \<or> c = CHR ''%''"
proof (induction s)
  case (Cons x s)
  have "url_plain (hex_digit d)" if "d < 16" for d
    using that by (auto simp: hex_digit_def url_plain_def char_class_defs)
  moreover have "ord x div 16 < 16" using ord_less_256 [of x] by linarith
  ultimately show ?case using Cons by (auto simp: url_encode_def split: if_splits)
qed (simp add: url_encode_def)

section \<open>Lines\<close>

definition eol :: "bool \<Rightarrow> string" where
  "eol b = (if b then crlf else [LF])"

text \<open>A line of text that can stand before either ending.\<close>

definition line_ok :: "string \<Rightarrow> bool" where
  "line_ok l \<longleftrightarrow> LF \<notin> set l \<and> (l = [] \<or> last l \<noteq> CR)"

lemma length_eol_pos [simp]: "0 < length (eol b)"
  by (simp add: eol_def)

lemma get_line_hit:
  assumes "line_ok l" and "length pre + length l + length (eol b) \<le> len"
  shows "get_line (pre @ l @ eol b @ rest) len (length pre) =
    Some (length l, length pre + length l + length (eol b))"
proof -
  obtain n where n: "len = length pre + length l + length (eol b) + n"
    using assms(2) le_Suc_ex by blast
  have d: "drop (length pre) (take len (pre @ l @ eol b @ rest)) = l @ eol b @ take n rest"
    by (simp add: n)
  show ?thesis
  proof (cases b)
    case True
    have "memchr LF ((l @ [CR]) @ LF # take n rest) = Some (length (l @ [CR]))"
      by (rule memchr_split) (use assms(1) in \<open>simp add: line_ok_def\<close>)
    with True d show ?thesis by (simp add: get_line_def eol_def nth_append)
  next
    case False
    have m: "memchr LF (l @ LF # take n rest) = Some (length l)"
      by (rule memchr_split) (use assms(1) in \<open>simp add: line_ok_def\<close>)
    have "length l > 0 \<Longrightarrow> (pre @ l @ eol b @ rest) ! (length pre + length l - 1) = last l"
      by (cases l rule: rev_cases) (simp_all add: nth_append)
    with m False d assms(1) show ?thesis
      by (auto simp: get_line_def eol_def line_ok_def)
  qed
qed

lemma get_line_miss:
  assumes "line_ok l" and "len < length pre + length l + length (eol b)"
  shows "get_line (pre @ l @ eol b @ rest) len (length pre) = None"
proof -
  let ?n = "len - length pre"
  have "LF \<notin> set (take ?n (l @ eol b))"
  proof -
    have "take ?n (l @ eol b) = take ?n (butlast (l @ eol b))"
      by (rule take_butlast [symmetric]) (use assms(2) length_eol_pos [of b] in \<open>simp, linarith\<close>)
    moreover have "LF \<notin> set (butlast (l @ eol b))"
      using assms(1) by (cases b) (auto simp: eol_def line_ok_def butlast_append)
    ultimately show ?thesis by (metis in_set_takeD)
  qed
  moreover have "drop (length pre) (take len (pre @ l @ eol b @ rest)) = take ?n (l @ eol b)"
    using assms(2) by (cases "len \<le> length pre") simp_all
  ultimately have "memchr LF (drop (length pre) (take len (pre @ l @ eol b @ rest))) = None"
    by (simp only: memchr_None_iff not_False_eq_True)
  then show ?thesis by (simp only: get_line_def option.case)
qed

text \<open>Only the received bytes matter.\<close>

lemma get_line_cong:
  assumes "take len mem = take len mem'"
  shows "get_line mem len p = get_line mem' len p"
proof -
  have "mem ! (p + l - 1) = mem' ! (p + l - 1)" if "memchr LF (drop p (take len mem)) = Some l" for l
  proof -
    have "p + l < length (take len mem)" using memchr_Some_less [OF that] by (simp add: less_diff_conv)
    then have "p + l - 1 < len" by (simp add: less_imp_diff_less)
    then show ?thesis using assms by (metis nth_take)
  qed
  with assms show ?thesis by (simp add: get_line_def split: option.split)
qed

lemma take_eq_prefix:
  assumes "take len mem = take len (pre @ rest)" and "length pre \<le> len"
  shows "mem = pre @ drop (length pre) mem"
proof -
  have "take (length pre) mem = take (length pre) (take len mem)" using assms(2) by (simp add: min_def)
  also have "\<dots> = pre" using assms by (simp add: min_def)
  finally show ?thesis by (metis append_take_drop_id)
qed

lemma get_line_bounds: "get_line mem len p = Some (llen, nxt) \<Longrightarrow> p + llen < nxt \<and> nxt \<le> len \<and> nxt \<le> length mem"
  by (auto simp: get_line_def split: option.splits if_splits dest!: memchr_Some_less)

section \<open>Headers\<close>

datatype hdr = H_length nat | H_connection string | H_other string

fun hdr_line :: "hdr \<Rightarrow> string" where
  "hdr_line (H_length n) = ''Content-Length: '' @ show_nat n"
| "hdr_line (H_connection s) = ''Connection:'' @ s"
| "hdr_line (H_other s) = s"

fun hdr_ok :: "hdr \<Rightarrow> bool" where
  "hdr_ok (H_length n) \<longleftrightarrow> int n \<le> LONG_MAX"
| "hdr_ok (H_connection s) \<longleftrightarrow> line_ok s"
| "hdr_ok (H_other s) \<longleftrightarrow> line_ok s \<and> s \<noteq> []
     \<and> \<not> starts_with_nocase ''Content-Length:'' s \<and> \<not> starts_with_nocase ''Connection:'' s"

fun hdr_apply :: "hdr \<Rightarrow> http_request \<Rightarrow> http_request" where
  "hdr_apply (H_length n) out = out\<lparr>rq_content_length := int n\<rparr>"
| "hdr_apply (H_connection s) out =
     (if memmem s ''keep-alive'' \<noteq> None then out\<lparr>rq_keep_alive := True\<rparr> else out)"
| "hdr_apply (H_other s) out = out"

definition hdr_text :: "(hdr \<times> bool) list \<Rightarrow> string" where
  "hdr_text hs = concat (map (\<lambda>(h, b). hdr_line h @ eol b) hs)"

lemma hdr_text_simps [simp]:
  "hdr_text [] = []" "hdr_text ((h, b) # hs) = hdr_line h @ eol b @ hdr_text hs"
  by (simp_all add: hdr_text_def)

lemma show_nat_line_ok: "line_ok (s @ show_nat n) \<longleftrightarrow> LF \<notin> set s"
proof -
  have "last (show_nat n) \<in> set (show_nat n)" by simp
  then have "is_digit (last (show_nat n))" using show_nat_digits by blast
  then have "last (show_nat n) \<noteq> CR" by (auto simp: is_digit_def)
  moreover have "LF \<notin> set (show_nat n)" using show_nat_digits [of n] by (auto simp: is_digit_def)
  ultimately show ?thesis by (auto simp: line_ok_def)
qed

lemma hdr_line_ok: "hdr_ok h \<Longrightarrow> line_ok (hdr_line h) \<and> hdr_line h \<noteq> []"
proof (cases h)
  case (H_length n)
  have "line_ok (''Content-Length: '' @ show_nat n)" by (subst show_nat_line_ok) simp
  with H_length show ?thesis by simp
qed (auto simp: line_ok_def)

lemma starts_with_nocase_prefix:
  "length p \<le> length s \<Longrightarrow> starts_with_nocase p (s @ t) = starts_with_nocase p s"
  by (simp add: starts_with_nocase_def)


lemma strtol_skip: "dropWhile is_space s = dropWhile is_space s' \<Longrightarrow> fst (strtol s) = fst (strtol s')"
  by (simp add: strtol_def Let_def)

lemma parse_header_line:
  assumes "hdr_ok h"
  shows "parse_header (pre @ hdr_line h @ eol b @ rest) (length pre) (length (hdr_line h)) out = hdr_apply h out"
proof (cases h)
  case (H_length n)
  have sw: "starts_with_nocase ''Content-Length:'' (hdr_line h @ eol b @ rest)"
    by (simp add: H_length starts_with_nocase_def)
  have "strtol (show_nat n @ eol b @ rest) = (int n, eol b @ rest)"
    by (rule strtol_show_nat) (use assms H_length in \<open>simp_all add: eol_def is_digit_def\<close>)
  moreover have "dropWhile is_space (CHR '' '' # show_nat n @ eol b @ rest) = dropWhile is_space (show_nat n @ eol b @ rest)"
    by (simp add: is_space_def)
  ultimately have "fst (strtol (CHR '' '' # show_nat n @ eol b @ rest)) = int n"
    using strtol_skip by (metis fst_conv)
  with sw H_length show ?thesis by (simp add: parse_header_def)
next
  case (H_connection s)
  then show ?thesis
    by (simp add: parse_header_def starts_with_nocase_def to_lower_def)
next
  case (H_other s)
  have no: "(length p \<le> length s \<and> starts_with_nocase p (s @ eol b @ rest)) = False"
    if "\<not> starts_with_nocase p s" for p
    using that starts_with_nocase_prefix by blast
  have "(15 \<le> length s \<and> starts_with_nocase ''Content-Length:'' (s @ eol b @ rest)) = False"
    "(11 \<le> length s \<and> starts_with_nocase ''Connection:'' (s @ eol b @ rest)) = False"
    using no [of "''Content-Length:''"] no [of "''Connection:''"] H_other assms by simp_all
  moreover have "drop (length pre) (pre @ s @ eol b @ rest) = s @ eol b @ rest" by simp
  ultimately show ?thesis
    unfolding parse_header_def H_other hdr_line.simps hdr_apply.simps by (simp only: if_False)
qed

text \<open>The header loop on a rendered header block: it waits for the blank line and then has
  applied every header in order.\<close>

lemma parse_headers_text:
  assumes "list_all (hdr_ok \<circ> fst) hs"
    and "take len mem = take len (pre @ hdr_text hs @ eol b @ rest)"
  shows "let res = parse_headers mem len (length pre) out;
             total = length pre + length (hdr_text hs) + length (eol b)
     in if len < total then fst res = None else res = (Some total, fold (hdr_apply \<circ> fst) hs out)"
  using assms
proof (induction hs arbitrary: pre out)
  case Nil
  have "line_ok []" by (simp add: line_ok_def)
  from get_line_hit [OF this, of pre b len rest] get_line_miss [OF this, of len pre b rest]
    get_line_cong [of len mem "pre @ eol b @ rest" "length pre"] Nil show ?case
    by (subst parse_headers.simps) (simp split: option.split)
next
  case (Cons hb hs)
  obtain h c where hb: "hb = (h, c)" by fastforce
  with Cons.prems(1) have ok: "hdr_ok h" and oks: "list_all (hdr_ok \<circ> fst) hs"
    by (simp_all add: comp_def)
  note l = hdr_line_ok [OF ok]
  let ?rest = "hdr_text hs @ eol b @ rest"
  let ?pre = "pre @ hdr_line h @ eol c"
  have mem: "take len mem = take len (?pre @ ?rest)" using Cons.prems(2) by (simp add: hb)
  note gl = get_line_cong [OF mem, of "length pre"]
  show ?case
  proof (cases "len < length ?pre")
    case True
    with get_line_miss [of "hdr_line h" len pre c ?rest] l gl
    have "get_line mem len (length pre) = None" by simp
    then have "fst (parse_headers mem len (length pre) out) = None"
      by (subst parse_headers.simps) simp
    with True show ?thesis by (simp add: hb)
  next
    case False
    with get_line_hit [of "hdr_line h" pre c len ?rest] l gl
    have hit: "get_line mem len (length pre) = Some (length (hdr_line h), length ?pre)" by simp
    have "mem = ?pre @ drop (length ?pre) mem" using take_eq_prefix [OF mem] False by simp
    then have "parse_header mem (length pre) (length (hdr_line h)) out = hdr_apply h out"
      using parse_header_line [OF ok, of pre c "drop (length ?pre) mem" out] by (metis append_assoc)
    with hit l have eq: "parse_headers mem len (length pre) out = parse_headers mem len (length ?pre) (hdr_apply h out)"
      by (subst parse_headers.simps) simp
    show ?thesis
      unfolding eq using Cons.IH [OF oks mem, of "hdr_apply h out"] by (simp add: hb add.assoc comp_def Let_def)
  qed
qed

section \<open>The request line\<close>

definition target_text :: "string \<Rightarrow> string option \<Rightarrow> string" where
  "target_text path q = url_encode path @ (case q of None \<Rightarrow> [] | Some s \<Rightarrow> CHR ''?'' # s)"

definition request_line :: "http_method \<Rightarrow> string \<Rightarrow> string option \<Rightarrow> string option \<Rightarrow> string" where
  "request_line m path q ver =
     http_method_name m @ '' '' @ target_text path q @ (case ver of None \<Rightarrow> [] | Some v \<Rightarrow> CHR '' '' # v)"

text \<open>What a client may put into the query and the version: no line ending, and no space
  in the query.\<close>

definition token_ok :: "string option \<Rightarrow> bool" where
  "token_ok q \<longleftrightarrow> (case q of None \<Rightarrow> True | Some s \<Rightarrow> LF \<notin> set s \<and> CR \<notin> set s)"

definition query_ok :: "string option \<Rightarrow> bool" where
  "query_ok q \<longleftrightarrow> token_ok q \<and> (case q of None \<Rightarrow> True | Some s \<Rightarrow> CHR '' '' \<notin> set s)"

lemma url_encode_free: "c \<in> {CHR '' '', CHR ''?'', LF, CR} \<Longrightarrow> c \<notin> set (url_encode s)"
  using url_encode_chars [of c s] by (auto simp: url_plain_def char_class_defs)

lemma target_free: "query_ok q \<Longrightarrow> c \<in> {CHR '' '', LF, CR} \<Longrightarrow> c \<notin> set (target_text path q)"
  using url_encode_free [of c path]
  by (auto simp: target_text_def query_ok_def token_ok_def split: option.splits)

lemma method_name_free: "c \<in> {CHR '' '', LF, CR} \<Longrightarrow> c \<notin> set (http_method_name m)"
  by (cases m) auto

lemma request_line_ok: "query_ok q \<Longrightarrow> token_ok ver \<Longrightarrow> line_ok (request_line m path q ver)"
proof -
  assume "query_ok q" "token_ok ver"
  then have "set (request_line m path q ver) \<inter> {LF, CR} = {}"
    using target_free [of q LF path] target_free [of q CR path] method_name_free [of LF m] method_name_free [of CR m]
    by (auto simp: request_line_def token_ok_def split: option.splits)
  then show ?thesis unfolding line_ok_def by (metis Int_iff empty_iff insert_iff last_in_set)
qed

lemma parse_request_line_text:
  assumes "query_ok q" and "m \<noteq> HTTP_M_OTHER"
  shows "parse_request_line (request_line m path q ver) out =
    (0, out\<lparr>rq_method := m, rq_path := take (HTTP_PATH_MAX - 1) path,
       rq_query := (case q of None \<Rightarrow> [] | Some s \<Rightarrow> take (HTTP_QUERY_MAX - 1) s)\<rparr>)"
proof -
  let ?tail = "case ver of None \<Rightarrow> [] | Some v \<Rightarrow> CHR '' '' # v"
  have sp1: "memchr (CHR '' '') (http_method_name m @ CHR '' '' # target_text path q @ ?tail)
      = Some (length (http_method_name m))"
    by (rule memchr_split) (simp add: method_name_free)
  have sp: "CHR '' '' \<notin> set (target_text path q)" using target_free [OF assms(1)] by simp
  have sp2: "until_space (target_text path q @ ?tail) = target_text path q"
  proof (cases ver)
    case None
    with sp have "memchr (CHR '' '') (target_text path q) = None" by (simp add: memchr_None_iff)
    with None show ?thesis by (simp add: until_space_def)
  next
    case (Some v)
    with memchr_split [OF sp, of v] show ?thesis by (simp add: until_space_def)
  qed
  have pm: "parse_method (http_method_name m) = m" using assms(2) by (cases m) (simp_all add: parse_method_def)
  let ?n = "memchr (CHR ''?'') (target_text path q)"
  have eq: "parse_request_line (request_line m path q ver) out =
     (0, out\<lparr>rq_method := m,
       rq_path := url_decode (take (case ?n of None \<Rightarrow> length (target_text path q) | Some n \<Rightarrow> n) (target_text path q))
         HTTP_PATH_MAX False,
       rq_query := (case ?n of None \<Rightarrow> [] | Some n \<Rightarrow> take (HTTP_QUERY_MAX - 1) (drop (n + 1) (target_text path q)))\<rparr>)"
    using sp1 sp2 pm by (simp add: parse_request_line_def request_line_def Let_def)
  have "CHR ''?'' \<notin> set (url_encode path)" by (simp add: url_encode_free)
  then have "?n = (case q of None \<Rightarrow> None | Some s \<Rightarrow> Some (length (url_encode path)))"
    by (cases q) (simp_all add: target_text_def memchr_None_iff memchr_split)
  then show ?thesis
    unfolding eq by (cases q) (simp_all add: target_text_def url_decode_encode)
qed

section \<open>Properties\<close>

definition request_head ::
  "http_method \<Rightarrow> string \<Rightarrow> string option \<Rightarrow> string option \<Rightarrow> bool \<Rightarrow> (hdr \<times> bool) list \<Rightarrow> bool \<Rightarrow> string" where
  "request_head m path q ver b hs b' = request_line m path q ver @ eol b @ hdr_text hs @ eol b'"

definition no_request :: http_request where
  "no_request = \<lparr>rq_method = HTTP_M_GET, rq_path = [], rq_query = [], rq_content_length = 0,
     rq_body = [], rq_body_len = 0, rq_keep_alive = False\<rparr>"

text \<open>What the headers of a request say: the last length, and whether any connection header
  asks to be kept alive.\<close>

definition hdr_length :: "(hdr \<times> bool) list \<Rightarrow> int" where
  "hdr_length hs = fold (\<lambda>h v. case fst h of H_length n \<Rightarrow> int n | _ \<Rightarrow> v) hs 0"

definition hdr_keep_alive :: "(hdr \<times> bool) list \<Rightarrow> bool" where
  "hdr_keep_alive hs =
     list_ex (\<lambda>h. case fst h of H_connection s \<Rightarrow> memmem s ''keep-alive'' \<noteq> None | _ \<Rightarrow> False) hs"

lemma hdr_apply_fold:
  "fold (hdr_apply \<circ> fst) hs out = out\<lparr>
     rq_content_length := fold (\<lambda>h v. case fst h of H_length n \<Rightarrow> int n | _ \<Rightarrow> v) hs (rq_content_length out),
     rq_keep_alive := (rq_keep_alive out \<or> hdr_keep_alive hs)\<rparr>"
proof (induction hs arbitrary: out)
  case (Cons h hs)
  then show ?case by (cases "fst h") (simp_all add: hdr_keep_alive_def comp_def)
qed (simp add: hdr_keep_alive_def)

text \<open>The request a well-formed text stands for.\<close>

definition request_of :: "http_method \<Rightarrow> string \<Rightarrow> string option \<Rightarrow> (hdr \<times> bool) list \<Rightarrow> string \<Rightarrow> string \<Rightarrow> http_request" where
  "request_of m path q hs body trail =
     \<lparr>rq_method = m, rq_path = path, rq_query = (case q of None \<Rightarrow> [] | Some s \<Rightarrow> s),
      rq_content_length = int (length body), rq_body = body @ trail, rq_body_len = length body,
      rq_keep_alive = hdr_keep_alive hs\<rparr>"

definition sendable :: "http_method \<Rightarrow> string \<Rightarrow> string option \<Rightarrow> string option \<Rightarrow> (hdr \<times> bool) list \<Rightarrow> string \<Rightarrow> bool" where
  "sendable m path q ver hs body \<longleftrightarrow> m \<noteq> HTTP_M_OTHER \<and> length path < HTTP_PATH_MAX
     \<and> query_ok q \<and> (case q of None \<Rightarrow> True | Some s \<Rightarrow> length s < HTTP_QUERY_MAX)
     \<and> token_ok ver \<and> list_all (hdr_ok \<circ> fst) hs \<and> hdr_length hs = int (length body)"

lemma http_parse_text:
  assumes ok: "sendable m path q ver hs body"
    and tx: "text = request_head m path q ver b hs b' @ body"
    and mem: "take len mem = take len (text @ rest)"
  shows "if len < length text then fst (http_parse_request mem len out) = 0
    else http_parse_request mem len out =
      (int (length text), request_of m path q hs body (take (len - length text) rest))"
proof -
  let ?line = "request_line m path q ver" and ?rest = "body @ rest"
  let ?text = "?line @ eol b @ hdr_text hs @ eol b' @ ?rest"
  let ?pre = "?line @ eol b"
  let ?out = "out\<lparr>rq_method := m, rq_path := path, rq_query := (case q of None \<Rightarrow> [] | Some s \<Rightarrow> s),
    rq_content_length := 0, rq_keep_alive := False\<rparr>"
  have ok': "line_ok ?line" using ok by (simp add: sendable_def request_line_ok)
  have mem': "take len mem = take len ?text" using mem by (simp add: tx request_head_def)
  note gl = get_line_cong [OF mem', of 0]
  have rl: "parse_request_line ?line out = (0, out\<lparr>rq_method := m, rq_path := path,
      rq_query := (case q of None \<Rightarrow> [] | Some s \<Rightarrow> s)\<rparr>)"
    using parse_request_line_text [of q m path ver out] ok by (simp add: sendable_def split: option.splits)
  have miss: "fst (http_parse_request mem len out) = 0" if "len < length ?pre"
    using get_line_miss [of ?line len "[]" b] ok' that gl by (simp add: http_parse_request_def)
  have hit: "http_parse_request mem len out = parse_body mem len (parse_headers mem len (length ?pre) ?out)"
    if that: "length ?pre \<le> len"
  proof -
    have "mem = ?pre @ drop (length ?pre) mem"
      using take_eq_prefix [of len mem ?pre "hdr_text hs @ eol b' @ ?rest"] mem' that by simp
    then have "take (length ?line) mem = ?line" by (metis append_assoc append_eq_conv_conj)
    with get_line_hit [of ?line "[]" b len] ok' that gl rl show ?thesis by (simp add: http_parse_request_def)
  qed
  have hs_ok: "list_all (hdr_ok \<circ> fst) hs" using ok by (simp add: sendable_def)
  note hs = parse_headers_text [OF hs_ok, of len mem ?pre b' ?rest ?out]
  let ?hl = "length ?pre + length (hdr_text hs) + length (eol b')"
  have fo: "fold (hdr_apply \<circ> fst) hs ?out = ?out\<lparr>rq_content_length := int (length body),
      rq_keep_alive := hdr_keep_alive hs\<rparr>"
    using ok by (simp add: hdr_apply_fold hdr_length_def sendable_def)
  consider "len < length ?pre" | "length ?pre \<le> len" "len < ?hl" | "?hl \<le> len" by linarith
  then show ?thesis
  proof cases
    case 1
    with miss show ?thesis by (simp add: tx request_head_def)
  next
    case 2
    with hs mem' have "fst (parse_headers mem len (length ?pre) ?out) = None" by (simp add: Let_def)
    with 2 hit show ?thesis
      by (cases "parse_headers mem len (length ?pre) ?out") (simp add: parse_body_def tx request_head_def)
  next
    case 3
    with hs fo mem' have "parse_headers mem len (length ?pre) ?out = (Some ?hl, ?out\<lparr>rq_content_length := int (length body),
      rq_keep_alive := hdr_keep_alive hs\<rparr>)" by (simp add: Let_def)
    with 3 hit show ?thesis
      by (simp add: parse_body_def tx request_head_def Let_def add.assoc mem' request_of_def)
  qed
qed

text \<open>C19: A request parses back to what was sent, from any buffer that starts with it. For each
  of the four methods, every path of fewer than 1024 bytes (percent-encoded), every
  query string of fewer than 1024 bytes, a version or none, any headers, and any mix of
  CRLF and bare LF line endings: as long as fewer bytes than the whole request have
  arrived the parser asks for more, whatever bytes follow in memory; from then on it
  consumes exactly the request and delivers its method, decoded path, raw query, length,
  keep-alive flag and body.\<close>

theorem http_parse_roundtrip:
  assumes "sendable m path q ver hs body"
    and "text = request_head m path q ver b hs b' @ body"
    and "take len mem = take len (text @ rest)"
  shows "if len < length text then fst (http_parse_request mem len out) = 0
    else http_parse_request mem len out =
      (int (length text), request_of m path q hs body (take (len - length text) rest))"
  using assms by (rule http_parse_text)

theorem http_parse_roundtrip_witness:
  "let text = request_head HTTP_M_POST ''/api/rooms/1 x'' (Some ''a=1'') (Some ''HTTP/1.1'') True
        [(H_other ''Host: h'', False), (H_length 2, True), (H_connection '' keep-alive'', True)] False @ ''hi''
   in fst (http_parse_request (take 20 text @ ''?????'') 20 no_request) = 0
     \<and> http_parse_request (text @ ''more'') (length text) no_request =
         (int (length text), \<lparr>rq_method = HTTP_M_POST, rq_path = ''/api/rooms/1 x'', rq_query = ''a=1'',
            rq_content_length = 2, rq_body = ''hi'', rq_body_len = 2, rq_keep_alive = True\<rparr>)"
proof -
  let ?hs = "[(H_other ''Host: h'', False), (H_length 2, True), (H_connection '' keep-alive'', True)]"
  let ?text = "request_head HTTP_M_POST ''/api/rooms/1 x'' (Some ''a=1'') (Some ''HTTP/1.1'') True ?hs False @ ''hi''"
  have ka: "hdr_keep_alive ?hs" by (simp add: hdr_keep_alive_def)
  have ok: "sendable HTTP_M_POST ''/api/rooms/1 x'' (Some ''a=1'') (Some ''HTTP/1.1'') ?hs ''hi''"
    by (simp add: sendable_def line_ok_def starts_with_nocase_def to_lower_def LONG_MAX_def hdr_length_def
          query_ok_def token_ok_def HTTP_PATH_MAX_def HTTP_QUERY_MAX_def)
  have len: "20 < length ?text" by (simp add: request_head_def request_line_def eol_def target_text_def)
  note rt = http_parse_roundtrip [OF ok refl]
  have "take 20 (take 20 ?text @ ''?????'') = take 20 (?text @ [])" using len by (simp add: min_def)
  from rt [OF this] len have "fst (http_parse_request (take 20 ?text @ ''?????'') 20 no_request) = 0" by simp
  moreover have "http_parse_request (?text @ ''more'') (length ?text) no_request =
      (int (length ?text), request_of HTTP_M_POST ''/api/rooms/1 x'' (Some ''a=1'') ?hs ''hi'' [])"
    using rt [of "length ?text" "?text @ ''more''" True False "''more''" no_request] by simp
  ultimately show ?thesis unfolding Let_def using ka by (simp add: request_of_def)
qed

lemma parse_request_line_sizes:
  "parse_request_line line o1 = (0, o2) \<Longrightarrow> length (rq_path o2) < HTTP_PATH_MAX \<and> length (rq_query o2) < HTTP_QUERY_MAX"
proof -
  have "length (url_decode s HTTP_PATH_MAX False) < HTTP_PATH_MAX" for s
    using url_decode_length [of s HTTP_PATH_MAX False] by (simp add: HTTP_PATH_MAX_def)
  then show "parse_request_line line o1 = (0, o2) \<Longrightarrow> length (rq_path o2) < HTTP_PATH_MAX \<and> length (rq_query o2) < HTTP_QUERY_MAX"
    by (auto simp: parse_request_line_def Let_def HTTP_QUERY_MAX_def split: option.splits)
qed

lemma parse_header_keeps:
  "rq_path (parse_header mem p l o1) = rq_path o1 \<and> rq_query (parse_header mem p l o1) = rq_query o1
   \<and> (0 \<le> rq_content_length o1 \<longrightarrow> 0 \<le> rq_content_length (parse_header mem p l o1))"
  by (simp add: parse_header_def Let_def)

lemma parse_headers_bounds:
  "parse_headers mem len p o1 = (h, o2) \<Longrightarrow> 0 \<le> rq_content_length o1 \<Longrightarrow>
   rq_path o2 = rq_path o1 \<and> rq_query o2 = rq_query o1 \<and> 0 \<le> rq_content_length o2
   \<and> (case h of None \<Rightarrow> True | Some n \<Rightarrow> p < n \<and> n \<le> len)"
proof (induction mem len p o1 arbitrary: h o2 rule: parse_headers.induct)
  case (1 mem len p o1)
  show ?case
  proof (cases "get_line mem len p")
    case None
    with "1.prems" show ?thesis by (auto simp: parse_headers.simps [of mem len p])
  next
    case (Some ln)
    obtain llen nxt where ln: "ln = (llen, nxt)" by fastforce
    with Some have b: "p < nxt \<and> nxt \<le> len" by (auto dest: get_line_bounds)
    show ?thesis
    proof (cases "llen = 0")
      case True
      with "1.prems" Some ln b show ?thesis by (auto simp: parse_headers.simps [of mem len p])
    next
      case False
      with "1.prems" Some ln have "parse_headers mem len nxt (parse_header mem p llen o1) = (h, o2)"
        by (simp add: parse_headers.simps [of mem len p])
      from "1.IH" [OF Some ln [symmetric] False this] parse_header_keeps [of mem p llen o1] "1.prems"(2) b
      show ?thesis by (auto split: option.splits)
    qed
  qed
qed

text \<open>C32: Whatever bytes are in the buffer, the parser answers -1, 0 or the length of the
  request, which is at least 1 and at most what was received; then the stored path and
  query fit their arrays with the terminating NUL, the length is not negative, and the
  body lies inside the received bytes.\<close>

theorem http_parse_bounds:
  assumes "http_parse_request mem len out = (rc, out')" and "len \<le> length mem"
  shows "rc \<in> {-1, 0} \<or>
    (1 \<le> rc \<and> rc \<le> int len
     \<and> length (rq_path out') < HTTP_PATH_MAX \<and> length (rq_query out') < HTTP_QUERY_MAX
     \<and> rq_content_length out' = int (rq_body_len out')
     \<and> take (rq_body_len out') (rq_body out') = drop (nat rc - rq_body_len out') (take (nat rc) mem))"
proof (cases "get_line mem len 0")
  case None
  with assms show ?thesis by (simp add: http_parse_request_def)
next
  case (Some ln)
  obtain llen nxt where ln: "ln = (llen, nxt)" by fastforce
  obtain r o1 where r: "parse_request_line (take llen mem) out = (r, o1)" by fastforce
  obtain h o2 where h: "parse_headers mem len nxt (o1\<lparr>rq_content_length := 0, rq_keep_alive := False\<rparr>) = (h, o2)"
    by fastforce
  show ?thesis
  proof (cases "r \<noteq> 0 \<or> h = None \<or> len < the h + nat (rq_content_length o2)")
    case True
    with assms(1) Some ln r h show ?thesis
      by (auto simp: http_parse_request_def parse_body_def Let_def split: if_splits option.splits)
  next
    case False
    then obtain n where n: "r = 0" "h = Some n" "n + nat (rq_content_length o2) \<le> len" by auto
    with assms(1) Some ln r h have res: "rc = int (n + nat (rq_content_length o2))"
      "out' = o2\<lparr>rq_body := drop n (take len mem), rq_body_len := nat (rq_content_length o2)\<rparr>"
      by (auto simp: http_parse_request_def parse_body_def Let_def)
    have "nat rc = n + nat (rq_content_length o2)" by (simp only: res(1) nat_int)
    with parse_headers_bounds [OF h] parse_request_line_sizes [of "take llen mem" out o1] r n res show ?thesis
      by (simp add: take_drop add.commute)
  qed
qed

text \<open>A \<^verbatim>\<open>Content-Length\<close> header with an empty value takes its value from the next line:
  the number conversion skips the line ending and reads the digits that follow it.\<close>

theorem empty_length_reads_on:
  assumes "int n \<le> LONG_MAX" and "rest = [] \<or> \<not> is_digit (hd rest)"
  shows "parse_header (pre @ ''Content-Length:'' @ eol b @ show_nat n @ rest) (length pre) 15 out =
    out\<lparr>rq_content_length := int n\<rparr>"
proof -
  have "dropWhile is_space (eol b @ show_nat n @ rest) = dropWhile is_space (show_nat n @ rest)"
    by (simp add: eol_def is_space_def)
  moreover have "fst (strtol (show_nat n @ rest)) = int n" using strtol_show_nat [OF assms] by simp
  ultimately have "fst (strtol (eol b @ show_nat n @ rest)) = int n"
    using strtol_skip by metis
  then show ?thesis by (simp add: parse_header_def starts_with_nocase_def)
qed

section \<open>Query parameters\<close>

fun split_on :: "char \<Rightarrow> string \<Rightarrow> string list" where
  "split_on c [] = [[]]"
| "split_on c (x # xs) = (if x = c then [] # split_on c xs
     else (case split_on c xs of [] \<Rightarrow> [[x]] | f # fs \<Rightarrow> (x # f) # fs))"

lemma split_on_nonempty [simp]: "split_on c s \<noteq> []"
  by (induction s) (auto split: list.splits)

lemma split_on_memchr:
  "split_on c s = (case memchr c s of None \<Rightarrow> [s] | Some n \<Rightarrow> take n s # split_on c (drop (n + 1) s))"
proof (induction s)
  case (Cons x s)
  then show ?case by (cases "memchr c s") simp_all
qed simp

lemma starts_with_snoc:
  "starts_with (key @ [c]) s \<longleftrightarrow> length key < length s \<and> s ! length key = c \<and> starts_with key s"
proof (cases "length key < length s")
  case True
  then show ?thesis by (auto simp: starts_with_def take_Suc_conv_app_nth)
next
  case False
  then have "length (take (length (key @ [c])) s) < length (key @ [c])" by simp
  with False show ?thesis unfolding starts_with_def by (metis less_irrefl)
qed

lemma http_query_get_find:
  "http_query_get p key k = map_option (\<lambda>f. url_decode (drop (length key + 1) f) k True)
     (find (starts_with (key @ ''='')) (split_on (CHR ''&'') p))"
proof (induction p key k rule: http_query_get.induct)
  case (1 p key k)
  show ?case
  proof (cases "p = []")
    case True
    then show ?thesis by (simp add: http_query_get.simps starts_with_def)
  next
    case False
    show ?thesis
    proof (cases "memchr (CHR ''&'') p")
      case None
      with False show ?thesis
        by (subst http_query_get.simps, subst split_on_memchr) (auto simp: Let_def starts_with_snoc)
    next
      case (Some n)
      then have n: "n < length p" by (rule memchr_Some_less)
      have "starts_with key (take n p) \<longleftrightarrow> starts_with key p" if "length key < n"
        using that by (simp add: starts_with_def)
      then have hit: "starts_with (key @ ''='') (take n p) \<longleftrightarrow>
          length key < n \<and> p ! length key = CHR ''='' \<and> starts_with key p"
        using n by (auto simp: starts_with_snoc)
      show ?thesis
      proof (cases "starts_with (key @ ''='') (take n p)")
        case True
        with False Some hit show ?thesis
          by (subst http_query_get.simps, subst split_on_memchr) (simp add: Let_def drop_take)
      next
        case miss: False
        with 1 False Some hit show ?thesis
          by (subst http_query_get.simps, subst split_on_memchr) (auto simp: Let_def)
      qed
    qed
  qed
qed

fun query_text :: "(string \<times> string) list \<Rightarrow> string" where
  "query_text [] = []"
| "query_text [(k, v)] = k @ ''='' @ url_encode v"
| "query_text ((k, v) # kv # kvs) = k @ ''='' @ url_encode v @ ''&'' @ query_text (kv # kvs)"

text \<open>Looking a parameter up in a query string built from names and percent-encoded values
  gives the value of its first occurrence, cut to the caller's buffer, and nothing for a
  name that does not occur.\<close>

theorem http_query_roundtrip:
  assumes "list_all (\<lambda>(k, v). CHR ''&'' \<notin> set k \<and> CHR ''='' \<notin> set k) kvs" and "CHR ''='' \<notin> set key"
  shows "http_query_get (query_text kvs) key outsz = map_option (take (outsz - 1)) (map_of kvs key)"
proof -
  have amp: "CHR ''&'' \<notin> set (url_encode v)" for v
    using url_encode_chars [of "CHR ''&''" v] by (auto simp: url_plain_def char_class_defs)
  have seg: "starts_with (key @ ''='') (k @ CHR ''='' # v) \<longleftrightarrow> k = key" if k: "CHR ''='' \<notin> set k" for k v
  proof -
    have "k = key" if sw: "starts_with (key @ ''='') (k @ CHR ''='' # v)"
    proof -
      obtain r where r: "k @ CHR ''='' # v = key @ CHR ''='' # r" using starts_with_drop [OF sw] by auto
      then have "length k = length key"
        using memchr_split [OF k, of v] memchr_split [OF assms(2), of r] by simp
      with r show ?thesis by simp
    qed
    then show ?thesis by (auto simp: starts_with_def)
  qed
  have sp: "split_on (CHR ''&'') (query_text ((k, v) # kvs)) =
     (if kvs = [] then [k @ ''='' @ url_encode v] else (k @ ''='' @ url_encode v) # split_on (CHR ''&'') (query_text kvs))"
    if "CHR ''&'' \<notin> set k" for k v kvs
    using that amp memchr_split [of "CHR ''&''" "k @ ''='' @ url_encode v"]
    by (cases kvs; subst split_on_memchr) (auto simp: memchr_None_iff split: option.split)
  have "map_option (\<lambda>f. url_decode (drop (length key + 1) f) outsz True)
     (find (starts_with (key @ ''='')) (split_on (CHR ''&'') (query_text kvs))) = map_option (take (outsz - 1)) (map_of kvs key)"
    using assms(1)
  proof (induction kvs)
    case Nil
    then show ?case by (simp add: starts_with_def)
  next
    case (Cons kv kvs)
    then show ?case by (cases kv) (auto simp: sp seg url_decode_encode)
  qed
  then show ?thesis by (simp add: http_query_get_find)
qed

theorem http_parse_bounds_witness:
  "fst (http_parse_request ''GET / HTTP/1.1'' 14 no_request) \<in> {-1, 0}"
  using http_parse_bounds [of "''GET / HTTP/1.1''" 14 no_request 0 no_request]
  by (simp add: http_parse_request_def get_line_def)

theorem empty_length_reads_on_witness:
  "rq_content_length (parse_header (''Content-Length:'' @ crlf @ ''5: x'' @ crlf) 0 15 no_request) = 5"
proof -
  have "show_nat 5 = ''5''" using char_of_char [of "CHR ''5''"] by (simp add: show_nat.simps digit_char_def)
  with empty_length_reads_on [of 5 "'': x'' @ crlf" "[]" True no_request] show ?thesis
    by (simp add: LONG_MAX_def is_digit_def eol_def)
qed

theorem http_query_roundtrip_witness:
  "http_query_get (query_text [(''since'', ''12''), (''user'', ''a b&c'')]) ''user'' 32 = Some ''a b&c''"
  using http_query_roundtrip [of "[(''since'', ''12''), (''user'', ''a b&c'')]" "''user''" 32] by simp

end
