(* ===== verification/Http_Session.thy ===== *)
theory Http_Session
  imports Http_Proto Registry Chat_Client
begin

text \<open>
  The HTTP transport \<^verbatim>\<open>protocol/http/http_session.c\<close>: the registry of connections, the
  response and event-stream writers, the wait on an open stream, and the life of a
  connection: read one request, dispatch it, close. Routing is not part of the
  transport: the hook \<^verbatim>\<open>http_dispatch\<close> is an argument of \<open>http_run_session\<close>, and the
  locale \<open>http_app\<close> states what the transport asks of it (exactly one answer). What
  \<^verbatim>\<open>poll\<close> and \<^verbatim>\<open>recv\<close> report is a list of events; a result \<open>None\<close> means that the events
  are used up and the thread waits. The field \<open>hc_overread\<close> records whether a header was
  ever sent with a length beyond the buffer it was formatted into.
\<close>

section \<open>The model\<close>

definition HTTP_RECV_MAX :: nat where "HTTP_RECV_MAX = 16384"
definition HTTP_READ_TIMEOUT :: int where "HTTP_READ_TIMEOUT = 10000"

record http_conn =
  hc_sock :: sock
  hc_notify_rfd :: fd
  hc_notify_wfd :: fd
  hc_responded :: bool
  hc_shutdown_requested :: bool
  hc_overread :: bool

text \<open>A connection thread with the chat service it shares.\<close>

record 'db hctx =
  hx_c :: http_conn
  hx_w :: "'db chat_world"

datatype http_wait = HTTP_WAIT_NOTIFY | HTTP_WAIT_TIMEOUT | HTTP_WAIT_CLOSED

subsection \<open>Registry\<close>

definition session_register :: "nat \<Rightarrow> reg_state \<Rightarrow> reg_state" where
  "session_register c st =
     (let st = st\<lparr>rg_head := c # rg_head st\<rparr>
      in if rg_down st then st\<lparr>rg_stop := (rg_stop st)(c := True)\<rparr> else st)"

fun unlink_conn :: "nat \<Rightarrow> nat list \<Rightarrow> nat list" where
  "unlink_conn c [] = []"
| "unlink_conn c (p # ps) = (if p = c then ps else p # unlink_conn c ps)"

definition session_unregister :: "nat \<Rightarrow> reg_state \<Rightarrow> reg_state" where
  "session_unregister c st = st\<lparr>rg_head := unlink_conn c (rg_head st)\<rparr>"

definition http_shutdown_all :: "reg_state \<Rightarrow> reg_state" where
  "http_shutdown_all st = (let st = st\<lparr>rg_down := True\<rparr> in fold flag_and_wake (rg_head st) st)"

subsection \<open>Writers\<close>

definition send_all :: "http_conn \<Rightarrow> string \<Rightarrow> http_conn \<times> int" where
  "send_all c buf =
     (case sock_send (hc_sock c) buf of (sk, ok) \<Rightarrow> (c\<lparr>hc_sock := sk\<rparr>, if ok then 0 else -1))"

definition status_reason :: "int \<Rightarrow> string" where
  "status_reason status =
     (if status = 200 then ''OK''
      else if status = 201 then ''Created''
      else if status = 400 then ''Bad Request''
      else if status = 404 then ''Not Found''
      else if status = 405 then ''Method Not Allowed''
      else if status = 408 then ''Request Timeout''
      else if status = 413 then ''Payload Too Large''
      else if status = 500 then ''Internal Server Error''
      else ''OK'')"

definition response_head :: "int \<Rightarrow> string \<Rightarrow> nat \<Rightarrow> string" where
  "response_head status content_type body_len =
     ''HTTP/1.1 '' @ show_int status @ '' '' @ status_reason status @ crlf
     @ ''Content-Type: '' @ content_type @ crlf
     @ ''Content-Length: '' @ show_nat body_len @ crlf
     @ ''Access-Control-Allow-Origin: *'' @ crlf
     @ ''Connection: close'' @ crlf
     @ crlf"

definition http_respond :: "int \<Rightarrow> string \<Rightarrow> string \<Rightarrow> http_conn \<Rightarrow> http_conn" where
  "http_respond status content_type body c =
     (case snprintf 512 (response_head status content_type (length body)) of (hdr, n) \<Rightarrow>
        let c = c\<lparr>hc_overread := (hc_overread c \<or> n > length hdr)\<rparr>;
            c = (if n > 0 then fst (send_all c hdr) else c);
            c = (if length body \<noteq> 0 then fst (send_all c body) else c)
        in c\<lparr>hc_responded := True\<rparr>)"

definition http_respond_json :: "int \<Rightarrow> string \<Rightarrow> http_conn \<Rightarrow> http_conn" where
  "http_respond_json status json c = http_respond status ''application/json'' (cstr json) c"

definition http_respond_text :: "int \<Rightarrow> string \<Rightarrow> http_conn \<Rightarrow> http_conn" where
  "http_respond_text status str c = http_respond status ''text/plain; charset=utf-8'' (cstr str) c"

definition sse_head :: string where
  "sse_head = ''HTTP/1.1 200 OK'' @ crlf @ ''Content-Type: text/event-stream'' @ crlf
     @ ''Cache-Control: no-cache'' @ crlf @ ''Access-Control-Allow-Origin: *'' @ crlf
     @ ''Connection: keep-alive'' @ crlf @ crlf"

definition http_sse_begin :: "http_conn \<Rightarrow> http_conn" where
  "http_sse_begin c = (fst (send_all c sse_head))\<lparr>hc_responded := True\<rparr>"

text \<open>Three writes in a row, stopping at the first that fails.\<close>

definition send_three :: "string \<Rightarrow> string \<Rightarrow> string \<Rightarrow> http_conn \<Rightarrow> http_conn \<times> int" where
  "send_three a b d c =
     (case send_all c a of (c, rc) \<Rightarrow>
        if rc < 0 then (c, -1)
        else (case send_all c b of (c, rc) \<Rightarrow>
                if rc < 0 then (c, -1)
                else (case send_all c d of (c, rc) \<Rightarrow> if rc < 0 then (c, -1) else (c, 0))))"

definition http_sse_send :: "http_conn \<Rightarrow> string \<Rightarrow> http_conn \<times> int" where
  "http_sse_send c dat = send_three ''data: '' dat [LF, LF] c"

definition http_sse_comment :: "http_conn \<Rightarrow> string \<Rightarrow> http_conn \<times> int" where
  "http_sse_comment c str = send_three '': '' (cstr str) [LF, LF] c"

definition http_conn_notify_wfd :: "http_conn \<Rightarrow> fd" where
  "http_conn_notify_wfd c = hc_notify_wfd c"

text \<open>A wait on an open stream: what the other threads did meanwhile, and what \<^verbatim>\<open>poll\<close> and
  the \<^verbatim>\<open>recv\<close> after it returned.\<close>

datatype wait_event = Wait_error | Wait_eintr | Wait_timeout | Wait_ready bool bool int

record 'db hturn =
  ht_env :: "'db hctx \<Rightarrow> 'db hctx"
  ht_event :: wait_event

definition http_conn_wait :: "'db hturn \<Rightarrow> 'db hctx \<Rightarrow> http_wait \<times> 'db hctx" where
  "http_conn_wait t hx =
     (if hc_shutdown_requested (hx_c hx) then (HTTP_WAIT_CLOSED, hx)
      else let hx = ht_env t hx
           in case ht_event t of
                Wait_error \<Rightarrow> (HTTP_WAIT_CLOSED, hx)
              | Wait_eintr \<Rightarrow> (HTTP_WAIT_TIMEOUT, hx)
              | Wait_timeout \<Rightarrow> (HTTP_WAIT_TIMEOUT, hx)
              | Wait_ready notify sock_ready r \<Rightarrow>
                  if hc_notify_rfd (hx_c hx) \<ge> 0 \<and> notify
                  then (let w = hx_w hx;
                            hx = hx\<lparr>hx_w := w\<lparr>w_pipes := pipe_drain (hc_notify_wfd (hx_c hx)) (w_pipes w)\<rparr>\<rparr>
                        in (if hc_shutdown_requested (hx_c hx) then HTTP_WAIT_CLOSED else HTTP_WAIT_NOTIFY, hx))
                  else if sock_ready then (if r \<le> 0 then HTTP_WAIT_CLOSED else HTTP_WAIT_TIMEOUT, hx)
                  else (HTTP_WAIT_TIMEOUT, hx))"

subsection \<open>The life of a connection\<close>

text \<open>The arguments after the socket: whether \<^verbatim>\<open>calloc\<close> succeeds and what \<^verbatim>\<open>pipe2\<close> returns.\<close>

definition http_create_session :: "sock \<Rightarrow> bool \<Rightarrow> (fd \<times> fd) option \<Rightarrow> http_conn option" where
  "http_create_session sk mem pipe2 =
     (if \<not> mem then None
      else let c = \<lparr>hc_sock = sk, hc_notify_rfd = 0, hc_notify_wfd = 0, hc_responded = False,
                    hc_shutdown_requested = False, hc_overread = False\<rparr>
           in Some (case pipe2 of
                      Some (r, w) \<Rightarrow> c\<lparr>hc_notify_rfd := r, hc_notify_wfd := w\<rparr>
                    | None \<Rightarrow> c\<lparr>hc_notify_rfd := -1, hc_notify_wfd := -1\<rparr>))"

datatype read_event = Read_poll_eintr | Read_poll_error | Read_timeout
  | Read_eintr | Read_error | Read_closed | Read_data string

text \<open>\<open>buf\<close> is the receive array, \<open>hav\<close> the bytes in it. A \<^verbatim>\<open>recv\<close> stores at most what is free.\<close>

datatype read_result = Read_stop http_conn int http_request | Read_again string nat http_request

definition read_step :: "read_event \<Rightarrow> http_conn \<Rightarrow> string \<Rightarrow> nat \<Rightarrow> http_request \<Rightarrow> read_result" where
  "read_step ev c buf hav req =
     (case ev of
        Read_poll_eintr \<Rightarrow> Read_again buf hav req
      | Read_poll_error \<Rightarrow> Read_stop c (-1) req
      | Read_timeout \<Rightarrow> Read_stop (http_respond_text 408 (''Request Timeout'' @ [LF]) c) (-1) req
      | Read_eintr \<Rightarrow> Read_again buf hav req
      | Read_error \<Rightarrow> Read_stop c (-1) req
      | Read_closed \<Rightarrow> Read_stop c (-1) req
      | Read_data bs \<Rightarrow>
          let bs = take (length buf - hav) bs
          in if bs = [] then Read_stop c (-1) req
             else let buf = take hav buf @ bs @ drop (hav + length bs) buf;
                      hav = hav + length bs
                  in case http_parse_request buf hav req of (tot, req) \<Rightarrow>
                       if tot > 0 then Read_stop c tot req
                       else if tot < 0 then Read_stop (http_respond_text 400 (''Bad Request'' @ [LF]) c) (-1) req
                       else if hav \<ge> length buf
                       then Read_stop (http_respond_text 413 (''Payload Too Large'' @ [LF]) c) (-1) req
                       else Read_again buf hav req)"

primrec read_request ::
  "read_event list \<Rightarrow> http_conn \<Rightarrow> string \<Rightarrow> nat \<Rightarrow> http_request \<Rightarrow> (http_conn \<times> int \<times> http_request) option" where
  "read_request [] c buf hav req = None"
| "read_request (ev # evs) c buf hav req =
     (case read_step ev c buf hav req of
        Read_stop c rc req \<Rightarrow> Some (c, rc, req)
      | Read_again buf hav req \<Rightarrow> read_request evs c buf hav req)"

text \<open>Each pair is what \<^verbatim>\<open>poll\<close> and then \<^verbatim>\<open>recv\<close> return; the result also counts the rounds.\<close>

fun drain_rounds :: "nat \<Rightarrow> (int \<times> int) list \<Rightarrow> nat" where
  "drain_rounds 0 evs = 0"
| "drain_rounds (Suc i) [] = 0"
| "drain_rounds (Suc i) ((p, n) # evs) = (if p \<le> 0 then 1 else if n \<le> 0 then 1 else Suc (drain_rounds i evs))"

definition close_graceful :: "(int \<times> int) list \<Rightarrow> sock \<Rightarrow> sock \<times> nat" where
  "close_graceful evs sk = (sk\<lparr>sk_shut := True, sk_closed := True\<rparr>, drain_rounds 20 evs)"

definition conn_close :: "(int \<times> int) list \<Rightarrow> 'db hctx \<Rightarrow> 'db hctx" where
  "conn_close evs hx =
     (let c = hx_c hx; w = hx_w hx;
          w = (if hc_notify_wfd c \<ge> 0 then w\<lparr>w_pipes := (w_pipes w)(hc_notify_wfd c := None)\<rparr> else w)
      in hx\<lparr>hx_w := w, hx_c := c\<lparr>hc_sock := fst (close_graceful evs (hc_sock c))\<rparr>\<rparr>)"

text \<open>\<open>buf0\<close> is the uninitialised receive array.\<close>

definition http_run_session ::
  "('db hctx \<Rightarrow> http_request \<Rightarrow> 'db hctx option) \<Rightarrow> nat \<Rightarrow> string \<Rightarrow> read_event list \<Rightarrow> (int \<times> int) list \<Rightarrow>
   reg_state \<Rightarrow> 'db hctx \<Rightarrow> (reg_state \<times> 'db hctx) option" where
  "http_run_session dispatch self buf0 evs drain rg hx =
     (let rg = session_register self rg;
          c = (hx_c hx)\<lparr>hc_shutdown_requested := hc_shutdown_requested (hx_c hx) \<or> rg_stop rg self\<rparr>
      in case read_request evs c buf0 0 no_request of
           None \<Rightarrow> None
         | Some (c, tot, req) \<Rightarrow>
             let hx = hx\<lparr>hx_c := c\<rparr>
             in case (if tot > 0
                      then (case dispatch hx req of
                              None \<Rightarrow> None
                            | Some hx \<Rightarrow>
                                Some (if \<not> hc_responded (hx_c hx)
                                      then hx\<lparr>hx_c := http_respond_text 404 (''Not Found'' @ [LF]) (hx_c hx)\<rparr> else hx))
                      else Some hx) of
                  None \<Rightarrow> None
                | Some hx \<Rightarrow> Some (session_unregister self rg, conn_close drain hx))"

definition http_request_shutdown :: "http_conn option \<Rightarrow> http_conn option" where
  "http_request_shutdown c = map_option (\<lambda>c. c\<lparr>hc_shutdown_requested := True\<rparr>) c"

section \<open>The registry keeps its contract\<close>

lemma unlink_conn_remove1: "unlink_conn c xs = remove1 c xs"
  by (induction xs) simp_all

interpretation http_reg: registry session_register session_unregister http_shutdown_all
  by unfold_locales (auto simp: session_register_def session_unregister_def http_shutdown_all_def unlink_conn_remove1 Let_def)

text \<open>After a shutdown call, in any interleaving with registrations and removals, every
  HTTP connection in the registry carries the stop flag, also one registered later, and
  the call makes the open pipe of every registered connection readable.\<close>

theorem http_shutdown_reaches_all:
  assumes "flagged st" and "Op_shutdown \<in> set ops"
  shows "list_all (rg_stop (fold (apply_op session_register session_unregister http_shutdown_all) ops st))
      (rg_head (fold (apply_op session_register session_unregister http_shutdown_all) ops st))
    \<and> (\<forall>s \<in> set (rg_head st). 0 \<le> rg_wfd st s \<and> rg_wfd st s \<in> dom (rg_pipes st) \<longrightarrow>
        pending (rg_pipes (http_shutdown_all st)) (rg_wfd st s))"
  using http_reg.run_flagged [OF assms] http_reg.shutdown_wakes by (simp add: list_all_iff)

section \<open>What the writers send\<close>

definition open_conn :: "http_conn \<Rightarrow> bool" where
  "open_conn c \<longleftrightarrow> sk_script (hc_sock c) = []"

definition conn_sent :: "http_conn \<Rightarrow> string" where
  "conn_sent c = sk_sent (hc_sock c)"

text \<open>What no writer touches.\<close>

definition conn_ctl :: "http_conn \<Rightarrow> fd \<times> fd \<times> bool" where
  "conn_ctl c = (hc_notify_rfd c, hc_notify_wfd c, hc_shutdown_requested c)"

lemma send_all_frame [simp]:
  "conn_ctl (fst (send_all c buf)) = conn_ctl c" "hc_responded (fst (send_all c buf)) = hc_responded c"
  "hc_overread (fst (send_all c buf)) = hc_overread c"
  by (simp_all add: send_all_def conn_ctl_def split: prod.split)

lemma send_all_open:
  assumes "open_conn c"
  shows "send_all c buf = (c\<lparr>hc_sock := (hc_sock c)\<lparr>sk_sent := conn_sent c @ buf\<rparr>\<rparr>, 0)"
  using assms by (simp add: send_all_def open_conn_def conn_sent_def sock_send_empty_script)

lemma send_all_open_simps [simp]:
  "open_conn c \<Longrightarrow> open_conn (fst (send_all c buf))"
  "open_conn c \<Longrightarrow> conn_sent (fst (send_all c buf)) = conn_sent c @ buf"
  "open_conn c \<Longrightarrow> snd (send_all c buf) = 0"
  by (simp_all add: send_all_open) (simp_all add: open_conn_def conn_sent_def)

lemma send_three_frame [simp]:
  "conn_ctl (fst (send_three a b d c)) = conn_ctl c" "hc_responded (fst (send_three a b d c)) = hc_responded c"
  "hc_overread (fst (send_three a b d c)) = hc_overread c"
  by (simp_all add: send_three_def split_beta)

lemma send_three_open:
  assumes "open_conn c"
  shows "open_conn (fst (send_three a b d c))" "conn_sent (fst (send_three a b d c)) = conn_sent c @ a @ b @ d"
    "snd (send_three a b d c) = 0"
  using assms by (simp_all add: send_three_def split_beta)

datatype sse_item = Sse_comment string | Sse_data string

fun sse_frame :: "sse_item \<Rightarrow> string" where
  "sse_frame (Sse_comment s) = '': '' @ s @ [LF, LF]"
| "sse_frame (Sse_data s) = ''data: '' @ s @ [LF, LF]"

text \<open>The frames the server writes: the two comments of \<^verbatim>\<open>handle_sse\<close>, and data on one line.\<close>

fun frame_ok :: "sse_item \<Rightarrow> bool" where
  "frame_ok (Sse_comment s) \<longleftrightarrow> s = ''connected'' \<or> s = ''keepalive''"
| "frame_ok (Sse_data s) \<longleftrightarrow> LF \<notin> set s"

definition response_text :: "int \<Rightarrow> string \<Rightarrow> string \<Rightarrow> string" where
  "response_text status content_type body = response_head status content_type (length body) @ body"

text \<open>The text of a header line does not end the line.\<close>

definition in_line :: "string \<Rightarrow> bool" where
  "in_line s \<longleftrightarrow> CR \<notin> set s \<and> LF \<notin> set s"

text \<open>One response whose body has the length its header states, or one event stream.\<close>

definition one_answer :: "string \<Rightarrow> bool" where
  "one_answer out \<longleftrightarrow> (\<exists>status ctype body. in_line ctype \<and> out = response_text status ctype body)
     \<or> (\<exists>fs. list_all frame_ok fs \<and> out = sse_head @ concat (map sse_frame fs))"

lemma in_line_simps [simp]:
  "in_line []" "in_line (a @ b) \<longleftrightarrow> in_line a \<and> in_line b" "in_line (c # s) \<longleftrightarrow> c \<noteq> CR \<and> c \<noteq> LF \<and> in_line s"
  by (auto simp: in_line_def)

lemma in_line_show [simp]: "in_line (show_nat n)" "in_line (show_int i)" "in_line (status_reason status)"
proof -
  show n: "in_line (show_nat n)" for n using show_nat_digits [of n] by (auto simp: in_line_def is_digit_def)
  show "in_line (show_int i)" by (simp add: show_int_def n)
  show "in_line (status_reason status)" by (simp add: status_reason_def)
qed

lemma show_nat_inj [simp]: "show_nat m = show_nat n \<longleftrightarrow> m = n"
  by (metis digits_value_show_nat of_nat_eq_iff)

text \<open>A line, and the line of a frame, has one end.\<close>

lemma split_at_unique: "c \<notin> set x \<Longrightarrow> c \<notin> set y \<Longrightarrow> x @ c # r = y @ c # r' \<longleftrightarrow> x = y \<and> r = r'"
  by (auto simp: append_eq_append_conv2 append_eq_Cons_conv Cons_eq_append_conv)

lemma line_unique: "in_line x \<Longrightarrow> in_line y \<Longrightarrow> x @ crlf @ r = y @ crlf @ r' \<longleftrightarrow> x = y \<and> r = r'"
  using split_at_unique [of CR x y "LF # r" "LF # r'"] by (auto simp: in_line_def)

lemma sse_frame_unique:
  assumes "frame_ok f" "frame_ok g" "sse_frame f @ r = sse_frame g @ r'"
  shows "f = g \<and> r = r'"
proof -
  have "LF \<notin> set s" if "frame_ok (Sse_comment s)" for s using that by auto
  with assms show ?thesis by (cases f; cases g) (auto simp: split_at_unique simp del: frame_ok.simps(1))
qed

text \<open>A stream has one reading as frames, also when it is followed by something that does not
  begin like one.\<close>

lemma sse_frames_unique:
  assumes "list_all frame_ok fs" "list_all frame_ok gs" "concat (map sse_frame fs) @ r = concat (map sse_frame gs) @ r'"
    and "r = [] \<or> hd r = CHR ''H''" "r' = [] \<or> hd r' = CHR ''H''"
  shows "fs = gs \<and> r = r'"
  using assms(1-3)
proof (induction fs arbitrary: gs)
  case Nil
  have "sse_frame g @ xs \<noteq> r" for g xs using assms(4) by (cases g) auto
  with Nil show ?case by (cases gs) auto
next
  case (Cons f fs)
  have ne: "sse_frame f @ xs \<noteq> r'" for xs using assms(5) by (cases f) auto
  then obtain g gs' where gs: "gs = g # gs'" using Cons.prems(3) by (cases gs) auto
  with Cons.prems have "f = g \<and> concat (map sse_frame fs) @ r = concat (map sse_frame gs') @ r'"
    by (intro sse_frame_unique) auto
  with Cons gs show ?case by auto
qed

lemma response_text_unique:
  assumes "in_line t" "in_line t'" "response_text s t b @ r = response_text s' t' b'"
  shows "r = drop (length b) b' \<and> length b = length b'"
proof -
  define L where "L s = ''HTTP/1.1 '' @ show_int s @ '' '' @ status_reason s" for s
  define T where "T t = ''Content-Type: '' @ t" for t
  define N where "N n = ''Content-Length: '' @ show_nat n" for n
  have l: "in_line (L s)" "in_line (N n)" for s n by (simp_all add: L_def N_def)
  have T: "in_line (T t)" "in_line (T t')" using assms(1,2) by (simp_all add: T_def)
  have "response_text s t b = L s @ crlf @ T t @ crlf @ N (length b) @ crlf
      @ ''Access-Control-Allow-Origin: *'' @ crlf @ ''Connection: close'' @ crlf @ crlf @ b" for s t b
    by (simp add: response_text_def response_head_def L_def T_def N_def)
  with assms(3) have "N (length b) = N (length b')" "b @ r = b'"
    using l T by (simp_all add: line_unique [simplified])
  then show ?thesis by (auto simp: N_def)
qed

lemma response_not_stream:
  assumes "in_line t"
  shows "response_text s t b @ r \<noteq> sse_head @ r'"
proof
  assume eq: "response_text s t b @ r = sse_head @ r'"
  define L where "L = ''HTTP/1.1 '' @ show_int s @ '' '' @ status_reason s"
  define T where "T = ''Content-Type: '' @ t"
  have l: "in_line L" "in_line T" using assms by (simp_all add: L_def T_def)
  obtain x where "response_text s t b @ r = L @ crlf @ T @ crlf @ ''Content-Length'' @ x"
    by (simp add: response_text_def response_head_def L_def T_def)
  moreover obtain y where "sse_head @ r' = ''HTTP/1.1 200 OK'' @ crlf @ ''Content-Type: text/event-stream'' @ crlf @ ''Cache'' @ y"
    by (simp add: sse_head_def)
  ultimately have "L @ crlf @ T @ crlf @ ''Content-Length'' @ x =
      ''HTTP/1.1 200 OK'' @ crlf @ ''Content-Type: text/event-stream'' @ crlf @ ''Cache'' @ y" by (simp only: eq)
  then have "T @ crlf @ ''Content-Length'' @ x = ''Content-Type: text/event-stream'' @ crlf @ ''Cache'' @ y"
    by (subst (asm) line_unique [OF l(1)]) simp_all
  then have "''Content-Length'' @ x = ''Cache'' @ y" by (subst (asm) line_unique [OF l(2)]) simp_all
  then show False by simp
qed

text \<open>No answer contains a second one: what was sent to a client that got two answers is not one.\<close>

lemma answer_not_twice:
  assumes "one_answer a" "one_answer b"
  shows "\<not> one_answer (a @ b)"
proof -
  have b: "b \<noteq> []" "hd b = CHR ''H''"
    using assms(2) by (auto simp: one_answer_def response_text_def response_head_def sse_head_def)
  show ?thesis
  proof
    assume ab: "one_answer (a @ b)"
    from assms(1) consider s t x where "in_line t" "a = response_text s t x"
      | fs where "list_all frame_ok fs" "a = sse_head @ concat (map sse_frame fs)" by (auto simp: one_answer_def)
    then show False
    proof cases
      case 1
      with ab response_not_stream [of t s x b] response_text_unique [of t _ s x b] b show False
        by (fastforce simp: one_answer_def)
    next
      case 2
      then have "a @ b \<noteq> response_text s t x" if "in_line t" for s t x
        using response_not_stream [OF that, of s x "[]"] by (metis append.assoc append_Nil2)
      with ab 2 obtain gs where "list_all frame_ok gs" "concat (map sse_frame fs) @ b = concat (map sse_frame gs) @ []"
        by (auto simp: one_answer_def)
      with sse_frames_unique [OF 2(1), of gs b "[]"] b show False by auto
    qed
  qed
qed

definition plain_status :: "int \<Rightarrow> bool" where
  "plain_status status \<longleftrightarrow> 100 \<le> status \<and> status \<le> 999"

lemma response_head_fits:
  assumes "plain_status status" "length ctype \<le> 64" "blen < 10 ^ 20"
  shows "length (response_head status ctype blen) < 512"
proof -
  have "length (show_int status) \<le> 20"
    using assms(1) by (intro length_show_int) (simp_all add: plain_status_def LONG_MIN_def LONG_MAX_def)
  moreover have "length (show_nat blen) \<le> Suc 19" using assms(3) by (intro length_show_nat) simp
  moreover have "length (status_reason status) \<le> 21" by (simp add: status_reason_def)
  ultimately show ?thesis using assms(2) by (simp add: response_head_def)
qed

lemma http_respond_facts:
  assumes "plain_status status" "length ctype \<le> 64" "length body < 10 ^ 20"
  shows "conn_ctl (http_respond status ctype body c) = conn_ctl c"
    and "hc_responded (http_respond status ctype body c)"
    and "hc_overread (http_respond status ctype body c) = hc_overread c"
    and "open_conn c \<Longrightarrow> open_conn (http_respond status ctype body c)
       \<and> conn_sent (http_respond status ctype body c) = conn_sent c @ response_text status ctype body"
proof -
  let ?h = "response_head status ctype (length body)"
  have fits: "take 511 ?h = ?h" using response_head_fits [OF assms] by simp
  have ne: "response_head status ctype n \<noteq> []" for n by (simp add: response_head_def)
  have eq: "http_respond status ctype body c =
      (let c = fst (send_all c ?h) in (if body = [] then c else fst (send_all c body))\<lparr>hc_responded := True\<rparr>)"
    using fits ne by (simp add: http_respond_def snprintf_def Let_def)
  have [simp]: "conn_ctl (d\<lparr>hc_responded := r\<rparr>) = conn_ctl d" "open_conn (d\<lparr>hc_responded := r\<rparr>) = open_conn d"
    "conn_sent (d\<lparr>hc_responded := r\<rparr>) = conn_sent d" for d r
    by (simp_all add: conn_ctl_def open_conn_def conn_sent_def)
  show "conn_ctl (http_respond status ctype body c) = conn_ctl c"
    "hc_responded (http_respond status ctype body c)"
    "hc_overread (http_respond status ctype body c) = hc_overread c"
    "open_conn c \<Longrightarrow> open_conn (http_respond status ctype body c)
       \<and> conn_sent (http_respond status ctype body c) = conn_sent c @ response_text status ctype body"
    by (simp_all add: eq Let_def response_text_def)
qed

text \<open>\<open>answered c c'\<close>: the connection got one whole answer and nothing else changed.\<close>

definition answered :: "http_conn \<Rightarrow> http_conn \<Rightarrow> bool" where
  "answered c c' \<longleftrightarrow> hc_notify_rfd c' = hc_notify_rfd c \<and> hc_notify_wfd c' = hc_notify_wfd c
     \<and> hc_responded c' \<and> hc_overread c' = hc_overread c
     \<and> (open_conn c \<longrightarrow> open_conn c' \<and> (\<exists>out. conn_sent c' = conn_sent c @ out \<and> one_answer out))"

lemma respond_answered:
  "plain_status status \<Longrightarrow> length ctype \<le> 64 \<Longrightarrow> in_line ctype \<Longrightarrow> length body < 10 ^ 20 \<Longrightarrow>
   answered c (http_respond status ctype body c)"
  using http_respond_facts [of status ctype body c]
  by (auto simp: answered_def one_answer_def conn_ctl_def)

lemma respond_text_answered:
  "plain_status status \<Longrightarrow> length str < 10 ^ 20 \<Longrightarrow> answered c (http_respond_text status str c)"
  unfolding http_respond_text_def
  by (rule respond_answered) (auto intro: le_less_trans [OF length_cstr_le])

lemma respond_json_answered:
  "plain_status status \<Longrightarrow> length str < 10 ^ 20 \<Longrightarrow> answered c (http_respond_json status str c)"
  unfolding http_respond_json_def
  by (rule respond_answered) (auto intro: le_less_trans [OF length_cstr_le])

lemma no_two_answers: "out = [] \<or> one_answer out \<Longrightarrow> one_answer a \<Longrightarrow> one_answer b \<Longrightarrow> out \<noteq> a @ b"
  using answer_not_twice [of a b] by (auto simp: one_answer_def response_text_def response_head_def sse_head_def)

section \<open>Reading a request\<close>

lemma read_step_fragment:
  assumes ok: "sendable m path q ver hs body"
    and tx: "text = request_head m path q ver b hs b' @ body"
    and buf: "take hav buf = take hav text" "hav < length text" "length text \<le> length buf"
    and bs: "bs \<noteq> []" "take hav text @ bs @ rest = text"
  shows "read_step (Read_data bs) c buf hav req =
    (if rest = [] then Read_stop c (int (length text)) (request_of m path q hs body [])
     else Read_again (take hav buf @ bs @ drop (hav + length bs) buf) (hav + length bs)
            (snd (http_parse_request (take hav buf @ bs @ drop (hav + length bs) buf) (hav + length bs) req)))"
proof -
  have len: "hav + length bs + length rest = length text"
    using arg_cong [OF bs(2), of length] buf(2) by simp
  have t: "take (length buf - hav) bs = bs" using len buf(3) by simp
  let ?buf = "take hav buf @ bs @ drop (hav + length bs) buf" and ?n = "hav + length bs"
  have lb: "length ?buf = length buf" using len buf(3) by simp
  have "take ?n text = take hav text @ bs"
  proof -
    have "take ?n (take hav text @ bs @ rest) = take hav text @ bs" using buf(2) by simp
    then show ?thesis by (simp only: bs(2))
  qed
  moreover have "take ?n ?buf = take hav buf @ bs" using len buf(3) by simp
  ultimately have "take ?n ?buf = take ?n (text @ [])" using buf(1) by simp
  note p = http_parse_text [OF ok tx this, of req]
  show ?thesis
  proof (cases "rest = []")
    case True
    with len have "?n = length text" by simp
    moreover have "0 < length text" using buf(2) by linarith
    ultimately show ?thesis using p t bs(1) True by (simp add: read_step_def)
  next
    case False
    then have "0 < length rest" by simp
    with len have lt: "?n < length text" by linarith
    with p have z: "fst (http_parse_request ?buf ?n req) = 0" by simp
    from lt buf(3) have "\<not> length buf \<le> ?n" by simp
    with z t bs(1) False lb show ?thesis by (simp add: read_step_def split_beta Let_def)
  qed
qed

lemma read_request_pieces:
  assumes "sendable m path q ver hs body" and "text = request_head m path q ver b hs b' @ body"
    and "take hav buf = take hav text" and "hav < length text" and "length text \<le> length buf"
    and "take hav text @ concat pieces = text" and "[] \<notin> set pieces"
    and "filter (\<lambda>ev. ev \<noteq> Read_eintr \<and> ev \<noteq> Read_poll_eintr) evs = map Read_data pieces"
  shows "read_request evs c buf hav req = Some (c, int (length text), request_of m path q hs body [])"
  using assms(3-)
proof (induction evs arbitrary: pieces hav buf req)
  case Nil
  then show ?case by simp
next
  case (Cons ev evs)
  show ?case
  proof (cases "ev = Read_eintr \<or> ev = Read_poll_eintr")
    case True
    with Cons.IH [OF Cons.prems(1-5)] Cons.prems(6) show ?thesis by (auto simp: read_step_def)
  next
    case False
    with Cons.prems(6) obtain bs ps where p: "pieces = bs # ps" "ev = Read_data bs"
      "filter (\<lambda>ev. ev \<noteq> Read_eintr \<and> ev \<noteq> Read_poll_eintr) evs = map Read_data ps" by auto
    with Cons.prems have bs: "bs \<noteq> []" "take hav text @ bs @ concat ps = text" by auto
    note st = read_step_fragment [OF assms(1,2) Cons.prems(1-3) bs, of c req]
    show ?thesis
    proof (cases "concat ps = []")
      case True
      with st p show ?thesis by simp
    next
      case False
      let ?buf = "take hav buf @ bs @ drop (hav + length bs) buf" and ?n = "hav + length bs"
      have len: "?n + length (concat ps) = length text"
        using arg_cong [OF bs(2), of length] Cons.prems(2) by simp
      have tn: "take ?n text = take hav text @ bs"
      proof -
        have "take ?n (take hav text @ bs @ concat ps) = take hav text @ bs" using Cons.prems(2) by simp
        then show ?thesis by (simp only: bs(2))
      qed
      have "take ?n ?buf = take ?n text" using tn Cons.prems(1-3) len by simp
      moreover have "?n < length text" using False len by (cases "concat ps") auto
      moreover have "length text \<le> length ?buf" using Cons.prems(3) len by simp
      moreover have "take ?n text @ concat ps = text" using tn bs(2) by simp
      moreover have "[] \<notin> set ps" using Cons.prems(5) p(1) by simp
      ultimately show ?thesis using Cons.IH [of ?n ?buf ps] p st False by simp
    qed
  qed
qed

text \<open>C28: A well-formed request of at most the buffer size is read whole in whatever pieces it
  arrives, also with interrupted calls in between and whatever the receive array held
  before: the reader answers nothing itself, returns the length of the request, and
  delivers exactly its method, path, query and body.\<close>

theorem read_request_fragments:
  assumes "sendable m path q ver hs body"
    and "text = request_head m path q ver b hs b' @ body" and "length text \<le> length buf"
    and "concat pieces = text" and "[] \<notin> set pieces"
    and "filter (\<lambda>ev. ev \<noteq> Read_eintr \<and> ev \<noteq> Read_poll_eintr) evs = map Read_data pieces"
  shows "read_request evs c buf 0 no_request = Some (c, int (length text), request_of m path q hs body [])"
  using read_request_pieces [OF assms(1,2), of 0 buf pieces evs c no_request] assms by (simp add: request_head_def request_line_def)

lemma read_request_full:
  assumes "sendable m path q ver hs body" and "text = request_head m path q ver b hs b' @ body"
    and "take hav buf = take hav text" and "hav < length buf" and "length buf < length text"
    and "take hav text @ concat pieces = text" and "[] \<notin> set pieces"
  shows "\<exists>req'. read_request (map Read_data pieces) c buf hav req =
      Some (http_respond_text 413 (''Payload Too Large'' @ [LF]) c, -1, req')"
  using assms(3-)
proof (induction pieces arbitrary: hav buf req)
  case Nil
  then have "length text \<le> hav" by (metis append_Nil2 concat.simps(1) length_take min.cobounded2)
  with Nil show ?case by simp
next
  case (Cons p ps)
  let ?p = "take (length buf - hav) p"
  let ?n = "hav + length ?p" and ?buf = "take hav buf @ ?p @ drop (hav + length ?p) buf"
  have ne: "?p \<noteq> []" using Cons.prems(2,5) by auto
  have n: "?n \<le> length buf" using Cons.prems(2) by simp
  have "take ?n (take hav text @ p @ concat ps) = take hav text @ ?p"
    using Cons.prems(2,3) by (simp add: min_def)
  with Cons.prems(4) have "take ?n text = take hav text @ ?p" by simp
  moreover have "take ?n ?buf = take hav buf @ ?p" using n Cons.prems(2) by (simp add: min_def)
  ultimately have tn: "take ?n ?buf = take ?n (text @ [])" using Cons.prems(1) by simp
  have z: "fst (http_parse_request ?buf ?n req) = 0"
    using http_parse_text [OF assms(1,2) tn, of req] n Cons.prems(3) by simp
  have lb: "length ?buf = length buf" using n by simp
  show ?case
  proof (cases "length buf \<le> ?n")
    case True
    with z ne lb have "read_step (Read_data p) c buf hav req =
        Read_stop (http_respond_text 413 (''Payload Too Large'' @ [LF]) c) (-1) (snd (http_parse_request ?buf ?n req))"
      by (simp add: read_step_def Let_def split_beta)
    then show ?thesis by simp
  next
    case False
    then have p: "?p = p" using Cons.prems(2) by (simp add: min_def split: if_splits)
    with z ne lb False have "read_step (Read_data p) c buf hav req =
        Read_again ?buf ?n (snd (http_parse_request ?buf ?n req))"
      by (simp add: read_step_def Let_def split_beta)
    moreover have "take ?n text @ concat ps = text"
      using Cons.prems(4) \<open>take ?n text = take hav text @ ?p\<close> p by simp
    ultimately show ?thesis
      using Cons.IH [of ?n ?buf] tn False lb Cons.prems(3,5) by simp
  qed
qed

text \<open>C37: A well-formed request that is larger than the receive buffer is refused with one 413
  answer as soon as the buffer is full, in whatever pieces it arrives.\<close>

theorem read_request_oversized:
  assumes "sendable m path q ver hs body"
    and "text = request_head m path q ver b hs b' @ body" and "length buf < length text" and "0 < length buf"
    and "concat pieces = text" and "[] \<notin> set pieces"
  shows "\<exists>req. read_request (map Read_data pieces) c buf 0 no_request =
    Some (http_respond_text 413 (''Payload Too Large'' @ [LF]) c, -1, req)"
  using read_request_full [OF assms(1,2), of 0 buf pieces c no_request] assms(3-6) by simp

lemma read_step_outcome:
  "read_step ev c buf hav req = Read_stop c' rc req' \<Longrightarrow> (0 < rc \<and> c' = c) \<or> (rc = -1 \<and> (c' = c \<or> answered c c'))"
  using respond_text_answered [of 408 "''Request Timeout'' @ [LF]" c] respond_text_answered [of 400 "''Bad Request'' @ [LF]" c]
    respond_text_answered [of 413 "''Payload Too Large'' @ [LF]" c]
  by (auto simp: read_step_def plain_status_def Let_def split: read_event.splits if_splits prod.splits)

lemma read_request_outcome:
  "read_request evs c buf hav req = Some (c', rc, req') \<Longrightarrow>
   (0 < rc \<and> c' = c) \<or> (rc = -1 \<and> (c' = c \<or> answered c c'))"
proof (induction evs arbitrary: buf hav req)
  case (Cons ev evs)
  then show ?case
    by (auto split: read_result.splits dest: read_step_outcome)
qed simp

section \<open>The contract of the dispatch hook\<close>

locale http_app =
  fixes dispatch :: "'db hctx \<Rightarrow> http_request \<Rightarrow> 'db hctx option"
    and app_inv :: "'db chat_world \<Rightarrow> bool"
  assumes app_keeps: "app_inv (hx_w hx) \<Longrightarrow> dispatch hx req = Some hx' \<Longrightarrow> app_inv (hx_w hx')"
    and app_answers: "app_inv (hx_w hx) \<Longrightarrow> dispatch hx req = Some hx' \<Longrightarrow> answered (hx_c hx) (hx_c hx')"
    and app_unsubscribed: "app_inv (hx_w hx) \<Longrightarrow> dispatch hx req = Some hx' \<Longrightarrow>
      sub_only (hc_notify_wfd (hx_c hx)) None (hx_w hx) \<Longrightarrow> sub_only (hc_notify_wfd (hx_c hx)) None (hx_w hx')"
begin

text \<open>A connection gets one answer at most, exactly one when a request was read, and leaves
  nothing behind.\<close>

lemma run_once:
  assumes run: "http_run_session dispatch self buf0 evs drain rg hx = Some (rg', hx')"
    and inv: "app_inv (hx_w hx)" and sub: "sub_only (hc_notify_wfd (hx_c hx)) None (hx_w hx)"
    and opn: "open_conn (hx_c hx)" and over: "\<not> hc_overread (hx_c hx)"
  obtains c tot req out where "read_request evs ((hx_c hx)\<lparr>hc_shutdown_requested :=
        hc_shutdown_requested (hx_c hx) \<or> rg_stop (session_register self rg) self\<rparr>) buf0 0 no_request = Some (c, tot, req)"
    and "conn_sent (hx_c hx') = conn_sent (hx_c hx) @ out" and "out = [] \<or> one_answer out" and "0 < tot \<Longrightarrow> one_answer out"
    and "hc_notify_wfd (hx_c hx') = hc_notify_wfd (hx_c hx)"
    and "rg_head rg' = rg_head rg" and "sub_only (hc_notify_wfd (hx_c hx')) None (hx_w hx')"
    and "0 \<le> hc_notify_wfd (hx_c hx') \<Longrightarrow> w_pipes (hx_w hx') (hc_notify_wfd (hx_c hx')) = None"
    and "sk_shut (hc_sock (hx_c hx'))" and "sk_closed (hc_sock (hx_c hx'))" and "\<not> hc_overread (hx_c hx')"
proof -
  let ?rg = "session_register self rg"
  let ?c = "(hx_c hx)\<lparr>hc_shutdown_requested := hc_shutdown_requested (hx_c hx) \<or> rg_stop ?rg self\<rparr>"
  obtain c tot req where rd: "read_request evs ?c buf0 0 no_request = Some (c, tot, req)"
    using run by (auto simp: http_run_session_def Let_def split: option.splits)
  have rg: "rg_head (session_unregister self ?rg) = rg_head rg"
    by (simp add: session_unregister_def session_register_def Let_def)
  have same [simp]: "open_conn ?c = open_conn (hx_c hx)" "conn_sent ?c = conn_sent (hx_c hx)"
    by (simp_all add: open_conn_def conn_sent_def)
  obtain hx1 out where hx1: "hx' = conn_close drain hx1" "rg' = session_unregister self ?rg"
    "hc_notify_wfd (hx_c hx1) = hc_notify_wfd (hx_c hx)" "sub_only (hc_notify_wfd (hx_c hx)) None (hx_w hx1)"
    "conn_sent (hx_c hx1) = conn_sent (hx_c hx) @ out" "out = [] \<or> one_answer out" "0 < tot \<longrightarrow> one_answer out"
    "\<not> hc_overread (hx_c hx1)"
  proof (cases "0 < tot")
    case True
    then have c: "c = ?c" using read_request_outcome [OF rd] by auto
    let ?hx = "hx\<lparr>hx_c := ?c\<rparr>"
    obtain hx1 where d: "dispatch ?hx req = Some hx1"
      using run rd True c by (auto simp: http_run_session_def Let_def split: option.splits)
    note a = app_answers [OF _ d] app_unsubscribed [OF _ d]
    have "hc_responded (hx_c hx1)" using a(1) inv by (simp add: answered_def)
    with run rd True c d have "hx' = conn_close drain hx1" "rg' = session_unregister self ?rg"
      by (simp_all add: http_run_session_def Let_def)
    with a inv sub opn over that show ?thesis by (auto simp: answered_def)
  next
    case False
    with run rd have r: "hx' = conn_close drain (hx\<lparr>hx_c := c\<rparr>)" "rg' = session_unregister self ?rg"
      by (simp_all add: http_run_session_def Let_def)
    have "c = ?c \<or> answered ?c c" using False read_request_outcome [OF rd] by auto
    then show ?thesis
    proof
      assume "c = ?c"
      with r that [of "hx\<lparr>hx_c := c\<rparr>" "[]"] sub over False show ?thesis by simp
    next
      assume "answered ?c c"
      then show ?thesis using r that [of "hx\<lparr>hx_c := c\<rparr>"] sub opn over False by (auto simp: answered_def)
    qed
  qed
  from that [OF rd, of out] hx1 rg show ?thesis
    by (auto simp: conn_close_def close_graceful_def Let_def conn_sent_def sub_only_def subs_of_def)
qed

end

section \<open>Examples\<close>

definition demo_reg :: reg_state where
  "demo_reg = \<lparr>rg_head = [], rg_down = False, rg_stop = (\<lambda>_. False), rg_wfd = (\<lambda>s. int s), rg_pipes = Map.empty(7 \<mapsto> 0)\<rparr>"

definition demo_conn :: http_conn where
  "demo_conn = \<lparr>hc_sock = \<lparr>sk_script = [], sk_sent = [], sk_shut = False, sk_closed = False\<rparr>, hc_notify_rfd = 6, hc_notify_wfd = 7,
     hc_responded = False, hc_shutdown_requested = False, hc_overread = False\<rparr>"

theorem http_shutdown_reaches_all_witness:
  "list_all (rg_stop (fold (apply_op session_register session_unregister http_shutdown_all)
      [Op_register 7, Op_shutdown, Op_register 8] demo_reg)) [8, 7]"
  using http_shutdown_reaches_all [of demo_reg "[Op_register 7, Op_shutdown, Op_register 8]"]
  by (simp add: demo_reg_def flagged_def http_shutdown_all_def session_register_def Let_def)

lemma demo_sendable: "sendable HTTP_M_GET ''/'' None (Some ''HTTP/1.1'') [(H_other ''Host: h'', True)] []"
  by (simp add: sendable_def query_ok_def token_ok_def line_ok_def starts_with_nocase_def to_lower_def hdr_length_def
        HTTP_PATH_MAX_def)

lemma demo_request_text:
  "request_head HTTP_M_GET ''/'' None (Some ''HTTP/1.1'') True [(H_other ''Host: h'', True)] True @ [] =
   ''GET / HTTP/1.1'' @ crlf @ ''Host: h'' @ crlf @ crlf"
  by (simp add: request_head_def request_line_def target_text_def url_encode_def url_plain_def eol_def)

theorem read_request_fragments_witness:
  "read_request [Read_data ''GET / HTTP'', Read_eintr, Read_data (''/1.1'' @ crlf @ ''Host: h'' @ crlf), Read_data crlf]
     demo_conn (replicate HTTP_RECV_MAX (CHR ''?'')) 0 no_request
   = Some (demo_conn, 27, no_request\<lparr>rq_path := ''/''\<rparr>)"
  using read_request_fragments [OF demo_sendable demo_request_text [symmetric],
      of "replicate HTTP_RECV_MAX (CHR ''?'')" "[''GET / HTTP'', ''/1.1'' @ crlf @ ''Host: h'' @ crlf, crlf]"
        "[Read_data ''GET / HTTP'', Read_eintr, Read_data (''/1.1'' @ crlf @ ''Host: h'' @ crlf), Read_data crlf]" demo_conn]
  by (simp add: HTTP_RECV_MAX_def request_of_def no_request_def hdr_keep_alive_def)

theorem read_request_oversized_witness:
  "\<exists>req. read_request [Read_data ''GET / HTTP'', Read_data (''/1.1'' @ crlf @ ''Host: h'' @ crlf @ crlf)]
     demo_conn ''################'' 0 no_request
   = Some (http_respond_text 413 (''Payload Too Large'' @ [LF]) demo_conn, -1, req)"
  using read_request_oversized [OF demo_sendable demo_request_text [symmetric],
      of "''################''" "[''GET / HTTP'', ''/1.1'' @ crlf @ ''Host: h'' @ crlf @ crlf]" demo_conn]
  by simp

end
