(* ===== verification/Http_Chat.thy ===== *)
theory Http_Chat
  imports Http_Session
begin

text \<open>
  The application half of the HTTP listener, \<^verbatim>\<open>features/chat/http_chat.c\<close>: JSON rendering and
  scanning, the REST handlers, the event stream, static files and the router, which is
  the hook \<^verbatim>\<open>http_dispatch\<close> of the transport. A response assembled by repeated
  \<^verbatim>\<open>snprintf (buf + o, sizeof (buf) - o, ...)\<close> keeps the offset \<^verbatim>\<open>o\<close> beside the text, and
  remembers whether the size ever wrapped around.
\<close>

section \<open>The model\<close>

definition SSE_KEEPALIVE_MS :: int where "SSE_KEEPALIVE_MS = 25000"

subsection \<open>JSON\<close>

text \<open>\<^verbatim>\<open>%ld\<close>: the value as a 64-bit \<^verbatim>\<open>long\<close>.\<close>

definition show_long :: "int \<Rightarrow> string" where
  "show_long i = show_int (sint (of_int i :: 64 word))"

definition hex_lower :: "nat \<Rightarrow> char" where
  "hex_lower d = (if d < 10 then char_of (48 + d) else char_of (87 + d))"

definition escape_char :: "char \<Rightarrow> string" where
  "escape_char ch =
     (if ch = DQ then [BSL, DQ]
      else if ch = BSL then [BSL, BSL]
      else if ch = LF then [BSL, CHR ''n'']
      else if ch = CR then [BSL, CHR ''r'']
      else if ch = TAB then [BSL, CHR ''t'']
      else if ord ch < 0x20 then [BSL, CHR ''u'', CHR ''0'', CHR ''0'', hex_lower (ord ch div 16), hex_lower (ord ch mod 16)]
      else [ch])"

fun escape_from :: "string \<Rightarrow> nat \<Rightarrow> nat \<Rightarrow> string" where
  "escape_from [] k outsz = []"
| "escape_from (ch # s) k outsz =
     (if ch = NUL \<or> \<not> k + 7 < outsz then []
      else escape_char ch @ escape_from s (k + length (escape_char ch)) outsz)"

definition json_escape :: "string \<Rightarrow> nat \<Rightarrow> string" where
  "json_escape s outsz = escape_from s 0 outsz"

definition msg_text :: "chat_msg \<Rightarrow> string" where
  "msg_text m =
     ''{\"id\":'' @ show_long (cm_id m) @ '',\"user\":\"'' @ json_escape (cm_user m) (CHAT_USER_MAX * 2)
     @ ''\",\"ts\":'' @ show_long (cm_ts m) @ '',\"body\":\"'' @ json_escape (cm_body m) (CHAT_BODY_MAX * 2) @ ''\"}''"

definition msg_to_json :: "chat_msg \<Rightarrow> nat \<Rightarrow> string \<times> nat" where
  "msg_to_json m outsz = snprintf outsz (msg_text m)"

definition unescape_char :: "char \<Rightarrow> char" where
  "unescape_char e = (if e = CHR ''n'' then LF else if e = CHR ''t'' then TAB else if e = CHR ''r'' then CR else e)"

text \<open>The copying loop; \<open>k\<close> is what is left of \<^verbatim>\<open>outsz\<close>.\<close>

fun scan_string :: "string \<Rightarrow> nat \<Rightarrow> string" where
  "scan_string [] k = []"
| "scan_string [ch] k = (if ch = DQ \<or> k \<le> 1 then [] else [ch])"
| "scan_string (ch # e # s) k =
     (if ch = DQ \<or> k \<le> 1 then []
      else if ch = BSL then unescape_char e # scan_string s (k - 1)
      else ch # scan_string (e # s) (k - 1))"

definition json_get_string :: "string \<Rightarrow> string \<Rightarrow> nat \<Rightarrow> string option" where
  "json_get_string body key outsz =
     (case snprintf 64 ([DQ] @ key @ [DQ]) of (pat, pl) \<Rightarrow>
        case memmem body pat of
          None \<Rightarrow> None
        | Some i \<Rightarrow>
            (case dropWhile (\<lambda>c. c = CHR '' '' \<or> c = TAB \<or> c = CHR '':'') (drop (i + pl) body) of
               [] \<Rightarrow> None
             | c # s \<Rightarrow> if c \<noteq> DQ then None else Some (scan_string s outsz)))"

subsection \<open>Assembled responses\<close>

record out_buf =
  ob_text :: string
  ob_off :: nat
  ob_wrapped :: bool

definition ob_empty :: out_buf where
  "ob_empty = \<lparr>ob_text = [], ob_off = 0, ob_wrapped = False\<rparr>"

definition ob_put :: "nat \<Rightarrow> string \<Rightarrow> out_buf \<Rightarrow> out_buf" where
  "ob_put sz str b =
     (if ob_off b > sz then b\<lparr>ob_off := ob_off b + length str, ob_wrapped := True\<rparr>
      else b\<lparr>ob_text := ob_text b @ fst (snprintf (sz - ob_off b) str), ob_off := ob_off b + length str\<rparr>)"

text \<open>The response with the assembled text.\<close>

definition respond_buf :: "out_buf \<Rightarrow> http_conn \<Rightarrow> http_conn" where
  "respond_buf b c = http_respond_json 200 (ob_text b) (c\<lparr>hc_overread := (hc_overread c \<or> ob_wrapped b)\<rparr>)"

subsection \<open>REST handlers\<close>

definition with_conn :: "(http_conn \<Rightarrow> http_conn) \<Rightarrow> 'db hctx \<Rightarrow> 'db hctx" where
  "with_conn f hx = hx\<lparr>hx_c := f (hx_c hx)\<rparr>"

definition room_json :: "nat \<times> room_t \<Rightarrow> string" where
  "room_json ir = (case ir of (i, r) \<Rightarrow>
     (if i \<noteq> 0 then '','' else []) @ ''{\"id\":'' @ show_long (r_id r) @ '',\"name\":\"''
     @ json_escape (r_name r) (CHAT_NAME_MAX * 2) @ ''\"}'')"

definition handle_rooms :: "'db sqlite \<Rightarrow> 'db hctx \<Rightarrow> 'db hctx" where
  "handle_rooms sq hx =
     (case chat_rooms_list sq (hx_w hx) of (w, rooms) \<Rightarrow>
        let b = ob_put 2048 ''['' ob_empty;
            b = fold (\<lambda>ir. ob_put 2048 (room_json ir)) (enumerate 0 rooms) b;
            b = ob_put 2048 '']'' b
        in with_conn (respond_buf b) (hx\<lparr>hx_w := w\<rparr>))"

definition clamp_limit :: "int \<Rightarrow> int" where
  "clamp_limit n = (let n = (if n < 1 then 1 else n) in if n > 100 then 100 else n)"

definition query_since :: "http_request \<Rightarrow> int" where
  "query_since req =
     (case http_query_get (cstr (rq_query req)) ''since'' 32 of None \<Rightarrow> 0 | Some tmp \<Rightarrow> fst (strtol (cstr tmp)))"

definition query_limit :: "http_request \<Rightarrow> int" where
  "query_limit req =
     clamp_limit (case http_query_get (cstr (rq_query req)) ''limit'' 32 of None \<Rightarrow> 50 | Some tmp \<Rightarrow> atoi (cstr tmp))"

definition put_msg :: "nat \<Rightarrow> nat \<times> chat_msg \<Rightarrow> out_buf \<Rightarrow> out_buf" where
  "put_msg cap im b = (case im of (i, m) \<Rightarrow>
     ob_put cap (msg_text m) (if i \<noteq> 0 then ob_put cap '','' b else b))"

text \<open>\<open>mem\<close>: whether \<^verbatim>\<open>malloc\<close> succeeds.\<close>

definition handle_messages_get :: "'db sqlite \<Rightarrow> bool \<Rightarrow> nat \<Rightarrow> http_request \<Rightarrow> 'db hctx \<Rightarrow> 'db hctx" where
  "handle_messages_get sq mem room req hx =
     (let msgs = chat_room_since sq (hx_w hx) room (query_since req) (query_limit req) 100;
          cap = 64 + length msgs * (CHAT_BODY_MAX * 2 + CHAT_USER_MAX * 2 + 64)
      in if \<not> mem then with_conn (http_respond_json 500 ''{\"error\":\"oom\"}'') hx
         else let b = ob_put cap ''['' ob_empty;
                  b = fold (put_msg cap) (enumerate 0 msgs) b;
                  b = ob_put cap '']'' b
              in with_conn (respond_buf b) hx)"

definition handle_messages_post :: "'db sqlite \<Rightarrow> nat \<Rightarrow> http_request \<Rightarrow> 'db hctx \<Rightarrow> 'db hctx" where
  "handle_messages_post sq room req hx =
     (let dat = take (rq_body_len req) (rq_body req);
          user = (case json_get_string dat ''user'' CHAT_USER_MAX of None \<Rightarrow> [] | Some s \<Rightarrow> s);
          body = (case json_get_string dat ''body'' CHAT_BODY_MAX of None \<Rightarrow> [] | Some s \<Rightarrow> s)
      in if cstr user = [] \<or> cstr body = []
         then with_conn (http_respond_json 400 ''{\"error\":\"user and body required\"}'') hx
         else (case chat_room_post sq (hx_w hx) room user body of (w, mid) \<Rightarrow>
                 let hx = hx\<lparr>hx_w := w\<rparr>
                 in if mid < 0 then with_conn (http_respond_json 400 ''{\"error\":\"invalid message\"}'') hx
                    else with_conn (http_respond_json 201 (fst (snprintf 64 (''{\"id\":'' @ show_long mid @ ''}'')))) hx))"

definition user_json :: "nat \<times> string \<Rightarrow> string" where
  "user_json iu = (case iu of (i, u) \<Rightarrow>
     (if i \<noteq> 0 then '','' else []) @ [DQ] @ json_escape u (CHAT_USER_MAX * 2) @ [DQ])"

definition handle_users :: "'db sqlite \<Rightarrow> nat \<Rightarrow> 'db hctx \<Rightarrow> 'db hctx" where
  "handle_users sq room hx =
     (let users = chat_room_users sq (hx_w hx) room 64;
          sz = 64 * (CHAT_USER_MAX * 2 + 4) + 64;
          b = ob_put sz (''{\"count\":'' @ show_nat (length users) @ '',\"users\":['') ob_empty;
          b = fold (\<lambda>iu. ob_put sz (user_json iu)) (enumerate 0 users) b;
          b = ob_put sz '']}'' b
      in with_conn (respond_buf b) hx)"

subsection \<open>The event stream\<close>

fun sse_send_msgs :: "chat_msg list \<Rightarrow> int \<Rightarrow> http_conn \<Rightarrow> int \<times> http_conn \<times> bool" where
  "sse_send_msgs [] cursor c = (cursor, c, False)"
| "sse_send_msgs (m # ms) cursor c =
     (case http_sse_send c (cstr (fst (msg_to_json m (CHAT_BODY_MAX * 2 + 128)))) of
        (c, rc) \<Rightarrow> if rc < 0 then (cm_id m, c, True) else sse_send_msgs ms (cm_id m) c)"

datatype 'db sse_step = Sse_stop int "'db hctx" | Sse_go int "'db hctx"

definition sse_presence :: "'db sqlite \<Rightarrow> nat \<Rightarrow> string option \<Rightarrow> 'db hctx \<Rightarrow> 'db hctx" where
  "sse_presence sq room user hx =
     (case user of None \<Rightarrow> hx | Some u \<Rightarrow> hx\<lparr>hx_w := chat_room_presence_set sq (hx_w hx) room u\<rparr>)"

definition sse_turn :: "'db sqlite \<Rightarrow> nat \<Rightarrow> string option \<Rightarrow> 'db hturn \<Rightarrow> int \<Rightarrow> 'db hctx \<Rightarrow> 'db sse_step" where
  "sse_turn sq room user t cursor hx =
     (case http_conn_wait t hx of (w, hx) \<Rightarrow>
        case w of
          HTTP_WAIT_CLOSED \<Rightarrow> Sse_stop cursor hx
        | HTTP_WAIT_TIMEOUT \<Rightarrow>
            let hx = sse_presence sq room user hx
            in case http_sse_comment (hx_c hx) ''keepalive'' of (c, rc) \<Rightarrow>
                 if rc < 0 then Sse_stop cursor (hx\<lparr>hx_c := c\<rparr>) else Sse_go cursor (hx\<lparr>hx_c := c\<rparr>)
        | HTTP_WAIT_NOTIFY \<Rightarrow>
            case sse_send_msgs (chat_room_since sq (hx_w hx) room cursor 64 64) cursor (hx_c hx) of
              (cursor, c, broke) \<Rightarrow>
                if broke then Sse_stop cursor (hx\<lparr>hx_c := c\<rparr>) else Sse_go cursor (hx\<lparr>hx_c := c\<rparr>))"

primrec sse_loop :: "'db sqlite \<Rightarrow> nat \<Rightarrow> string option \<Rightarrow> 'db hturn list \<Rightarrow> int \<Rightarrow> 'db hctx \<Rightarrow> 'db sse_step" where
  "sse_loop sq room user [] cursor hx =
     (if hc_shutdown_requested (hx_c hx) then Sse_stop cursor hx else Sse_go cursor hx)"
| "sse_loop sq room user (t # ts) cursor hx =
     (case sse_turn sq room user t cursor hx of
        Sse_stop cursor hx \<Rightarrow> Sse_stop cursor hx
      | Sse_go cursor hx \<Rightarrow> sse_loop sq room user ts cursor hx)"

text \<open>Up to the loop. \<open>gap\<close> is what the other threads do between the two calls that take the
  cursor and subscribe.\<close>

definition sse_user :: "http_request \<Rightarrow> string option" where
  "sse_user req =
     (case http_query_get (cstr (rq_query req)) ''user'' CHAT_USER_MAX of
        None \<Rightarrow> None | Some u \<Rightarrow> if cstr u = [] then None else Some u)"

definition sse_open :: "'db sqlite \<Rightarrow> ('db hctx \<Rightarrow> 'db hctx) \<Rightarrow> nat \<Rightarrow> http_request \<Rightarrow> 'db hctx \<Rightarrow> int \<times> 'db hctx" where
  "sse_open sq gap room req hx =
     (let hx = with_conn http_sse_begin hx;
          cursor = chat_room_tail sq (hx_w hx) room;
          hx = gap hx;
          hx = hx\<lparr>hx_w := chat_room_subscribe (hx_w hx) room (http_conn_notify_wfd (hx_c hx))\<rparr>;
          hx = sse_presence sq room (sse_user req) hx
      in (cursor, with_conn (\<lambda>c. fst (http_sse_comment c ''connected'')) hx))"

definition sse_close :: "'db sqlite \<Rightarrow> nat \<Rightarrow> http_request \<Rightarrow> 'db hctx \<Rightarrow> 'db hctx" where
  "sse_close sq room req hx =
     (let w = chat_room_unsubscribe (hx_w hx) room (http_conn_notify_wfd (hx_c hx))
      in hx\<lparr>hx_w := (case sse_user req of None \<Rightarrow> w | Some u \<Rightarrow> chat_room_presence_clear sq w room u)\<rparr>)"

definition handle_sse ::
  "'db sqlite \<Rightarrow> ('db hctx \<Rightarrow> 'db hctx) \<Rightarrow> 'db hturn list \<Rightarrow> nat \<Rightarrow> http_request \<Rightarrow> 'db hctx \<Rightarrow> 'db hctx option" where
  "handle_sse sq gap turns room req hx =
     (case sse_open sq gap room req hx of (cursor, hx) \<Rightarrow>
        case sse_loop sq room (sse_user req) turns cursor hx of
          Sse_go cursor hx \<Rightarrow> None
        | Sse_stop cursor hx \<Rightarrow> Some (sse_close sq room req hx))"

subsection \<open>Static files and routing\<close>

text \<open>What the process finds outside: the environment variable, the file behind a path (the
  size \<^verbatim>\<open>fstat\<close> reports and the bytes \<^verbatim>\<open>read\<close> delivers), memory, and the other threads.\<close>

record 'db henv =
  he_webroot :: "string option"
  he_open :: "string \<Rightarrow> (int option \<times> string) option"
  he_mem :: bool
  he_gap :: "'db hctx \<Rightarrow> 'db hctx"
  he_turns :: "'db hturn list"

definition serve_static :: "'db henv \<Rightarrow> string \<Rightarrow> string \<Rightarrow> http_conn \<Rightarrow> http_conn" where
  "serve_static env fname ctype c =
     (let root = (case he_webroot env of None \<Rightarrow> ''web'' | Some r \<Rightarrow> if r = [] then ''web'' else r);
          path = fst (snprintf 512 (root @ ''/'' @ fname))
      in case he_open env path of
           None \<Rightarrow> http_respond_text 404 (''Not Found'' @ [LF]) c
         | Some (st_size, bytes) \<Rightarrow>
             (case st_size of
                None \<Rightarrow> http_respond_text 404 (''Not Found'' @ [LF]) c
              | Some n \<Rightarrow>
                 if n \<le> 0 \<or> n > 262144 then http_respond_text 404 (''Not Found'' @ [LF]) c
                 else if \<not> he_mem env then http_respond_text 500 (''oom'' @ [LF]) c
                 else (let got = take (nat n) bytes
                       in if got \<noteq> [] then http_respond 200 ctype got c
                          else http_respond_text 404 (''Not Found'' @ [LF]) c)))"

definition match_room_sub :: "string \<Rightarrow> (int \<times> string) option" where
  "match_room_sub path =
     (if \<not> starts_with ''/api/rooms/'' path then None
      else let p = drop 11 path
           in case strtol p of (v, e) \<Rightarrow>
                if e = p \<or> e = [] \<or> hd e \<noteq> CHR ''/'' then None else Some (v, tl e))"

definition dispatch_events :: "'db sqlite \<Rightarrow> 'db henv \<Rightarrow> http_request \<Rightarrow> 'db hctx \<Rightarrow> 'db hctx option" where
  "dispatch_events sq env req hx =
     (let path = cstr (rq_path req)
      in if rq_method req = HTTP_M_GET \<and> starts_with ''/api/events/rooms/'' path
         then (case chat_room_by_id sq (hx_w hx) (fst (strtol (drop 18 path))) of (w, room) \<Rightarrow>
                 let hx = hx\<lparr>hx_w := w\<rparr>
                 in case room of
                      None \<Rightarrow> Some (with_conn (http_respond_json 404 ''{\"error\":\"no such room\"}'') hx)
                    | Some i \<Rightarrow> handle_sse sq (he_gap env) (he_turns env) i req hx)
         else Some (with_conn (http_respond_text 404 (''Not Found'' @ [LF])) hx))"

definition dispatch_room :: "'db sqlite \<Rightarrow> 'db henv \<Rightarrow> http_request \<Rightarrow> int \<Rightarrow> string \<Rightarrow> 'db hctx \<Rightarrow> 'db hctx option" where
  "dispatch_room sq env req rid sub hx =
     (case chat_room_by_id sq (hx_w hx) rid of (w, room) \<Rightarrow>
        let hx = hx\<lparr>hx_w := w\<rparr>
        in case room of
             None \<Rightarrow> Some (with_conn (http_respond_json 404 ''{\"error\":\"no such room\"}'') hx)
           | Some i \<Rightarrow>
               if sub = ''messages''
               then (if rq_method req = HTTP_M_GET then Some (handle_messages_get sq (he_mem env) i req hx)
                     else if rq_method req = HTTP_M_POST then Some (handle_messages_post sq i req hx)
                     else Some (with_conn (http_respond_text 405 (''Method Not Allowed'' @ [LF])) hx))
               else if sub = ''users'' \<and> rq_method req = HTTP_M_GET then Some (handle_users sq i hx)
               else dispatch_events sq env req hx)"

definition http_dispatch :: "'db sqlite \<Rightarrow> 'db henv \<Rightarrow> 'db hctx \<Rightarrow> http_request \<Rightarrow> 'db hctx option" where
  "http_dispatch sq env hx req =
     (let path = cstr (rq_path req); is_get = (rq_method req = HTTP_M_GET)
      in if is_get \<and> (path = ''/'' \<or> path = ''/index.html'')
         then Some (with_conn (serve_static env ''index.html'' ''text/html; charset=utf-8'') hx)
         else if is_get \<and> path = ''/app.js''
         then Some (with_conn (serve_static env ''app.js'' ''application/javascript; charset=utf-8'') hx)
         else if is_get \<and> path = ''/api/health''
         then Some (with_conn (http_respond_json 200 ''{\"status\":\"ok\"}'') hx)
         else if is_get \<and> path = ''/api/rooms'' then Some (handle_rooms sq hx)
         else (case match_room_sub path of
                 Some (rid, sub) \<Rightarrow> dispatch_room sq env req rid sub hx
               | None \<Rightarrow> dispatch_events sq env req hx))"

section \<open>JSON text\<close>

lemma length_show_long [ns_len]: "length (show_long i) \<le> 20"
  unfolding show_long_def
  using sint_ge [of "of_int i :: 64 word"] sint_lt [of "of_int i :: 64 word"]
  by (intro length_show_int) (simp_all add: LONG_MIN_def LONG_MAX_def)

lemma show_long_id: "LONG_MIN \<le> i \<Longrightarrow> i \<le> LONG_MAX \<Longrightarrow> show_long i = show_int i"
  by (simp add: show_long_def signed_of_int signed_take_bit_int_eq_self LONG_MIN_def LONG_MAX_def)

definition escaped :: "string \<Rightarrow> string" where
  "escaped s = concat (map escape_char s)"

lemma escaped_simps [simp]: "escaped [] = []" "escaped (c # s) = escape_char c @ escaped s"
  by (simp_all add: escaped_def)

lemma length_escape_char: "1 \<le> length (escape_char c) \<and> length (escape_char c) \<le> 6"
  by (simp add: escape_char_def)

lemma length_escape_printable: "is_printable c \<Longrightarrow> length (escape_char c) \<le> 2"
  by (auto simp: escape_char_def is_printable_def)

lemma escape_word_char: "is_word_char c \<Longrightarrow> escape_char c = [c]"
proof -
  assume w: "is_word_char c"
  then have "c \<noteq> DQ" "c \<noteq> BSL" "c \<noteq> LF" "c \<noteq> CR" "c \<noteq> TAB" "\<not> ord c < 32"
    by (auto simp: char_class_defs)
  then show ?thesis by (simp add: escape_char_def)
qed

lemma escape_from_length:
  "\<forall>c \<in> set s. length (escape_char c) \<le> n \<Longrightarrow> 8 \<le> sz \<Longrightarrow> k + length (escape_from s k sz) \<le> max k (sz - 8 + n)"
proof (induction s arbitrary: k)
  case (Cons c s)
  from Cons.IH [of "k + length (escape_char c)"] Cons.prems show ?case by auto
qed simp

lemma json_escape_length: "8 \<le> sz \<Longrightarrow> length (json_escape s sz) \<le> sz - 2"
  using escape_from_length [of s 6 sz 0] length_escape_char by (simp add: json_escape_def)

lemma json_escape_printable_length:
  "\<forall>c \<in> set s. is_printable c \<Longrightarrow> 8 \<le> sz \<Longrightarrow> length (json_escape s sz) \<le> sz - 6"
  using escape_from_length [of s 2 sz 0] length_escape_printable by (simp add: json_escape_def)

lemma escape_from_prefix: "\<exists>n. escape_from s k sz = escaped (take n s)"
proof (induction s arbitrary: k)
  case (Cons c s)
  from Cons [of "k + length (escape_char c)"]
  obtain n where "escape_from s (k + length (escape_char c)) sz = escaped (take n s)" ..
  then have "escape_from (c # s) k sz = escaped (take (if c = NUL \<or> \<not> k + 7 < sz then 0 else Suc n) (c # s))" by simp
  then show ?case by blast
qed simp

lemma escape_from_all:
  "nul_free s \<Longrightarrow> k + length (escaped s) + 7 \<le> sz \<Longrightarrow> escape_from s k sz = escaped s"
proof (induction s arbitrary: k)
  case (Cons c s)
  then show ?case using length_escape_char [of c] by auto
qed simp

lemma json_escape_all: "nul_free s \<Longrightarrow> length (escaped s) + 7 \<le> sz \<Longrightarrow> json_escape s sz = escaped s"
  by (simp add: json_escape_def escape_from_all)

lemma json_escape_word:
  assumes "list_all is_word_char s" "length s + 7 \<le> sz"
  shows "json_escape s sz = s"
proof -
  have "escaped s = s" using assms(1) by (induction s) (simp_all add: escape_word_char)
  moreover have "nul_free s" using assms(1) by (auto simp: list_all_iff intro: nul_free_printable word_char_printable)
  ultimately show ?thesis using json_escape_all [of s sz] assms(2) by simp
qed

text \<open>The characters the scanner reads back: everything but the control characters without
  an escape of their own.\<close>

definition scannable :: "char \<Rightarrow> bool" where
  "scannable c \<longleftrightarrow> 32 \<le> ord c \<or> c \<in> {LF, CR, TAB}"

lemma scan_plain:
  assumes "c \<noteq> DQ" "c \<noteq> BSL" "1 < k"
  shows "scan_string (c # t) k = c # scan_string t (k - 1)"
  using assms by (cases t) simp_all

lemma scan_pair:
  assumes "1 < k"
  shows "scan_string (BSL # e # t) k = unescape_char e # scan_string t (k - 1)"
  using assms by simp

lemma scan_stop: "k \<le> 1 \<Longrightarrow> scan_string t k = []"
  by (induction t k rule: scan_string.induct) simp_all

lemma escape_char_cases:
  assumes "scannable c"
  obtains "c \<noteq> DQ" "c \<noteq> BSL" "escape_char c = [c]" | e where "escape_char c = [BSL, e]" "unescape_char e = c"
proof -
  consider "c = DQ" | "c = BSL" | "c = LF" | "c = CR" | "c = TAB"
    | "c \<noteq> DQ" "c \<noteq> BSL" "c \<noteq> LF" "c \<noteq> CR" "c \<noteq> TAB" by blast
  then show ?thesis
  proof cases
    case 6
    then have "\<not> ord c < 32" using assms by (auto simp: scannable_def)
    with 6 that(1) show ?thesis by (simp add: escape_char_def)
  qed (use that(2) in \<open>simp_all add: escape_char_def unescape_char_def\<close>)
qed

lemma scan_escaped:
  "list_all scannable s \<Longrightarrow> scan_string (escaped s @ DQ # rest) k = take (k - 1) s"
proof (induction s arbitrary: k)
  case Nil
  then show ?case by (cases rest) simp_all
next
  case (Cons c s)
  then have IH: "scan_string (escaped s @ DQ # rest) (k - 1) = take (k - 1 - 1) s" and c: "scannable c" by simp_all
  show ?case
  proof (cases "1 < k")
    case True
    then have k: "take (k - 1) (c # s) = c # take (k - 1 - 1) s" by (cases "k - 1") simp_all
    from c show ?thesis
    proof (cases rule: escape_char_cases)
      case 1
      then show ?thesis using scan_plain [OF 1(1,2) True] IH k by simp
    next
      case (2 e)
      then show ?thesis using scan_pair [OF True] IH k by simp
    qed
  qed (simp add: scan_stop)
qed

lemma nul_free_escape_char: "c \<noteq> NUL \<Longrightarrow> nul_free (escape_char c)"
proof -
  have "hex_lower d \<noteq> NUL" if "d < 16" for d
  proof
    assume "hex_lower d = NUL"
    then have "ord (hex_lower d) = 0" by simp
    with that show False by (simp add: hex_lower_def split: if_splits)
  qed
  moreover assume "c \<noteq> NUL"
  ultimately show ?thesis by (simp add: escape_char_def)
qed

lemma nul_free_json_escape [simp]: "nul_free (json_escape s sz)"
proof -
  have "nul_free (escape_from s k sz)" for k
    by (induction s arbitrary: k) (simp_all add: nul_free_escape_char)
  then show ?thesis by (simp add: json_escape_def)
qed

lemma nul_free_show [simp]: "nul_free (show_nat n)" "nul_free (show_int i)" "nul_free (show_long i)"
proof -
  show n: "nul_free (show_nat n)" for n
    using show_nat_digits [of n] by (auto simp: nul_free_def is_digit_def)
  show "nul_free (show_int i)" "nul_free (show_long i)" by (simp_all add: show_int_def show_long_def n)
qed

lemma nul_free_msg_text [simp]: "nul_free (msg_text m)"
  by (simp add: msg_text_def)

text \<open>The text of a message is one line, however it is cut: the escapes write no line feed.\<close>

lemma in_line_json_escape [simp]: "in_line (json_escape s sz)"
proof -
  have "hex_lower d \<noteq> CR \<and> hex_lower d \<noteq> LF" if "d < 16" for d
  proof -
    have "48 \<le> ord (hex_lower d)" using that by (simp add: hex_lower_def)
    then show ?thesis by auto
  qed
  then have "in_line (escape_char c)" for c by (simp add: escape_char_def)
  then have "in_line (escape_from s k sz)" for k by (induction s arbitrary: k) simp_all
  then show ?thesis by (simp add: json_escape_def)
qed

lemma in_line_msg_text [simp]: "in_line (msg_text m)"
  by (simp add: msg_text_def show_long_def)

lemma msg_line [simp]: "LF \<notin> set (msg_text m)" "LF \<notin> set (cstr (fst (msg_to_json m sz)))"
  using in_line_msg_text [of m]
  by (auto simp: in_line_def msg_to_json_def snprintf_def cstr_def dest!: in_set_takeD set_takeWhileD)

section \<open>Assembling\<close>

definition fits :: "nat \<Rightarrow> out_buf \<Rightarrow> bool" where
  "fits sz b \<longleftrightarrow> ob_off b = length (ob_text b) \<and> \<not> ob_wrapped b \<and> ob_off b < sz"

definition ob_add :: "string \<Rightarrow> out_buf \<Rightarrow> out_buf" where
  "ob_add str b = b\<lparr>ob_text := ob_text b @ str, ob_off := ob_off b + length str\<rparr>"

lemma ob_put_fits:
  assumes "fits sz b" "length (ob_text b) + length str < sz"
  shows "ob_put sz str b = ob_add str b" "fits sz (ob_add str b)"
  using assms by (simp_all add: ob_put_def fits_def ob_add_def snprintf_def)

lemma ob_add_text [simp]: "ob_text (ob_add str b) = ob_text b @ str"
  by (simp add: ob_add_def)

lemma ob_add_add [simp]: "ob_add t (ob_add s b) = ob_add (s @ t) b"
  by (simp add: ob_add_def)

lemma ob_fold_fits:
  assumes "\<And>x b. x \<in> set xs \<Longrightarrow> fits sz b \<Longrightarrow> length (ob_text b) + length (g x) < sz \<Longrightarrow> f x b = ob_add (g x) b"
  shows "fits sz b \<Longrightarrow> length (ob_text b) + length (concat (map g xs)) < sz \<Longrightarrow>
    fold f xs b = ob_add (concat (map g xs)) b \<and> fits sz (ob_add (concat (map g xs)) b)"
  using assms
proof (induction xs arbitrary: b)
  case Nil
  then show ?case by (simp add: ob_add_def)
next
  case (Cons x xs)
  then have x: "f x b = ob_add (g x) b" by simp
  have "fits sz (ob_add (g x) b)" using Cons.prems(1,2) by (intro ob_put_fits(2)) simp_all
  with Cons.IH [of "ob_add (g x) b"] Cons.prems x show ?case by simp
qed

fun commas :: "string list \<Rightarrow> string" where
  "commas [] = []"
| "commas [x] = x"
| "commas (x # y # zs) = x @ '','' @ commas (y # zs)"

lemma concat_enumerate_commas:
  "concat (map (\<lambda>(i, x). (if i \<noteq> 0 then '','' else []) @ g x) (enumerate 0 xs)) = commas (map g xs)"
proof -
  have later: "concat (map (\<lambda>(i, x). (if i \<noteq> 0 then '','' else []) @ g x) (enumerate (Suc n) xs)) =
      (if xs = [] then [] else '','' @ commas (map g xs))" for n xs
  proof (induction xs arbitrary: n)
    case (Cons x xs)
    then show ?case by (cases xs) simp_all
  qed simp
  show ?thesis
  proof (cases xs)
    case (Cons x ys)
    with later [of 0 ys] show ?thesis by (cases ys) simp_all
  qed simp
qed

lemma length_commas: "\<forall>x \<in> set xs. length x \<le> n \<Longrightarrow> length (commas xs) \<le> length xs * (n + 1)"
  by (induction xs rule: commas.induct) auto

text \<open>The assembled response: an opening, the items with commas between, a closing.\<close>

lemma assembled:
  assumes "\<And>x b. x \<in> set (enumerate 0 xs) \<Longrightarrow> fits sz b \<Longrightarrow>
      length (ob_text b) + length ((\<lambda>(i, x). (if i \<noteq> 0 then '','' else []) @ g x) x) < sz \<Longrightarrow>
      f x b = ob_add ((\<lambda>(i, x). (if i \<noteq> 0 then '','' else []) @ g x) x) b"
    and "length (beg @ commas (map g xs) @ fin) < sz"
  shows "let b = ob_put sz fin (fold f (enumerate 0 xs) (ob_put sz beg ob_empty))
     in ob_text b = beg @ commas (map g xs) @ fin \<and> \<not> ob_wrapped b"
proof -
  have b0: "ob_put sz beg ob_empty = ob_add beg ob_empty" "fits sz (ob_add beg ob_empty)"
    using assms(2) by (intro ob_put_fits; simp add: fits_def ob_empty_def)+
  have b1: "fold f (enumerate 0 xs) (ob_add beg ob_empty) = ob_add (beg @ commas (map g xs)) ob_empty \<and>
      fits sz (ob_add (beg @ commas (map g xs)) ob_empty)"
    using ob_fold_fits [of "enumerate 0 xs" sz "\<lambda>(i, x). (if i \<noteq> 0 then '','' else []) @ g x" f "ob_add beg ob_empty",
        unfolded concat_enumerate_commas] assms b0(2)
    by (simp add: ob_empty_def)
  have fits1: "fits sz (ob_add (beg @ commas (map g xs)) ob_empty)" using b1 by simp
  have e: "ob_text ob_empty = []" by (simp add: ob_empty_def)
  have "length (ob_text (ob_add (beg @ commas (map g xs)) ob_empty)) + length fin < sz"
    using assms(2) by (simp add: e)
  note b2 = ob_put_fits [OF fits1 this]
  from b0 b1 b2 show ?thesis by (simp add: e Let_def fits_def)
qed

section \<open>The handlers answer\<close>

text \<open>The invariant of the service as the router relies on it.\<close>

definition app_inv :: "('db \<Rightarrow> chat_tables) \<Rightarrow> 'db chat_world \<Rightarrow> bool" where
  "app_inv tables w \<longleftrightarrow> service_inv tables w \<and> (\<not> w_once w \<longrightarrow> w_rooms w = [])"

lemma app_inv_pre: "app_inv tables w \<Longrightarrow> world_pre w"
  by (simp add: app_inv_def service_inv_def world_pre_def)

lemma length_msg_text:
  assumes "clean_msg m"
  shows "length (msg_text m) \<le> 1122"
proof -
  have "json_escape (cm_user m) (CHAT_USER_MAX * 2) = cm_user m"
    using assms by (intro json_escape_word) (simp_all add: clean_msg_def chat_sizes)
  moreover have "length (json_escape (cm_body m) (CHAT_BODY_MAX * 2)) \<le> CHAT_BODY_MAX * 2 - 6"
    using assms by (intro json_escape_printable_length) (simp_all add: clean_msg_def chat_sizes list_all_iff)
  ultimately show ?thesis
    using assms length_show_long [of "cm_id m"] length_show_long [of "cm_ts m"]
    by (simp add: msg_text_def clean_msg_def chat_sizes)
qed

context sqlite_chat
begin

lemma since_in_log:
  assumes "m \<in> set (chat_room_since sq w i a n mx)"
  shows "m \<in> set (wlog tables w (r_id (room_at w i)))"
proof (cases "w_db w")
  case (Some db)
  with assms have "m \<in> to_msg ` set (q_since (tables db) (r_id (room_at w i)) a)"
    by (auto simp: chat_room_since_def chat_db_messages_since_def since_rows sql_limit_def
          Let_def split: if_splits dest!: in_set_takeD)
  with Some show ?thesis by (auto simp: db_log_def q_since_def)
qed (use assms in \<open>simp add: chat_room_since_def chat_db_messages_since_def\<close>)

end

lemma since_clean:
  assumes "sqlite_chat sq tables" "app_inv tables w" "m \<in> set (chat_room_since sq w i a n mx)"
  shows "clean_msg m"
  using sqlite_chat.since_in_log [OF assms(1,3)] assms(2)
  by (simp add: app_inv_def service_inv_def clean_log_def list_all_iff)

lemma conn_flag_simps [simp]:
  "open_conn (c\<lparr>hc_overread := b\<rparr>) = open_conn c" "conn_sent (c\<lparr>hc_overread := b\<rparr>) = conn_sent c"
  by (simp_all add: open_conn_def conn_sent_def)

lemma respond_buf_eq: "\<not> ob_wrapped b \<Longrightarrow> respond_buf b c = http_respond_json 200 (ob_text b) c"
  by (simp add: respond_buf_def)

definition json_array :: "string list \<Rightarrow> string" where
  "json_array xs = ''['' @ commas xs @ '']''"

definition room_obj :: "room_t \<Rightarrow> string" where
  "room_obj r = ''{\"id\":'' @ show_long (r_id r) @ '',\"name\":\"'' @ json_escape (r_name r) (CHAT_NAME_MAX * 2) @ ''\"}''"

definition user_obj :: "string \<Rightarrow> string" where
  "user_obj u = [DQ] @ json_escape u (CHAT_USER_MAX * 2) @ [DQ]"

lemma handle_rooms_eq:
  assumes w: "chat_service_init sq (hx_w hx) = w" "length (w_rooms w) \<le> CHAT_MAX_ROOMS"
  shows "handle_rooms sq hx = with_conn (http_respond_json 200 (json_array (map room_obj (w_rooms w)))) (hx\<lparr>hx_w := w\<rparr>)"
    and "length (json_array (map room_obj (w_rooms w))) < 2048"
proof -
  have "length (room_obj r) \<le> 99" for r
    using length_show_long [of "r_id r"] json_escape_length [of "CHAT_NAME_MAX * 2" "r_name r"]
    by (simp add: room_obj_def chat_sizes)
  then have "length (commas (map room_obj (w_rooms w))) \<le> length (map room_obj (w_rooms w)) * (99 + 1)"
    by (intro length_commas) auto
  then show len: "length (json_array (map room_obj (w_rooms w))) < 2048"
    using w(2) by (simp add: json_array_def CHAT_MAX_ROOMS_def)
  have "let b = ob_put 2048 '']'' (fold (\<lambda>ir. ob_put 2048 (room_json ir)) (enumerate 0 (w_rooms w)) (ob_put 2048 ''['' ob_empty))
     in ob_text b = ''['' @ commas (map room_obj (w_rooms w)) @ '']'' \<and> \<not> ob_wrapped b"
  proof (rule assembled)
    fix x :: "nat \<times> room_t" and b
    assume "fits 2048 b" "length (ob_text b) + length ((\<lambda>(i, x). (if i \<noteq> 0 then '','' else []) @ room_obj x) x) < 2048"
    moreover have "room_json x = (\<lambda>(i, x). (if i \<noteq> 0 then '','' else []) @ room_obj x) x"
      by (cases x) (simp add: room_json_def room_obj_def)
    ultimately show "ob_put 2048 (room_json x) b = ob_add ((\<lambda>(i, x). (if i \<noteq> 0 then '','' else []) @ room_obj x) x) b"
      using ob_put_fits(1) by metis
  qed (use len in \<open>simp add: json_array_def\<close>)
  then show "handle_rooms sq hx = with_conn (http_respond_json 200 (json_array (map room_obj (w_rooms w)))) (hx\<lparr>hx_w := w\<rparr>)"
    by (simp add: handle_rooms_def chat_rooms_list_def w(1) with_conn_def respond_buf_eq json_array_def Let_def)
qed

lemma put_msg_fits:
  assumes "fits sz b" "length (ob_text b) + length ((\<lambda>(i, m). (if i \<noteq> 0 then '','' else []) @ msg_text m) (x :: nat \<times> chat_msg)) < sz"
  shows "put_msg sz x b = ob_add ((\<lambda>(i, m). (if i \<noteq> 0 then '','' else []) @ msg_text m) x) b"
proof (cases x)
  case (Pair i m)
  show ?thesis
  proof (cases "i = 0")
    case True
    with Pair assms show ?thesis by (simp add: put_msg_def ob_put_fits(1))
  next
    case False
    with Pair assms ob_put_fits [of sz b "'',''"] ob_put_fits(1) [of sz "ob_add '','' b" "msg_text m"]
    show ?thesis by (simp add: put_msg_def)
  qed
qed

lemma handle_messages_get_eq:
  assumes msgs: "msgs = chat_room_since sq (hx_w hx) room (query_since req) (query_limit req) 100"
    and clean: "\<forall>m \<in> set msgs. clean_msg m"
  shows "handle_messages_get sq True room req hx =
      with_conn (http_respond_json 200 (json_array (map msg_text msgs))) hx"
    and "length (json_array (map msg_text msgs)) \<le> 2 + length msgs * 1123"
proof -
  have "length (commas (map msg_text msgs)) \<le> length (map msg_text msgs) * (1122 + 1)"
    using clean length_msg_text by (intro length_commas) auto
  then show len: "length (json_array (map msg_text msgs)) \<le> 2 + length msgs * 1123"
    by (simp add: json_array_def)
  let ?cap = "64 + length msgs * (CHAT_BODY_MAX * 2 + CHAT_USER_MAX * 2 + 64)"
  have "length (''['' @ commas (map msg_text msgs) @ '']'') < ?cap"
    using len by (simp add: json_array_def chat_sizes)
  then have "let b = ob_put ?cap '']'' (fold (put_msg ?cap) (enumerate 0 msgs) (ob_put ?cap ''['' ob_empty))
     in ob_text b = ''['' @ commas (map msg_text msgs) @ '']'' \<and> \<not> ob_wrapped b"
    by (intro assembled put_msg_fits)
  then show "handle_messages_get sq True room req hx =
      with_conn (http_respond_json 200 (json_array (map msg_text msgs))) hx"
    by (simp add: handle_messages_get_def msgs [symmetric] with_conn_def respond_buf_eq json_array_def Let_def)
qed

lemma handle_users_eq:
  assumes users: "users = chat_room_users sq (hx_w hx) room 64"
  defines "str \<equiv> ''{\"count\":'' @ show_nat (length users) @ '',\"users\":['' @ commas (map user_obj users) @ '']}''"
  shows "handle_users sq room hx = with_conn (http_respond_json 200 str) hx"
    and "length str < 4416"
proof -
  have n: "length users \<le> 64"
    by (simp add: users chat_room_users_def chat_db_active_users_def split: option.split)
  have "length (user_obj u) \<le> 64" for u
    using json_escape_length [of "CHAT_USER_MAX * 2" u] by (simp add: user_obj_def chat_sizes)
  then have "length (commas (map user_obj users)) \<le> length (map user_obj users) * (64 + 1)"
    by (intro length_commas) auto
  moreover have "length (show_nat (length users)) \<le> Suc 1" using n by (intro length_show_nat) simp
  ultimately show len: "length str < 4416" using n by (simp add: str_def)
  let ?sz = "64 * (CHAT_USER_MAX * 2 + 4) + 64"
  have "let b = ob_put ?sz '']}'' (fold (\<lambda>iu. ob_put ?sz (user_json iu)) (enumerate 0 users)
        (ob_put ?sz (''{\"count\":'' @ show_nat (length users) @ '',\"users\":['') ob_empty))
     in ob_text b = (''{\"count\":'' @ show_nat (length users) @ '',\"users\":['') @ commas (map user_obj users) @ '']}''
       \<and> \<not> ob_wrapped b"
  proof (rule assembled)
    fix x :: "nat \<times> string" and b
    assume "fits ?sz b" "length (ob_text b) + length ((\<lambda>(i, u). (if i \<noteq> 0 then '','' else []) @ user_obj u) x) < ?sz"
    moreover have "user_json x = (\<lambda>(i, u). (if i \<noteq> 0 then '','' else []) @ user_obj u) x"
      by (cases x) (simp add: user_json_def user_obj_def)
    ultimately show "ob_put ?sz (user_json x) b = ob_add ((\<lambda>(i, u). (if i \<noteq> 0 then '','' else []) @ user_obj u) x) b"
      using ob_put_fits(1) by metis
  qed (use len in \<open>simp add: str_def chat_sizes\<close>)
  then show "handle_users sq room hx = with_conn (http_respond_json 200 str) hx"
    by (simp add: handle_users_def users [symmetric] with_conn_def respond_buf_eq str_def Let_def)
qed

text \<open>What a handler promises: one answer, the invariant of the service, and no subscription
  left behind.\<close>

definition served :: "('db \<Rightarrow> chat_tables) \<Rightarrow> 'db hctx \<Rightarrow> 'db hctx \<Rightarrow> bool" where
  "served tables hx hx' \<longleftrightarrow> answered (hx_c hx) (hx_c hx') \<and> app_inv tables (hx_w hx')
     \<and> (sub_only (hc_notify_wfd (hx_c hx)) None (hx_w hx) \<longrightarrow> sub_only (hc_notify_wfd (hx_c hx)) None (hx_w hx'))"

lemma served_with_conn:
  "app_inv tables (hx_w hx) \<Longrightarrow> answered (hx_c hx) (f (hx_c hx)) \<Longrightarrow> served tables hx (with_conn f hx)"
  by (simp add: served_def with_conn_def)

lemma served_json:
  "app_inv tables (hx_w hx) \<Longrightarrow> plain_status status \<Longrightarrow> length str < 10 ^ 20 \<Longrightarrow>
   served tables hx (with_conn (http_respond_json status str) hx)"
  by (intro served_with_conn respond_json_answered)

lemma served_text:
  "app_inv tables (hx_w hx) \<Longrightarrow> plain_status status \<Longrightarrow> length str < 10 ^ 20 \<Longrightarrow>
   served tables hx (with_conn (http_respond_text status str) hx)"
  by (intro served_with_conn respond_text_answered)

lemma served_world:
  assumes "served tables (hx\<lparr>hx_w := w\<rparr>) hx'"
    and "sub_only (hc_notify_wfd (hx_c hx)) None (hx_w hx) \<Longrightarrow> sub_only (hc_notify_wfd (hx_c hx)) None w"
  shows "served tables hx hx'"
  using assms by (simp add: served_def)

section \<open>The event stream answers\<close>

text \<open>While a connection waits, the other threads use the service: the logs only grow, its
  invariant and the subscriptions of this connection stay, and the stop flag may be set.\<close>

definition others_step :: "('db \<Rightarrow> chat_tables) \<Rightarrow> 'db hctx \<Rightarrow> 'db hctx \<Rightarrow> bool" where
  "others_step tables hx hx' \<longleftrightarrow>
     (\<exists>w stop. hx' = hx\<lparr>hx_w := w, hx_c := (hx_c hx)\<lparr>hc_shutdown_requested := hc_shutdown_requested (hx_c hx) \<or> stop\<rparr>\<rparr>
       \<and> world_env (hc_notify_wfd (hx_c hx)) (hx_w hx) w
       \<and> (app_inv tables (hx_w hx) \<longrightarrow> app_inv tables w
            \<and> map r_id (w_rooms (hx_w hx)) = take (length (w_rooms (hx_w hx))) (map r_id (w_rooms w))
            \<and> (\<forall>r. \<exists>new. wlog tables w r = wlog tables (hx_w hx) r @ new)))"

lemma others_refl [simp]: "others_step tables hx hx"
  unfolding others_step_def
  by (intro exI [of _ "hx_w hx"] exI [of _ False]) (auto simp: world_env_def)

definition streamed :: "http_conn \<Rightarrow> http_conn \<Rightarrow> bool" where
  "streamed c c' \<longleftrightarrow> hc_notify_rfd c' = hc_notify_rfd c \<and> hc_notify_wfd c' = hc_notify_wfd c
     \<and> hc_responded c' = hc_responded c \<and> hc_overread c' = hc_overread c
     \<and> (open_conn c \<longrightarrow> open_conn c' \<and> (\<exists>fs. list_all frame_ok fs \<and> conn_sent c' = conn_sent c @ concat (map sse_frame fs)))"

lemma streamed_refl [simp]: "streamed c c"
  by (auto simp: streamed_def intro: exI [of _ "[]"])

lemma streamed_trans:
  assumes "streamed a b" "streamed b c"
  shows "streamed a c"
proof -
  have "\<exists>fs. list_all frame_ok fs \<and> conn_sent c = conn_sent a @ concat (map sse_frame fs)" if o: "open_conn a"
  proof -
    have "open_conn b" using assms(1) o by (simp add: streamed_def)
    then obtain gs where "list_all frame_ok gs" "conn_sent c = conn_sent b @ concat (map sse_frame gs)"
      using assms(2) unfolding streamed_def by blast
    moreover obtain fs where "list_all frame_ok fs" "conn_sent b = conn_sent a @ concat (map sse_frame fs)"
      using assms(1) o unfolding streamed_def by blast
    ultimately show ?thesis by (intro exI [of _ "fs @ gs"]) simp
  qed
  with assms show ?thesis by (simp add: streamed_def)
qed

lemma streamed_flag [simp]: "streamed c (c\<lparr>hc_shutdown_requested := b\<rparr>)"
  by (auto simp: streamed_def open_conn_def conn_sent_def intro: exI [of _ "[]"])

lemma send_three_streamed:
  assumes "sse_frame f = a @ b @ d" "frame_ok f"
  shows "streamed c (fst (send_three a b d c))"
  using send_three_open [of c a b d] send_three_frame(1) [of a b d c] assms
  by (auto simp: streamed_def conn_ctl_def intro!: exI [of _ "[f]"])

lemma sse_send_streamed: "LF \<notin> set dat \<Longrightarrow> streamed c (fst (http_sse_send c dat))"
  unfolding http_sse_send_def by (rule send_three_streamed [of "Sse_data dat"]) simp_all

lemma sse_comment_streamed:
  "streamed c (fst (http_sse_comment c ''connected''))" "streamed c (fst (http_sse_comment c ''keepalive''))"
  unfolding http_sse_comment_def
  by (rule send_three_streamed [of "Sse_comment ''connected''"], simp_all)
    (rule send_three_streamed [of "Sse_comment ''keepalive''"], simp_all)

lemma sse_send_msgs_streamed: "streamed c (fst (snd (sse_send_msgs ms cursor c)))"
proof (induction ms arbitrary: cursor c)
  case (Cons m ms)
  let ?s = "http_sse_send c (cstr (fst (msg_to_json m (CHAT_BODY_MAX * 2 + 128))))"
  have "streamed c (fst ?s)" by (rule sse_send_streamed) simp
  with Cons [of "fst ?s" "cm_id m"] show ?case by (auto simp: split_beta intro: streamed_trans)
qed simp

definition sse_inv :: "('db \<Rightarrow> chat_tables) \<Rightarrow> bool \<Rightarrow> fd \<Rightarrow> nat \<Rightarrow> 'db hctx \<Rightarrow> bool" where
  "sse_inv tables b wfd room hx \<longleftrightarrow> app_inv tables (hx_w hx) \<and> w_once (hx_w hx) \<and> room < length (w_rooms (hx_w hx))
     \<and> hc_notify_wfd (hx_c hx) = wfd \<and> (b \<longrightarrow> sub_only wfd (Some room) (hx_w hx))"

lemma app_inv_world_ok: "app_inv tables w \<Longrightarrow> w_once w \<Longrightarrow> world_ok w"
  by (simp add: app_inv_def service_inv_def world_ok_def)

lemma others_sse_inv:
  assumes "others_step tables hx hx'" "sse_inv tables b wfd room hx"
  shows "sse_inv tables b wfd room hx' \<and> streamed (hx_c hx) (hx_c hx')"
proof -
  obtain w stop where hx': "hx' = hx\<lparr>hx_w := w, hx_c := (hx_c hx)\<lparr>hc_shutdown_requested := hc_shutdown_requested (hx_c hx) \<or> stop\<rparr>\<rparr>"
    and env: "world_env wfd (hx_w hx) w" and inv: "app_inv tables w"
    using assms by (auto simp: others_step_def sse_inv_def)
  have "world_ok (hx_w hx)" using assms(2) app_inv_world_ok by (auto simp: sse_inv_def)
  with world_env_ok(4) [OF env] env inv assms(2) show ?thesis
    by (auto simp: hx' sse_inv_def world_env_def)
qed

lemma app_inv_pipes [simp]: "app_inv tables (w\<lparr>w_pipes := ps\<rparr>) = app_inv tables w"
  by (simp add: app_inv_def service_inv_def)

lemma sub_only_pipes [simp]: "sub_only fd r (w\<lparr>w_pipes := ps\<rparr>) = sub_only fd r w"
  by (simp add: sub_only_def subs_of_def)

lemma wait_sse_inv:
  assumes "others_step tables hx (ht_env t hx)" "sse_inv tables b wfd room hx" "http_conn_wait t hx = (r, hx')"
  shows "sse_inv tables b wfd room hx' \<and> streamed (hx_c hx) (hx_c hx')"
  using others_sse_inv [OF assms(1,2)] assms(2,3)
  by (auto simp: http_conn_wait_def sse_inv_def Let_def split: if_splits wait_event.splits)

context sqlite_chat
begin

lemma presence_app_inv:
  "app_inv tables w \<Longrightarrow> app_inv tables (chat_room_presence_set sq w i u)"
  "app_inv tables w \<Longrightarrow> app_inv tables (chat_room_presence_clear sq w i u)"
  by (simp_all add: app_inv_def service_inv_def clean_log_def chat_room_presence_set_def chat_room_presence_clear_def
      Let_def presence_set_log presence_clear_log)

lemma sse_presence_inv:
  assumes "sse_inv tables b wfd room hx"
  shows "sse_inv tables b wfd room (sse_presence sq room user hx) \<and> hx_c (sse_presence sq room user hx) = hx_c hx"
  using assms presence_app_inv(1) by (auto simp: sse_presence_def sse_inv_def split: option.split)

lemma sse_inv_conn [simp]: "streamed (hx_c hx) c \<Longrightarrow> sse_inv tables b wfd room (hx\<lparr>hx_c := c\<rparr>) = sse_inv tables b wfd room hx"
  by (simp add: sse_inv_def streamed_def)

lemma sse_turn_inv:
  assumes "others_step tables hx (ht_env t hx)" "sse_inv tables b wfd room hx"
    and "sse_turn sq room user t cursor hx = Sse_stop cur hx' \<or> sse_turn sq room user t cursor hx = Sse_go cur hx'"
  shows "sse_inv tables b wfd room hx' \<and> streamed (hx_c hx) (hx_c hx')"
proof -
  obtain r hx1 where w: "http_conn_wait t hx = (r, hx1)" by fastforce
  note i = wait_sse_inv [OF assms(1,2) w]
  have p: "sse_inv tables b wfd room (sse_presence sq room user hx1)" "hx_c (sse_presence sq room user hx1) = hx_c hx1"
    using sse_presence_inv i by blast+
  let ?s = "sse_send_msgs (chat_room_since sq (hx_w hx1) room cursor 64 64) cursor (hx_c hx1)"
  let ?c = "http_sse_comment (hx_c hx1) ''keepalive''"
  have "streamed (hx_c hx1) (fst (snd ?s))" "streamed (hx_c hx1) (fst ?c)"
    by (rule sse_send_msgs_streamed, rule sse_comment_streamed(2))
  then show ?thesis
    using i p assms(3) w
    by (cases r) (auto simp: sse_turn_def split_beta Let_def split: if_splits intro: streamed_trans)
qed

lemma sse_loop_inv:
  assumes "\<And>t hx. t \<in> set turns \<Longrightarrow> others_step tables hx (ht_env t hx)" "sse_inv tables b wfd room hx"
    and "sse_loop sq room user turns cursor hx = Sse_stop cur hx' \<or> sse_loop sq room user turns cursor hx = Sse_go cur hx'"
  shows "sse_inv tables b wfd room hx' \<and> streamed (hx_c hx) (hx_c hx')"
  using assms
proof (induction turns arbitrary: cursor hx)
  case Nil
  then show ?case by (auto split: if_splits)
next
  case (Cons t ts)
  obtain cur1 hx1 where st: "sse_turn sq room user t cursor hx = Sse_stop cur1 hx1 \<or>
      sse_turn sq room user t cursor hx = Sse_go cur1 hx1"
    by (cases "sse_turn sq room user t cursor hx") auto
  have o: "others_step tables hx (ht_env t hx)" using Cons.prems(1) by simp
  note i = sse_turn_inv [OF o Cons.prems(2) st]
  from st show ?case
  proof
    assume "sse_turn sq room user t cursor hx = Sse_stop cur1 hx1"
    with Cons.prems(3) i show ?thesis by auto
  next
    assume "sse_turn sq room user t cursor hx = Sse_go cur1 hx1"
    with Cons.prems(3) have "sse_loop sq room user ts cur1 hx1 = Sse_stop cur hx' \<or> sse_loop sq room user ts cur1 hx1 = Sse_go cur hx'"
      by simp
    with Cons.IH [of hx1 cur1] Cons.prems(1) i show ?thesis by (auto intro: streamed_trans)
  qed
qed

end

lemma begin_conn:
  "hc_notify_rfd (http_sse_begin c) = hc_notify_rfd c" "hc_notify_wfd (http_sse_begin c) = hc_notify_wfd c"
  "hc_responded (http_sse_begin c)" "hc_overread (http_sse_begin c) = hc_overread c"
  "open_conn c \<Longrightarrow> open_conn (http_sse_begin c)"
  "open_conn c \<Longrightarrow> conn_sent (http_sse_begin c) = conn_sent c @ sse_head"
proof -
  have "conn_ctl (fst (send_all c sse_head)) = conn_ctl c" by simp
  then show "hc_notify_rfd (http_sse_begin c) = hc_notify_rfd c" "hc_notify_wfd (http_sse_begin c) = hc_notify_wfd c"
    by (simp_all add: http_sse_begin_def conn_ctl_def)
  show "hc_responded (http_sse_begin c)" "hc_overread (http_sse_begin c) = hc_overread c"
    by (simp_all add: http_sse_begin_def)
  assume "open_conn c"
  with send_all_open_simps(1,2) [of c sse_head] show "open_conn (http_sse_begin c)"
    "conn_sent (http_sse_begin c) = conn_sent c @ sse_head"
    by (simp_all add: http_sse_begin_def open_conn_def conn_sent_def)
qed

lemma begin_streamed_answered:
  assumes "streamed (http_sse_begin c) c'"
  shows "answered c c'"
  using assms begin_conn [of c] by (auto simp: streamed_def answered_def one_answer_def)

context sqlite_chat
begin

lemma sse_open_inv:
  assumes "\<And>hx. others_step tables hx (gap hx)"
    and "app_inv tables (hx_w hx)" "w_once (hx_w hx)" "room < length (w_rooms (hx_w hx))"
    and "sse_open sq gap room req hx = (cursor, hx')"
  shows "sse_inv tables (sub_only (hc_notify_wfd (hx_c hx)) None (hx_w hx)) (hc_notify_wfd (hx_c hx)) room hx'"
    and "streamed (http_sse_begin (hx_c hx)) (hx_c hx')"
    and "cursor = chat_room_tail sq (hx_w hx) room"
proof -
  let ?fd = "hc_notify_wfd (hx_c hx)" and ?b = "sub_only (hc_notify_wfd (hx_c hx)) None (hx_w hx)"
  let ?hx1 = "with_conn http_sse_begin hx"
  have fd: "hc_notify_wfd (hx_c ?hx1) = ?fd" by (simp add: with_conn_def begin_conn)
  obtain w stop where g: "gap ?hx1 = ?hx1\<lparr>hx_w := w, hx_c := (hx_c ?hx1)\<lparr>hc_shutdown_requested :=
      hc_shutdown_requested (hx_c ?hx1) \<or> stop\<rparr>\<rparr>"
    and env: "world_env ?fd (hx_w hx) w" and inv: "app_inv tables w"
    using assms(1) [of ?hx1] assms(2) unfolding others_step_def fd by (auto simp: with_conn_def)
  have room: "w_once w" "room < length (w_rooms w)" using env assms(3,4) by (auto simp: world_env_def)
  have sub: "?b \<Longrightarrow> sub_only ?fd (Some room) (chat_room_subscribe w room ?fd)"
    using world_env_ok(3) [OF env] sub_only_subscribe room(2) by blast
  have app: "app_inv tables (chat_room_subscribe w room ?fd)"
    using inv room unfolding chat_room_subscribe_def app_inv_def
    by (auto intro!: service_inv_update_subs length_sub_add)
  let ?hx2 = "(gap ?hx1)\<lparr>hx_w := chat_room_subscribe w room ?fd\<rparr>"
  have i2: "sse_inv tables ?b ?fd room ?hx2"
    using sub app room by (simp add: sse_inv_def g fd) (simp add: chat_room_subscribe_def)
  have gw: "hx_w (gap ?hx1) = w" "hc_notify_wfd (hx_c (gap ?hx1)) = ?fd" "hx_w ?hx1 = hx_w hx"
    unfolding g by (simp_all add: fd) (simp add: with_conn_def)
  have eq: "hx' = with_conn (\<lambda>c. fst (http_sse_comment c ''connected'')) (sse_presence sq room (sse_user req) ?hx2)"
    "cursor = chat_room_tail sq (hx_w hx) room"
    using assms(5) by (auto simp: sse_open_def Let_def gw http_conn_notify_wfd_def)
  note p = sse_presence_inv [OF i2, of "sse_user req"]
  have s: "streamed (hx_c (sse_presence sq room (sse_user req) ?hx2)) (hx_c hx')"
    by (simp add: eq with_conn_def sse_comment_streamed)
  with p show "sse_inv tables ?b ?fd room hx'" by (simp add: eq with_conn_def sse_comment_streamed)
  have "streamed (http_sse_begin (hx_c hx)) (hx_c ?hx2)" unfolding g by (simp add: with_conn_def)
  with p s show "streamed (http_sse_begin (hx_c hx)) (hx_c hx')" by (metis streamed_trans)
  show "cursor = chat_room_tail sq (hx_w hx) room" by (rule eq)
qed

lemma handle_sse_served:
  assumes "\<And>hx. others_step tables hx (gap hx)" "\<And>t hx. t \<in> set turns \<Longrightarrow> others_step tables hx (ht_env t hx)"
    and "app_inv tables (hx_w hx)" "w_once (hx_w hx)" "room < length (w_rooms (hx_w hx))"
    and "handle_sse sq gap turns room req hx = Some hx'"
  shows "served tables hx hx'"
proof -
  let ?fd = "hc_notify_wfd (hx_c hx)" and ?b = "sub_only (hc_notify_wfd (hx_c hx)) None (hx_w hx)"
  obtain cursor hx1 where o: "sse_open sq gap room req hx = (cursor, hx1)" by fastforce
  note i1 = sse_open_inv [OF assms(1,3,4,5) o]
  obtain cur hx2 where l: "sse_loop sq room (sse_user req) turns cursor hx1 = Sse_stop cur hx2"
    and hx': "hx' = sse_close sq room req hx2"
    using assms(6) o by (auto simp: handle_sse_def split: sse_step.splits)
  have i2: "sse_inv tables ?b ?fd room hx2" "streamed (hx_c hx1) (hx_c hx2)"
    using sse_loop_inv [OF assms(2) i1(1)] l by blast+
  then have fd: "hc_notify_wfd (hx_c hx2) = ?fd" and room: "room < length (w_rooms (hx_w hx2))"
    and inv: "app_inv tables (hx_w hx2)" by (auto simp: sse_inv_def)
  let ?w = "chat_room_unsubscribe (hx_w hx2) room ?fd"
  have app: "app_inv tables ?w"
    using inv room unfolding chat_room_unsubscribe_def app_inv_def
    by (auto intro!: service_inv_update_subs order.trans [OF length_sub_remove])
  have sub: "?b \<Longrightarrow> sub_only ?fd None ?w"
    using i2(1) room sub_only_unsubscribe by (auto simp: sse_inv_def)
  have "hx_c hx' = hx_c hx2" by (simp add: hx' sse_close_def Let_def)
  then have "answered (hx_c hx) (hx_c hx')"
    using begin_streamed_answered streamed_trans [OF i1(2) i2(2)] by simp
  with app sub presence_app_inv(2) [OF app] show ?thesis
    by (auto simp: served_def hx' sse_close_def http_conn_notify_wfd_def fd Let_def split: option.split)
qed

end

section \<open>The router keeps the contract of the hook\<close>

lemma init_once: "w_once (chat_service_init sq w)"
  by (simp add: chat_service_init_def)

lemma serve_static_answered:
  assumes "length ctype \<le> 64" "in_line ctype"
  shows "answered c (serve_static env fname ctype c)"
proof -
  have nf: "answered c (http_respond_text 404 (''Not Found'' @ [LF]) c)"
    "answered c (http_respond_text 500 (''oom'' @ [LF]) c)"
    by (rule respond_text_answered; simp add: plain_status_def)+
  have "answered c (http_respond 200 ctype (take (nat n) bytes) c)" if "n \<le> 262144" for n bytes
    using assms that by (intro respond_answered) (auto simp: plain_status_def)
  with nf show ?thesis by (auto simp: serve_static_def Let_def split: option.split)
qed

text \<open>A post by another thread is such a step.\<close>

lemma others_post:
  assumes "sqlite_chat sq tables"
  shows "others_step tables hx (hx\<lparr>hx_w := fst (chat_room_post sq (hx_w hx) i user body)\<rparr>)"
proof -
  obtain w mid where p: "chat_room_post sq (hx_w hx) i user body = (w, mid)" by fastforce
  note fr = post_frame [OF p]
  have "app_inv tables w \<and> map r_id (w_rooms (hx_w hx)) = take (length (w_rooms (hx_w hx))) (map r_id (w_rooms w))
      \<and> (\<forall>r. \<exists>new. wlog tables w r = wlog tables (hx_w hx) r @ new)" if inv: "app_inv tables (hx_w hx)"
  proof -
    have wf: "db_wf tables (w_db (hx_w hx))" using inv by (simp add: app_inv_def service_inv_def)
    have "app_inv tables w"
      using sqlite_chat.service_inv_post [OF assms, of "hx_w hx" i user body] inv fr p by (simp add: app_inv_def)
    moreover have "\<exists>new. wlog tables w r = wlog tables (hx_w hx) r @ new" for r
      using post_store(2,3) [OF assms wf p] by (cases "mid < 0") auto
    ultimately show ?thesis by (simp add: fr)
  qed
  moreover have "world_env (hc_notify_wfd (hx_c hx)) (hx_w hx) w"
    using fr by (simp add: world_env_def world_pre_def subs_of_def)
  ultimately show ?thesis
    unfolding others_step_def p by (intro exI [of _ w] exI [of _ False]) simp
qed

locale http_world = sqlite_chat sq tables for sq :: "'db sqlite" and tables :: "'db \<Rightarrow> chat_tables" +
  fixes env :: "'db henv"
  assumes opened: "opened_ok sq tables"
    and gap_others: "others_step tables hx (he_gap env hx)"
    and turns_others: "t \<in> set (he_turns env) \<Longrightarrow> others_step tables hx (ht_env t hx)"
begin

lemma init_app_inv: "app_inv tables w \<Longrightarrow> app_inv tables (chat_service_init sq w)"
  using service_inv_init [OF opened] by (simp add: app_inv_def init_once)

lemma post_app_inv: "app_inv tables w \<Longrightarrow> app_inv tables (fst (chat_room_post sq w i user body))"
  using service_inv_post [of w i user body]
    post_frame(1,3) [of sq w i user body "fst (chat_room_post sq w i user body)" "snd (chat_room_post sq w i user body)"]
  by (simp add: app_inv_def)

lemma handle_messages_post_served:
  assumes "app_inv tables (hx_w hx)"
  shows "served tables hx (handle_messages_post sq room req hx)"
proof -
  have ids: "length (fst (snprintf 64 str)) < 10 ^ 20" for str by (simp add: snprintf_def)
  have post: "served tables hx (with_conn (http_respond_json status str) (hx\<lparr>hx_w := fst (chat_room_post sq (hx_w hx) room user body)\<rparr>))"
    if "plain_status status" "length str < 10 ^ 20" for status str user body
  proof (rule served_world)
    show "served tables (hx\<lparr>hx_w := fst (chat_room_post sq (hx_w hx) room user body)\<rparr>)
        (with_conn (http_respond_json status str) (hx\<lparr>hx_w := fst (chat_room_post sq (hx_w hx) room user body)\<rparr>))"
      using that post_app_inv [OF assms] by (intro served_json) simp_all
  qed simp
  show ?thesis
    unfolding handle_messages_post_def Let_def split_beta using assms ids
    by (auto intro!: served_json post simp: plain_status_def)
qed

lemma handle_messages_get_served:
  assumes "app_inv tables (hx_w hx)"
  shows "served tables hx (handle_messages_get sq mem room req hx)"
proof (cases mem)
  case True
  let ?msgs = "chat_room_since sq (hx_w hx) room (query_since req) (query_limit req) 100"
  have clean: "\<forall>m \<in> set ?msgs. clean_msg m" using since_clean [OF sqlite_chat_axioms assms] by blast
  have "length ?msgs \<le> 100"
    by (simp add: chat_room_since_def chat_db_messages_since_def Let_def split: option.split)
  with handle_messages_get_eq [OF refl clean] True assms show ?thesis
    by (auto intro!: served_json simp: plain_status_def)
qed (use assms in \<open>auto simp: handle_messages_get_def Let_def plain_status_def intro!: served_json\<close>)

lemma handle_users_served: "app_inv tables (hx_w hx) \<Longrightarrow> served tables hx (handle_users sq room hx)"
  using handle_users_eq [of "chat_room_users sq (hx_w hx) room 64" sq hx room]
  by (auto intro!: served_json simp: plain_status_def)

lemma handle_rooms_served:
  assumes "app_inv tables (hx_w hx)"
  shows "served tables hx (handle_rooms sq hx)"
proof -
  have inv: "app_inv tables (chat_service_init sq (hx_w hx))" by (rule init_app_inv [OF assms])
  then have "length (w_rooms (chat_service_init sq (hx_w hx))) \<le> CHAT_MAX_ROOMS"
    by (simp add: app_inv_def service_inv_def)
  note eq = handle_rooms_eq [OF refl this]
  show ?thesis
    unfolding eq(1)
    by (rule served_world, rule served_json) (use inv eq(2) app_inv_pre [OF assms] sub_only_init in \<open>simp_all add: plain_status_def\<close>)
qed

lemma dispatch_events_served:
  assumes inv: "app_inv tables (hx_w hx)" and d: "dispatch_events sq env req hx = Some hx'"
  shows "served tables hx hx'"
proof -
  let ?w = "chat_service_init sq (hx_w hx)"
  have app: "app_inv tables ?w" by (rule init_app_inv [OF inv])
  have sub: "sub_only fd None (hx_w hx) \<Longrightarrow> sub_only fd None ?w" for fd
    using sub_only_init app_inv_pre [OF inv] by blast
  show ?thesis
  proof (cases "rq_method req = HTTP_M_GET \<and> starts_with ''/api/events/rooms/'' (cstr (rq_path req))")
    case False
    with d inv show ?thesis
      by (auto simp: dispatch_events_def Let_def plain_status_def simp del: cstr_Cons intro!: served_text)
  next
    case True
    let ?room = "find_room (w_rooms ?w) (fst (strtol (drop 18 (cstr (rq_path req))))) 0"
    show ?thesis
    proof (cases ?room)
      case None
      with True d have "hx' = with_conn (http_respond_json 404 ''{\"error\":\"no such room\"}'') (hx\<lparr>hx_w := ?w\<rparr>)"
        by (simp add: dispatch_events_def chat_room_by_id_def Let_def)
      with app sub show ?thesis by (auto intro!: served_world [OF served_json] simp: plain_status_def)
    next
      case (Some i)
      then have "i < length (w_rooms ?w)" using find_room_Some [OF Some] by simp
      moreover have "handle_sse sq (he_gap env) (he_turns env) i req (hx\<lparr>hx_w := ?w\<rparr>) = Some hx'"
        using True d Some by (simp add: dispatch_events_def chat_room_by_id_def Let_def)
      ultimately have "served tables (hx\<lparr>hx_w := ?w\<rparr>) hx'"
        using app by (intro handle_sse_served [OF gap_others turns_others]) (simp_all add: init_once)
      with sub show ?thesis by (auto intro: served_world)
    qed
  qed
qed

lemma dispatch_room_served:
  assumes inv: "app_inv tables (hx_w hx)" and d: "dispatch_room sq env req rid sub hx = Some hx'"
  shows "served tables hx hx'"
proof -
  let ?w = "chat_service_init sq (hx_w hx)" and ?hx = "hx\<lparr>hx_w := chat_service_init sq (hx_w hx)\<rparr>"
  have app: "app_inv tables (hx_w ?hx)" using init_app_inv [OF inv] by simp
  have "sub_only fd None (hx_w hx) \<Longrightarrow> sub_only fd None ?w" for fd
    using sub_only_init app_inv_pre [OF inv] by blast
  moreover have "served tables ?hx hx'"
    using d app handle_messages_get_served [OF app] handle_messages_post_served [OF app] handle_users_served [OF app]
      dispatch_events_served [OF app]
    by (auto simp: dispatch_room_def chat_room_by_id_def Let_def plain_status_def
          split: option.splits if_splits intro!: served_json served_text)
  ultimately show ?thesis by (auto intro: served_world)
qed

lemma http_dispatch_served:
  assumes inv: "app_inv tables (hx_w hx)" and d: "http_dispatch sq env hx req = Some hx'"
  shows "served tables hx hx'"
proof -
  have st: "served tables hx (with_conn (serve_static env f ctype) hx)" if "length ctype \<le> 64" "in_line ctype" for f ctype
    using served_with_conn [OF inv] serve_static_answered [OF that] by blast
  show ?thesis
    using d inv st handle_rooms_served [OF inv] dispatch_room_served [OF inv] dispatch_events_served [OF inv]
    by (auto simp: http_dispatch_def Let_def plain_status_def split: option.splits if_splits intro!: served_json)
qed

end

sublocale http_world \<subseteq> app: http_app "http_dispatch sq env" "app_inv tables"
  using http_dispatch_served by unfold_locales (auto simp: served_def)

context http_world
begin

lemmas router_contract = app.http_app_axioms

end

end
