(* ===== verification/Http_Stream.thy ===== *)
theory Http_Stream
  imports Http_Chat
begin

text \<open>
  The event stream of \<^verbatim>\<open>handle_sse\<close> (\<^verbatim>\<open>features/chat/http_chat.c\<close>) follows the log of its room: what
  it has sent, together with what is newer than its cursor, is always what was stored
  since it was opened. The proofs use the contract \<open>message_log\<close> of the storage module.
\<close>

section \<open>What the event stream delivers\<close>

definition data_of :: "sse_item list \<Rightarrow> string list" where
  "data_of fs = concat (map (\<lambda>f. case f of Sse_data d \<Rightarrow> [d] | Sse_comment _ \<Rightarrow> []) fs)"

lemma data_of_simps [simp]:
  "data_of [] = []" "data_of (Sse_data d # fs) = d # data_of fs" "data_of (Sse_comment t # fs) = data_of fs"
  "data_of (fs @ gs) = data_of fs @ data_of gs"
  by (simp_all add: data_of_def)

lemma data_of_map [simp]: "data_of (map Sse_data ds) = ds"
  by (induction ds) simp_all

lemma data_frames_ok: "list_all frame_ok (map Sse_data (map msg_text ms))"
  by (simp add: list_all_iff)

lemma msg_to_json_whole: "clean_msg m \<Longrightarrow> cstr (fst (msg_to_json m (CHAT_BODY_MAX * 2 + 128))) = msg_text m"
  using length_msg_text [of m] by (simp add: msg_to_json_def snprintf_def chat_sizes)

lemma sse_send_msgs_open:
  assumes "open_conn c" "\<forall>m \<in> set ms. clean_msg m"
  shows "\<exists>c'. sse_send_msgs ms cursor c = (advance cursor ms, c', False) \<and> open_conn c' \<and> conn_ctl c' = conn_ctl c
     \<and> conn_sent c' = conn_sent c @ concat (map sse_frame (map Sse_data (map msg_text ms)))"
  using assms
proof (induction ms arbitrary: cursor c)
  case Nil
  then show ?case by (simp add: advance_def)
next
  case (Cons m ms)
  let ?s = "http_sse_send c (msg_text m)"
  have s: "open_conn (fst ?s)" "conn_sent (fst ?s) = conn_sent c @ sse_frame (Sse_data (msg_text m))" "snd ?s = 0"
    "conn_ctl (fst ?s) = conn_ctl c"
    using Cons.prems(1) by (simp_all add: http_sse_send_def send_three_open)
  from Cons.IH [OF s(1), of "cm_id m"] Cons.prems(2) obtain c' where
    "sse_send_msgs ms (cm_id m) (fst ?s) = (advance (cm_id m) ms, c', False)" "open_conn c'" "conn_ctl c' = conn_ctl (fst ?s)"
    "conn_sent c' = conn_sent (fst ?s) @ concat (map sse_frame (map Sse_data (map msg_text ms)))" by auto
  with s Cons.prems(2) show ?case by (auto simp: split_beta msg_to_json_whole advance_def)
qed

definition at_cursor :: "int \<Rightarrow> chat_msg list \<Rightarrow> bool" where
  "at_cursor c log \<longleftrightarrow> c = 0 \<or> c \<in> cm_id ` set log"

definition newer :: "int \<Rightarrow> chat_msg list \<Rightarrow> chat_msg list" where
  "newer c log = filter (\<lambda>m. c < cm_id m) log"

text \<open>The position of a stream in a log that was \<open>base\<close> when it was opened: \<open>dels\<close> was
  delivered, and what is newer than the cursor is what follows in the log.\<close>

definition stream_at :: "chat_msg list \<Rightarrow> int \<Rightarrow> chat_msg list \<Rightarrow> chat_msg list \<Rightarrow> bool" where
  "stream_at base cur dels log \<longleftrightarrow> log = base @ dels @ newer cur log \<and> at_cursor cur log"

lemma newer_grows:
  assumes "sorted_wrt (<) (map cm_id (log @ new))" "\<forall>m \<in> set (log @ new). 0 < cm_id m" "at_cursor c log"
  shows "newer c (log @ new) = newer c log @ new"
proof -
  have "\<forall>m \<in> set new. c < cm_id m" using assms by (auto simp: at_cursor_def sorted_wrt_append)
  then show ?thesis by (simp add: newer_def filter_id_conv)
qed

lemma stream_grows:
  assumes "sorted_wrt (<) (map cm_id (log @ new))" "\<forall>m \<in> set (log @ new). 0 < cm_id m" "stream_at base cur dels log"
  shows "stream_at base cur dels (log @ new)"
  using assms(3) newer_grows [OF assms(1,2), of cur] by (auto simp: stream_at_def at_cursor_def)

context sqlite_chat
begin

text \<open>One batch moves the stream on.\<close>

lemma since_batch:
  assumes "db_wf tables (w_db w)" "db_readable sq (w_db w)"
    and ms: "ms = chat_room_since sq w room cur 64 64" and log: "log = wlog tables w (r_id (room_at w room))"
  shows "ms = take 64 (newer cur log)" and "ms @ newer (advance cur ms) log = newer cur log"
    and "newer (advance cur ms) log = drop 64 (newer cur log)"
proof -
  show ms': "ms = take 64 (newer cur log)"
    using db_since_eq [OF assms(1,2), of 64 64] by (simp add: ms chat_room_since_def newer_def log)
  show step: "ms @ newer (advance cur ms) log = newer cur log"
    using chatlog.follow_step [OF assms(1,2), of 64 64 "r_id (room_at w room)" cur]
    by (simp add: ms chat_room_since_def newer_def log)
  then show "newer (advance cur ms) log = drop 64 (newer cur log)"
    using ms' by (metis append_take_drop_id same_append_eq)
qed

lemma stream_batch:
  assumes "db_wf tables (w_db w)" "db_readable sq (w_db w)"
    and ms: "ms = chat_room_since sq w room cur 64 64" and log: "log = wlog tables w (r_id (room_at w room))"
    and "stream_at base cur dels log"
  shows "stream_at base (advance cur ms) (dels @ ms) log"
proof -
  note b = since_batch [OF assms(1-4)]
  have "at_cursor (advance cur ms) log"
  proof (cases "ms = []")
    case False
    then have "last ms \<in> set (take 64 (newer cur log))" using b(1) last_in_set [OF False] by simp
    then have "last ms \<in> set log" by (auto simp: newer_def dest!: in_set_takeD)
    with False show ?thesis by (simp add: at_cursor_def advance_def)
  qed (use assms(5) in \<open>simp add: advance_def stream_at_def\<close>)
  with assms(5) show ?thesis by (simp add: stream_at_def b(2))
qed

end

definition on_stream :: "('db \<Rightarrow> chat_tables) \<Rightarrow> nat \<Rightarrow> int \<Rightarrow> chat_msg list \<Rightarrow> int \<Rightarrow> chat_msg list \<Rightarrow> 'db hctx \<Rightarrow> bool" where
  "on_stream tables room rid base cur dels hx \<longleftrightarrow> open_conn (hx_c hx) \<and> app_inv tables (hx_w hx) \<and> w_once (hx_w hx)
     \<and> room < length (w_rooms (hx_w hx)) \<and> r_id (room_at (hx_w hx) room) = rid
     \<and> stream_at base cur dels (wlog tables (hx_w hx) rid)"

lemma on_stream_pipes [simp]:
  "on_stream tables room rid base cur dels (hx\<lparr>hx_w := (hx_w hx)\<lparr>w_pipes := ps\<rparr>\<rparr>) = on_stream tables room rid base cur dels hx"
  by (simp add: on_stream_def)

lemma open_conn_flag [simp]:
  "open_conn (c\<lparr>hc_shutdown_requested := b\<rparr>) = open_conn c" "conn_sent (c\<lparr>hc_shutdown_requested := b\<rparr>) = conn_sent c"
  by (simp_all add: open_conn_def conn_sent_def)

lemma room_id_prefix:
  assumes "map r_id rs = take (length rs) (map r_id rs')" "i < length rs"
  shows "r_id (rs' ! i) = r_id (rs ! i)" "i < length rs'"
proof -
  have "length rs \<le> length rs'" using arg_cong [OF assms(1), of length] by simp
  with assms(2) show i: "i < length rs'" by simp
  have "map r_id rs ! i = take (length rs) (map r_id rs') ! i" using assms(1) by simp
  with assms(2) i show "r_id (rs' ! i) = r_id (rs ! i)" by simp
qed

context sqlite_chat
begin

lemma others_stream:
  assumes "others_step tables hx hx'" "on_stream tables room rid base cur dels hx"
  shows "on_stream tables room rid base cur dels hx' \<and> conn_sent (hx_c hx') = conn_sent (hx_c hx)"
proof -
  obtain w stop where hx': "hx' = hx\<lparr>hx_w := w, hx_c := (hx_c hx)\<lparr>hc_shutdown_requested := hc_shutdown_requested (hx_c hx) \<or> stop\<rparr>\<rparr>"
    and env: "world_env (hc_notify_wfd (hx_c hx)) (hx_w hx) w" and inv: "app_inv tables w"
    and ids: "map r_id (w_rooms (hx_w hx)) = take (length (w_rooms (hx_w hx))) (map r_id (w_rooms w))"
    and grow: "\<forall>r. \<exists>new. wlog tables w r = wlog tables (hx_w hx) r @ new"
    using assms by (auto simp: others_step_def on_stream_def)
  obtain new where new: "wlog tables w rid = wlog tables (hx_w hx) rid @ new" using grow by blast
  have wf: "db_wf tables (w_db w)" using inv by (simp add: app_inv_def service_inv_def)
  have "stream_at base cur dels (wlog tables (hx_w hx) rid @ new)"
    using chatlog.log_increasing [OF wf, of rid] chatlog.log_positive [OF wf, of _ rid] assms(2)
    by (intro stream_grows) (auto simp: new on_stream_def)
  with room_id_prefix [OF ids] env inv assms(2) show ?thesis
    by (auto simp: on_stream_def hx' new world_env_def)
qed

lemma wait_stream:
  assumes "others_step tables hx (ht_env t hx)" "on_stream tables room rid base cur dels hx" "http_conn_wait t hx = (r, hx')"
  shows "on_stream tables room rid base cur dels hx' \<and> conn_sent (hx_c hx') = conn_sent (hx_c hx)"
  using others_stream [OF assms(1,2)] assms(2,3)
  by (auto simp: http_conn_wait_def Let_def split: if_splits wait_event.splits)

lemma presence_stream:
  assumes "on_stream tables room rid base cur dels hx"
  shows "on_stream tables room rid base cur dels (sse_presence sq r user hx)" "hx_c (sse_presence sq r user hx) = hx_c hx"
  using assms presence_app_inv(1)
  by (auto simp: sse_presence_def on_stream_def chat_room_presence_set_def presence_set_log Let_def split: option.split)

text \<open>What one turn of the loop sends.\<close>

lemma sse_turn_stream:
  assumes "others_step tables hx (ht_env t hx)" "\<And>s. db_readable sq s" "on_stream tables room rid base cur dels hx"
    and "sse_turn sq room user t cur hx = Sse_stop cur' hx' \<or> sse_turn sq room user t cur hx = Sse_go cur' hx'"
  shows "\<exists>fs ms. on_stream tables room rid base cur' (dels @ ms) hx'
     \<and> conn_sent (hx_c hx') = conn_sent (hx_c hx) @ concat (map sse_frame fs) \<and> data_of fs = map msg_text ms
     \<and> list_all frame_ok fs"
proof -
  obtain r hx1 where w: "http_conn_wait t hx = (r, hx1)" by fastforce
  have s1: "on_stream tables room rid base cur dels hx1" and sent1: "conn_sent (hx_c hx1) = conn_sent (hx_c hx)"
    using wait_stream [OF assms(1,3) w] by auto
  show ?thesis
  proof (cases r)
    case HTTP_WAIT_CLOSED
    with assms(4) w have "cur' = cur" "hx' = hx1" by (auto simp: sse_turn_def)
    with s1 sent1 show ?thesis by (intro exI [of _ "[]"]) simp
  next
    case HTTP_WAIT_TIMEOUT
    let ?hx2 = "sse_presence sq room user hx1"
    let ?c = "http_sse_comment (hx_c hx1) ''keepalive''"
    have o: "open_conn (hx_c hx1)" using s1 by (simp add: on_stream_def)
    note p = presence_stream [OF s1, of room user]
    from HTTP_WAIT_TIMEOUT assms(4) w p(2) have "cur' = cur" "hx' = ?hx2\<lparr>hx_c := fst ?c\<rparr>"
      by (auto simp: sse_turn_def Let_def split_beta split: if_splits)
    moreover have "open_conn (fst ?c)"
      "conn_sent (fst ?c) = conn_sent (hx_c hx1) @ sse_frame (Sse_comment ''keepalive'')"
      using send_three_open [OF o] by (simp_all add: http_sse_comment_def)
    ultimately show ?thesis
      using p s1 sent1 by (intro exI [of _ "[Sse_comment ''keepalive'']"] exI [of _ "[]"]) (simp add: on_stream_def)
  next
    case HTTP_WAIT_NOTIFY
    let ?ms = "chat_room_since sq (hx_w hx1) room cur 64 64"
    have o: "open_conn (hx_c hx1)" and inv: "app_inv tables (hx_w hx1)" and rid: "r_id (room_at (hx_w hx1) room) = rid"
      and at: "stream_at base cur dels (wlog tables (hx_w hx1) rid)"
      using s1 by (auto simp: on_stream_def)
    have "\<forall>m \<in> set ?ms. clean_msg m" using since_clean [OF sqlite_chat_axioms inv] by blast
    from sse_send_msgs_open [OF o this, of cur] obtain c' where
      c': "sse_send_msgs ?ms cur (hx_c hx1) = (advance cur ?ms, c', False)" "open_conn c'"
        "conn_sent c' = conn_sent (hx_c hx1) @ concat (map sse_frame (map Sse_data (map msg_text ?ms)))" by blast
    with HTTP_WAIT_NOTIFY assms(4) w have res: "cur' = advance cur ?ms" "hx' = hx1\<lparr>hx_c := c'\<rparr>"
      by (auto simp: sse_turn_def)
    have wf: "db_wf tables (w_db (hx_w hx1))" using inv by (simp add: app_inv_def service_inv_def)
    have "stream_at base (advance cur ?ms) (dels @ ?ms) (wlog tables (hx_w hx1) rid)"
      using stream_batch [OF wf assms(2) refl rid [symmetric, THEN arg_cong] at] .
    then have "on_stream tables room rid base cur' (dels @ ?ms) hx'"
      using s1 c'(2) by (simp add: on_stream_def res)
    moreover have "conn_sent (hx_c hx') = conn_sent (hx_c hx) @ concat (map sse_frame (map Sse_data (map msg_text ?ms)))"
      using c'(3) sent1 by (simp add: res)
    ultimately show ?thesis
      by (intro exI [of _ "map Sse_data (map msg_text ?ms)"] exI [of _ ?ms]) (simp add: data_frames_ok del: map_map)
  qed
qed

lemma sse_loop_stream:
  assumes "\<And>t hx. t \<in> set turns \<Longrightarrow> others_step tables hx (ht_env t hx)" "\<And>s. db_readable sq s"
    and "on_stream tables room rid base cur dels hx"
    and "sse_loop sq room user turns cur hx = Sse_stop cur' hx' \<or> sse_loop sq room user turns cur hx = Sse_go cur' hx'"
  shows "\<exists>fs ms. on_stream tables room rid base cur' (dels @ ms) hx'
     \<and> conn_sent (hx_c hx') = conn_sent (hx_c hx) @ concat (map sse_frame fs) \<and> data_of fs = map msg_text ms
     \<and> list_all frame_ok fs"
  using assms(1,3,4)
proof (induction turns arbitrary: cur dels hx)
  case Nil
  then have "cur' = cur" "hx' = hx" by (auto split: if_splits)
  with Nil show ?case by (intro exI [of _ "[]"]) simp
next
  case (Cons t ts)
  obtain cur1 hx1 where st: "sse_turn sq room user t cur hx = Sse_stop cur1 hx1 \<or>
      sse_turn sq room user t cur hx = Sse_go cur1 hx1"
    by (cases "sse_turn sq room user t cur hx") auto
  have o: "others_step tables hx (ht_env t hx)" using Cons.prems(1) by simp
  obtain fs ms where 1: "on_stream tables room rid base cur1 (dels @ ms) hx1"
    "conn_sent (hx_c hx1) = conn_sent (hx_c hx) @ concat (map sse_frame fs)" "data_of fs = map msg_text ms"
    "list_all frame_ok fs"
    using sse_turn_stream [OF o assms(2) Cons.prems(2) st] by blast
  from st show ?case
  proof
    assume "sse_turn sq room user t cur hx = Sse_stop cur1 hx1"
    with Cons.prems(3) have "cur' = cur1" "hx' = hx1" by auto
    with 1 show ?thesis by blast
  next
    assume go: "sse_turn sq room user t cur hx = Sse_go cur1 hx1"
    with Cons.prems(3) have loop: "sse_loop sq room user ts cur1 hx1 = Sse_stop cur' hx' \<or> sse_loop sq room user ts cur1 hx1 = Sse_go cur' hx'"
      by simp
    obtain fs' ms' where "on_stream tables room rid base cur' ((dels @ ms) @ ms') hx'"
      "conn_sent (hx_c hx') = conn_sent (hx_c hx1) @ concat (map sse_frame fs')" "data_of fs' = map msg_text ms'"
      "list_all frame_ok fs'"
      using Cons.IH [OF Cons.prems(1) 1(1) loop] by auto
    with 1 show ?thesis by (intro exI [of _ "fs @ fs'"] exI [of _ "ms @ ms'"]) simp
  qed
qed

end

context http_world
begin

lemma sse_open_stream:
  assumes rd: "\<And>s. db_readable sq s"
    and inv: "app_inv tables (hx_w hx)" "w_once (hx_w hx)" "room < length (w_rooms (hx_w hx))" "open_conn (hx_c hx)"
    and rid: "rid = r_id (room_at (hx_w hx) room)"
    and opn: "sse_open sq (he_gap env) room req hx = (c0, hx1)"
  shows "on_stream tables room rid (wlog tables (hx_w hx) rid) c0 [] hx1"
    and "conn_sent (hx_c hx1) = conn_sent (hx_c hx) @ sse_head @ sse_frame (Sse_comment ''connected'')"
proof -
  let ?base = "wlog tables (hx_w hx) rid" and ?hx0 = "with_conn http_sse_begin hx"
  let ?hx2 = "he_gap env ?hx0"
  let ?hx3 = "?hx2\<lparr>hx_w := chat_room_subscribe (hx_w ?hx2) room (http_conn_notify_wfd (hx_c ?hx2))\<rparr>"
  let ?hx4 = "sse_presence sq room (sse_user req) ?hx3"
  have wf: "db_wf tables (w_db (hx_w hx))" using inv(1) by (simp add: app_inv_def service_inv_def)
  have c0: "c0 = chat_room_tail sq (hx_w hx) room" and hx1: "hx1 = with_conn (\<lambda>c. fst (http_sse_comment c ''connected'')) ?hx4"
    using opn by (auto simp: sse_open_def Let_def) (simp add: with_conn_def)
  have "newer c0 ?base = []"
    using chatlog.tail_nothing_new [OF wf rd, of rid] by (simp add: newer_def c0 chat_room_tail_def rid)
  moreover have "at_cursor c0 ?base"
    using chatlog.tail_eq [OF wf rd, of rid] by (simp add: at_cursor_def c0 chat_room_tail_def rid)
  ultimately have "on_stream tables room rid ?base c0 [] ?hx0"
    using inv begin_conn(5) [OF inv(4)] by (simp add: on_stream_def stream_at_def with_conn_def rid)
  note g = others_stream [OF gap_others this]
  have s2: "on_stream tables room rid ?base c0 [] ?hx2" and sent2: "conn_sent (hx_c ?hx2) = conn_sent (hx_c hx) @ sse_head"
    using g begin_conn(6) [OF inv(4)] by (simp_all add: with_conn_def)
  have "app_inv tables (chat_room_subscribe (hx_w ?hx2) room fd)" for fd
    using s2 unfolding chat_room_subscribe_def app_inv_def on_stream_def
    by (auto intro!: service_inv_update_subs length_sub_add)
  then have "on_stream tables room rid ?base c0 [] ?hx3"
    using s2 by (auto simp: on_stream_def chat_room_subscribe_def update_subs_def)
  note p = presence_stream [OF this, of room "sse_user req"]
  have o: "open_conn (hx_c ?hx4)" using p(1) by (simp add: on_stream_def)
  have sent: "conn_sent (hx_c ?hx4) = conn_sent (hx_c hx) @ sse_head" using p(2) sent2 by simp
  from p(1) send_three_open [OF o] show "on_stream tables room rid ?base c0 [] hx1"
    by (simp add: on_stream_def hx1 with_conn_def http_sse_comment_def)
  from sent send_three_open [OF o] show
    "conn_sent (hx_c hx1) = conn_sent (hx_c hx) @ sse_head @ sse_frame (Sse_comment ''connected'')"
    by (simp add: hx1 with_conn_def http_sse_comment_def)
qed

lemma stream_exact:
  assumes rd: "\<And>s. db_readable sq s"
    and inv: "app_inv tables (hx_w hx)" "w_once (hx_w hx)" "room < length (w_rooms (hx_w hx))" "open_conn (hx_c hx)"
    and rid: "rid = r_id (room_at (hx_w hx) room)"
    and opn: "sse_open sq (he_gap env) room req hx = (c0, hx1)"
    and loop: "sse_loop sq room (sse_user req) (he_turns env) c0 hx1 \<in> {Sse_stop cur hx2, Sse_go cur hx2}"
  shows "\<exists>fs ms. conn_sent (hx_c hx2) = conn_sent (hx_c hx) @ sse_head
        @ concat (map sse_frame (Sse_comment ''connected'' # fs))
     \<and> list_all frame_ok fs \<and> data_of fs = map msg_text ms
     \<and> ms @ newer cur (wlog tables (hx_w hx2) rid) = drop (length (wlog tables (hx_w hx) rid)) (wlog tables (hx_w hx2) rid)"
proof -
  note o = sse_open_stream [OF rd inv rid opn]
  obtain fs ms where s: "on_stream tables room rid (wlog tables (hx_w hx) rid) cur ms hx2"
    "conn_sent (hx_c hx2) = conn_sent (hx_c hx1) @ concat (map sse_frame fs)" "data_of fs = map msg_text ms"
    "list_all frame_ok fs"
    using sse_loop_stream [OF turns_others rd o(1), of "he_turns env" "sse_user req" cur hx2] loop by auto
  have log: "wlog tables (hx_w hx2) rid = wlog tables (hx_w hx) rid @ ms @ newer cur (wlog tables (hx_w hx2) rid)"
    using s(1) by (simp add: on_stream_def stream_at_def)
  have "drop (length (wlog tables (hx_w hx) rid)) (wlog tables (hx_w hx2) rid) = ms @ newer cur (wlog tables (hx_w hx2) rid)"
    by (subst log) simp
  with s(2-4) o(2) show ?thesis by (intro exI [of _ fs] exI [of _ ms]) simp
qed

end

section \<open>Properties\<close>

text \<open>C3: The event stream loses nothing and repeats nothing. At every moment of a stream, on a
  connection that accepts its output and whatever the other threads do meanwhile (also
  between taking the cursor and subscribing), the client has received the stream header,
  the greeting, and then, among keepalive comments, one data frame, complete and in order,
  for each message of a prefix of the messages stored in the room since the stream was
  opened; the rest of those messages is exactly what is newer than the cursor.\<close>

theorem sse_stream_exact:
  assumes "http_world sq tables env" and "\<And>s. db_readable sq s"
    and "app_inv tables (hx_w hx)" and "w_once (hx_w hx)" and "room < length (w_rooms (hx_w hx))"
    and "open_conn (hx_c hx)" and "rid = r_id (room_at (hx_w hx) room)"
    and "sse_open sq (he_gap env) room req hx = (c0, hx1)"
    and "sse_loop sq room (sse_user req) (he_turns env) c0 hx1 \<in> {Sse_stop cur hx2, Sse_go cur hx2}"
  shows "\<exists>fs ms. conn_sent (hx_c hx2) = conn_sent (hx_c hx) @ sse_head
        @ concat (map sse_frame (Sse_comment ''connected'' # fs))
     \<and> list_all frame_ok fs \<and> data_of fs = map msg_text ms
     \<and> ms @ newer cur (wlog tables (hx_w hx2) rid) = drop (length (wlog tables (hx_w hx) rid)) (wlog tables (hx_w hx2) rid)"
  using assms by (rule http_world.stream_exact)

text \<open>A wake-up of the event stream sends the oldest 64 messages newer than its cursor, as one
  frame each and in order, and empties the pipe. Messages beyond the 64 stay unsent with
  no wake-up pending; the cursor stands before them, so the next wake-up sends them.\<close>

theorem sse_notify_batch:
  assumes "sqlite_chat sq tables" and "\<And>s. db_readable sq s"
    and "hx' = ht_env t hx" and "app_inv tables (hx_w hx')" and "open_conn (hx_c hx')"
    and "\<not> hc_shutdown_requested (hx_c hx)" and "\<not> hc_shutdown_requested (hx_c hx')"
    and "0 \<le> hc_notify_rfd (hx_c hx')" and "ht_event t = Wait_ready True sock_ready r"
    and "new = newer cur (wlog tables (hx_w hx') (r_id (room_at (hx_w hx') room)))"
  shows "\<exists>hx2. sse_turn sq room user t cur hx = Sse_go (advance cur (take 64 new)) hx2
     \<and> conn_sent (hx_c hx2) = conn_sent (hx_c hx') @ concat (map (\<lambda>m. sse_frame (Sse_data (msg_text m))) (take 64 new))
     \<and> \<not> pending (w_pipes (hx_w hx2)) (hc_notify_wfd (hx_c hx'))
     \<and> newer (advance cur (take 64 new)) (wlog tables (hx_w hx2) (r_id (room_at (hx_w hx2) room))) = drop 64 new"
proof -
  let ?w = "hx_w hx'" and ?fd = "hc_notify_wfd (hx_c hx')"
  let ?hx1 = "hx'\<lparr>hx_w := ?w\<lparr>w_pipes := pipe_drain ?fd (w_pipes ?w)\<rparr>\<rparr>"
  have wait: "http_conn_wait t hx = (HTTP_WAIT_NOTIFY, ?hx1)"
    using assms(3,6-9) by (simp add: http_conn_wait_def Let_def)
  have wf: "db_wf tables (w_db ?w)" using assms(4) by (simp add: app_inv_def service_inv_def)
  have ms: "chat_room_since sq (hx_w ?hx1) room cur 64 64 = take 64 new"
    using sqlite_chat.db_since_eq [OF assms(1) wf assms(2), of 64 64] by (simp add: chat_room_since_def newer_def assms(10))
  have since: "chat_room_since sq ?w room cur 64 64 = take 64 new"
    using ms by (simp add: chat_room_since_def)
  then have "\<forall>m \<in> set (take 64 new). clean_msg m" using since_clean [OF assms(1,4)] by metis
  from sse_send_msgs_open [OF _ this, of "hx_c ?hx1" cur] assms(5) obtain c' where
    c': "sse_send_msgs (take 64 new) cur (hx_c ?hx1) = (advance cur (take 64 new), c', False)"
      "conn_sent c' = conn_sent (hx_c hx') @ concat (map sse_frame (map Sse_data (map msg_text (take 64 new))))" by auto
  let ?hx2 = "?hx1\<lparr>hx_c := c'\<rparr>"
  have "sse_turn sq room user t cur hx = Sse_go (advance cur (take 64 new)) ?hx2"
    unfolding sse_turn_def wait using ms c'(1) by simp
  moreover have "\<not> pending (w_pipes (hx_w ?hx2)) ?fd"
    by (auto simp: pipe_drain_def pending_def split: option.split)
  moreover have "newer (advance cur (take 64 new)) (wlog tables ?w (r_id (room_at ?w room))) = drop 64 new"
    using sqlite_chat.since_batch(3) [OF assms(1) wf assms(2) since [symmetric] refl] by (simp only: assms(10))
  ultimately show ?thesis using c'(2) by (intro exI [of _ ?hx2]) (simp add: comp_def)
qed

section \<open>A running example\<close>

text \<open>A stream on the room general: while it waits, another thread posts and the pipe wakes
  it; then the client closes.\<close>

definition demo_post_turn :: "chat_tables hturn" where
  "demo_post_turn = \<lparr>ht_env = (\<lambda>hx. hx\<lparr>hx_w := fst (chat_room_post ref_sqlite (hx_w hx) 0 ''bob'' ''hi'')\<rparr>),
     ht_event = Wait_ready True False 0\<rparr>"

definition demo_env :: "chat_tables henv" where
  "demo_env = \<lparr>he_webroot = None, he_open = (\<lambda>_. None), he_mem = True, he_gap = (\<lambda>hx. hx),
     he_turns = [demo_post_turn, \<lparr>ht_env = (\<lambda>hx. hx), ht_event = Wait_ready False True 0\<rparr>]\<rparr>"

interpretation demo_http: http_world ref_sqlite "\<lambda>t. t" demo_env
  by unfold_locales
     (auto simp: ref_opened_ok demo_env_def demo_post_turn_def intro: others_post [OF ref_engine.sqlite_chat_axioms])

definition demo_hx :: "chat_tables hctx" where
  "demo_hx = \<lparr>hx_c = demo_conn, hx_w = chat_service_init ref_sqlite demo_boot\<rparr>"

lemma demo_hx_ok:
  "app_inv (\<lambda>t. t) (hx_w demo_hx)" "w_once (hx_w demo_hx)" "length (w_rooms (hx_w demo_hx)) = 3"
  "open_conn (hx_c demo_hx)" "r_id (room_at (hx_w demo_hx) 0) = 1" "sub_only 7 None (hx_w demo_hx)"
  by (simp_all add: demo_hx_def demo_conn_def open_conn_def demo_init app_inv_def service_inv_def db_wf_def clean_log_def
        db_log_def demo_tables_def tables_ok_def CHAT_MAX_ROOMS_def room_ok_def chat_sizes CHAT_MAX_SUBSCRIBERS_def
        sub_only_def subs_of_def less_Suc_eq numeral_3_eq_3)

lemma ref_readable: "db_readable ref_sqlite s"
  by (simp add: db_readable_def split: option.split)

theorem sse_stream_exact_witness:
  "\<exists>cur hx2 fs ms. sse_loop ref_sqlite 0 None (he_turns demo_env) (fst (sse_open ref_sqlite (he_gap demo_env) 0 no_request demo_hx))
        (snd (sse_open ref_sqlite (he_gap demo_env) 0 no_request demo_hx)) \<in> {Sse_stop cur hx2, Sse_go cur hx2}
     \<and> conn_sent (hx_c hx2) = sse_head @ concat (map sse_frame (Sse_comment ''connected'' # fs))
     \<and> list_all frame_ok fs \<and> data_of fs = map msg_text ms"
proof -
  let ?o = "sse_open ref_sqlite (he_gap demo_env) 0 no_request demo_hx"
  let ?l = "sse_loop ref_sqlite 0 None (he_turns demo_env) (fst ?o) (snd ?o)"
  have u: "sse_user no_request = None" by (simp add: sse_user_def no_request_def http_query_get.simps)
  obtain cur hx2 where l: "?l \<in> {Sse_stop cur hx2, Sse_go cur hx2}" by (cases ?l) auto
  have sent: "conn_sent (hx_c demo_hx) = []" by (simp add: demo_hx_def demo_conn_def conn_sent_def)
  from sse_stream_exact [OF demo_http.http_world_axioms ref_readable demo_hx_ok(1,2) _ demo_hx_ok(4) refl
      prod.collapse [symmetric], of 0 no_request cur hx2] l u sent demo_hx_ok(3)
  show ?thesis by (intro exI [of _ cur] exI [of _ hx2]) auto
qed

lemma demo_posted:
  "chat_room_post ref_sqlite (hx_w demo_hx) 0 ''bob'' ''hi'' =
    ((hx_w demo_hx)\<lparr>w_db := Some (demo_tables\<lparr>tb_msgs := [\<lparr>mr_id = 1, mr_room = 1, mr_user = ''bob'', mr_ts = 1000,
       mr_body = ''hi''\<rparr>], tb_seq := 1\<rparr>)\<rparr>, 1)"
proof -
  have "sanitize_user ''bob'' CHAT_USER_MAX = ''bob''" "sanitize_text ''hi'' CHAT_BODY_MAX = ''hi''"
    by (simp_all add: chat_sizes char_class_defs)
  then show ?thesis
    by (simp add: chat_room_post_def demo_hx_def demo_init demo_tables_def chat_db_insert_message_def notify_room_def
          del: sanitize_user.simps sanitize_text.simps)
qed

lemma demo_msg_text:
  "msg_text \<lparr>cm_id = 1, cm_user = ''bob'', cm_ts = 1000, cm_body = ''hi''\<rparr> =
   ''{\"id\":1,\"user\":\"bob\",\"ts\":1000,\"body\":\"hi\"}''"
proof -
  have "show_long 1 = ''1''" "show_long 1000 = ''1000''" by code_simp+
  moreover have "json_escape ''bob'' 64 = ''bob''" "json_escape ''hi'' 1024 = ''hi''"
    by (rule json_escape_word; simp add: char_class_defs)+
  ultimately show ?thesis by (simp add: msg_text_def chat_sizes)
qed

theorem sse_notify_batch_witness:
  "\<exists>hx2. sse_turn ref_sqlite 0 None demo_post_turn 0 demo_hx = Sse_go 1 hx2
     \<and> conn_sent (hx_c hx2) = ''data: {\"id\":1,\"user\":\"bob\",\"ts\":1000,\"body\":\"hi\"}'' @ [LF, LF]"
proof -
  let ?hx' = "ht_env demo_post_turn demo_hx" and ?m = "\<lparr>cm_id = 1, cm_user = ''bob'', cm_ts = 1000, cm_body = ''hi''\<rparr>"
  have c: "hx_c ?hx' = demo_conn" by (simp add: demo_post_turn_def demo_hx_def)
  have log: "newer 0 (wlog (\<lambda>t. t) (hx_w ?hx') (r_id (room_at (hx_w ?hx') 0))) = [?m]"
    by (simp add: demo_post_turn_def demo_posted) (simp add: demo_hx_def demo_init db_log_def to_msg_def newer_def chat_sizes)
  have inv: "app_inv (\<lambda>t. t) (hx_w ?hx')"
    using demo_http.post_app_inv [OF demo_hx_ok(1)] by (simp add: demo_post_turn_def)
  from sse_notify_batch [OF ref_engine.sqlite_chat_axioms ref_readable refl inv, of False 0 "[?m]" 0 0 None]
  obtain hx2 where "sse_turn ref_sqlite 0 None demo_post_turn 0 demo_hx = Sse_go (advance 0 [?m]) hx2"
    "conn_sent (hx_c hx2) = conn_sent demo_conn @ sse_frame (Sse_data (msg_text ?m))"
    using log by (auto simp: c demo_conn_def demo_hx_def open_conn_def demo_post_turn_def)
  then show ?thesis
    by (intro exI [of _ hx2]) (simp add: advance_def demo_msg_text demo_conn_def conn_sent_def)
qed

end
