(* ===== verification/Http_Api.thy ===== *)
theory Http_Api
  imports Http_Stream
begin

text \<open>
  The HTTP interface from end to end: a connection gets exactly one answer, a posted
  message is the message that is stored, a page of messages is the page asked for, and
  only the two front-end files are ever opened.
\<close>

section \<open>One answer\<close>

text \<open>C13: An HTTP connection gets at most one answer, and exactly one when a whole request was
  read: one response with its stated length or one event stream of well-formed frames, whatever
  the request says and whatever the other threads do; what was sent is never two answers in a
  row. When the connection ends it is out of the
  registry, its pipe is closed, no room lists its descriptor, its socket was shut down and closed,
  and no response buffer was ever overrun.\<close>

theorem http_one_answer:
  assumes "http_world sq tables env"
    and "http_run_session (http_dispatch sq env) self buf0 evs drain rg hx = Some (rg', hx')"
    and "app_inv tables (hx_w hx)" and "sub_only (hc_notify_wfd (hx_c hx)) None (hx_w hx)"
    and "open_conn (hx_c hx)" and "\<not> hc_overread (hx_c hx)"
  shows "\<exists>c tot req out.
      read_request evs ((hx_c hx)\<lparr>hc_shutdown_requested := hc_shutdown_requested (hx_c hx)
        \<or> rg_stop (Http_Session.session_register self rg) self\<rparr>) buf0 0 no_request = Some (c, tot, req)
    \<and> conn_sent (hx_c hx') = conn_sent (hx_c hx) @ out \<and> (if 0 < tot then one_answer out else out = [] \<or> one_answer out)
    \<and> \<not> (\<exists>a b. one_answer a \<and> one_answer b \<and> out = a @ b)
    \<and> rg_head rg' = rg_head rg \<and> sub_only (hc_notify_wfd (hx_c hx)) None (hx_w hx')
    \<and> (0 \<le> hc_notify_wfd (hx_c hx) \<longrightarrow> w_pipes (hx_w hx') (hc_notify_wfd (hx_c hx)) = None)
    \<and> sk_shut (hc_sock (hx_c hx')) \<and> sk_closed (hc_sock (hx_c hx')) \<and> \<not> hc_overread (hx_c hx')"
proof -
  from http_app.run_once [OF http_world.router_contract [OF assms(1)] assms(2-6)] obtain c tot req out where
    o: "read_request evs ((hx_c hx)\<lparr>hc_shutdown_requested := hc_shutdown_requested (hx_c hx)
        \<or> rg_stop (Http_Session.session_register self rg) self\<rparr>) buf0 0 no_request = Some (c, tot, req)"
    "conn_sent (hx_c hx') = conn_sent (hx_c hx) @ out" "out = [] \<or> one_answer out" "0 < tot \<longrightarrow> one_answer out"
    and rest: "hc_notify_wfd (hx_c hx') = hc_notify_wfd (hx_c hx)" "rg_head rg' = rg_head rg"
      "sub_only (hc_notify_wfd (hx_c hx')) None (hx_w hx')"
      "0 \<le> hc_notify_wfd (hx_c hx') \<longrightarrow> w_pipes (hx_w hx') (hc_notify_wfd (hx_c hx')) = None"
      "sk_shut (hc_sock (hx_c hx'))" "sk_closed (hc_sock (hx_c hx'))" "\<not> hc_overread (hx_c hx')"
    by metis
  have "\<not> (\<exists>a b. one_answer a \<and> one_answer b \<and> out = a @ b)" using no_two_answers [OF o(3)] by blast
  with o rest show ?thesis by (intro exI conjI) auto
qed

section \<open>Posting\<close>

text \<open>The JSON text the web client sends.\<close>

definition post_json :: "string \<Rightarrow> string \<Rightarrow> string" where
  "post_json u b = ''{\"user\":\"'' @ escaped u @ ''\",\"body\":\"'' @ escaped b @ ''\"}''"

lemma memmem_skip:
  "x \<noteq> hd pat \<Longrightarrow> pat \<noteq> [] \<Longrightarrow> memmem (x # xs) pat = map_option Suc (memmem xs pat)"
  by (cases pat) auto

lemma memmem_skip_all:
  assumes "pat \<noteq> []" "hd pat \<notin> set pre"
  shows "memmem (pre @ s) pat = map_option (\<lambda>i. i + length pre) (memmem s pat)"
  using assms(2)
proof (induction pre)
  case Nil
  then show ?case by (simp add: option.map_ident)
next
  case (Cons x pre)
  then have "memmem ((x # pre) @ s) pat = map_option Suc (memmem (pre @ s) pat)"
    using assms(1) memmem_skip [of x pat "pre @ s"] by auto
  with Cons show ?case by (simp add: option.map_comp comp_def)
qed

lemma find_user: "memmem (post_json u b) ''\"user\"'' = Some 1"
  by (simp add: post_json_def)

lemma word_no_quote: "list_all is_word_char u \<Longrightarrow> DQ \<notin> set u"
  by (auto simp: list_all_iff char_class_defs)

lemma escaped_word: "list_all is_word_char u \<Longrightarrow> escaped u = u"
  by (induction u) (simp_all add: escape_word_char)

lemma find_body:
  assumes u: "list_all is_word_char u" "u \<noteq> ''body''"
  shows "memmem (post_json u b) ''\"body\"'' = Some (11 + length u)"
proof -
  let ?pat = "''\"body\"''" and ?rest = "DQ # CHR '','' # ''\"body\"'' @ ''::''"
  have "take (length ?pat) (DQ # u @ DQ # t) \<noteq> ?pat" for t
  proof
    assume "take (length ?pat) (DQ # u @ DQ # t) = ?pat"
    then have sw: "starts_with (''body'' @ [DQ]) (u @ DQ # t)"
      by (simp add: starts_with_def numeral_eq_Suc)
    obtain r where r: "u @ DQ # t = ''body'' @ DQ # r" using starts_with_drop [OF sw] by auto
    then have "length u = length ''body''"
      using memchr_split [OF word_no_quote [OF u(1)], of t] memchr_split [of DQ "''body''" r] by simp
    with r have "u = ''body''" by (metis append_eq_append_conv)
    with u(2) show False by simp
  qed
  then have q: "memmem (DQ # u @ DQ # t) ?pat = map_option Suc (memmem (u @ DQ # t) ?pat)" for t by simp
  have un: "memmem (u @ s) ?pat = map_option (\<lambda>i. i + length u) (memmem s ?pat)" for s
    using memmem_skip_all [of ?pat u s] word_no_quote [OF u(1)] by simp
  have tail: "memmem (DQ # CHR '','' # ''\"body\"'' @ t) ?pat = Some 2" for t by simp
  have hd: "memmem (''{\"user\":'' @ s) ?pat = map_option (\<lambda>i. i + 8) (memmem s ?pat)" for s
    by (cases "memmem s ?pat") simp_all
  let ?t = "CHR '','' # ''\"body\"'' @ '':\"'' @ escaped b @ ''\"}''"
  have "post_json u b = ''{\"user\":'' @ DQ # u @ DQ # ?t"
    by (simp add: post_json_def escaped_word [OF u(1)])
  then have "memmem (post_json u b) ?pat = map_option (\<lambda>i. i + 8) (memmem (DQ # u @ DQ # ?t) ?pat)"
    by (simp only: hd)
  also have "\<dots> = Some (11 + length u)"
    unfolding q un tail by simp
  finally show ?thesis .
qed

lemma json_get_user:
  assumes "list_all scannable u"
  shows "json_get_string (post_json u b) ''user'' sz = Some (take (sz - 1) u)"
  using scan_escaped [OF assms, of "'',\"body\":\"'' @ escaped b @ ''\"}''" sz] find_user [of u b]
  by (simp add: json_get_string_def snprintf_def) (simp add: post_json_def)

lemma json_get_body:
  assumes "list_all is_word_char u" "u \<noteq> ''body''" "list_all scannable b"
  shows "json_get_string (post_json u b) ''body'' sz = Some (take (sz - 1) b)"
proof -
  let ?pre = "''{\"user\":\"'' @ u @ ''\",\"body\"''"
  have "post_json u b = ?pre @ '':\"'' @ escaped b @ ''\"}''" "length ?pre = 11 + length u + 6"
    by (simp_all add: post_json_def escaped_word [OF assms(1)])
  then have "drop (11 + length u + 6) (post_json u b) = '':\"'' @ escaped b @ ''\"}''" by (metis append_eq_conv_conj)
  with find_body [OF assms(1,2), of b] scan_escaped [OF assms(3), of "''}''" sz] show ?thesis
    by (simp add: json_get_string_def snprintf_def)
qed

lemma printable_scannable: "is_printable c \<Longrightarrow> scannable c"
  by (simp add: is_printable_def scannable_def)

definition room_path :: "nat \<Rightarrow> string \<Rightarrow> string" where
  "room_path n sub = ''/api/rooms/'' @ show_nat n @ ''/'' @ sub"

lemma match_room_path:
  assumes "int n \<le> LONG_MAX"
  shows "match_room_sub (room_path n sub) = Some (int n, sub)"
proof -
  have "strtol (show_nat n @ CHR ''/'' # sub) = (int n, CHR ''/'' # sub)"
    using strtol_show_nat [OF assms, of "CHR ''/'' # sub"] by (simp add: is_digit_def)
  then show ?thesis by (simp add: match_room_sub_def room_path_def starts_with_def)
qed

lemma room_path_fixed: "room_path n sub \<notin> {''/'', ''/index.html'', ''/app.js'', ''/api/health'', ''/api/rooms''}"
  by (simp add: room_path_def)

lemma nul_free_room_path: "nul_free sub \<Longrightarrow> cstr (room_path n sub) = room_path n sub"
  by (rule cstr_nul_free) (simp add: room_path_def)

text \<open>A request for a room of a running service reaches the handler of the room.\<close>

lemma dispatch_to_room:
  assumes "w_once (hx_w hx)" "find_room (w_rooms (hx_w hx)) (int n) 0 = Some i" "int n \<le> LONG_MAX"
    and "rq_path req = room_path n ''messages''"
  shows "rq_method req = HTTP_M_GET \<Longrightarrow> http_dispatch sq env hx req = Some (handle_messages_get sq (he_mem env) i req hx)"
    and "rq_method req = HTTP_M_POST \<Longrightarrow> http_dispatch sq env hx req = Some (handle_messages_post sq i req hx)"
proof -
  have c: "cstr (rq_path req) = room_path n ''messages''" using assms(4) nul_free_room_path by simp
  have "chat_service_init sq (hx_w hx) = hx_w hx" using assms(1) by (simp add: chat_service_init_def)
  then have "chat_room_by_id sq (hx_w hx) (int n) = (hx_w hx, Some i)"
    using assms(2) by (simp add: chat_room_by_id_def)
  then have "dispatch_room sq env req (int n) ''messages'' hx =
      (if rq_method req = HTTP_M_GET then Some (handle_messages_get sq (he_mem env) i req hx)
       else if rq_method req = HTTP_M_POST then Some (handle_messages_post sq i req hx)
       else Some (with_conn (http_respond_text 405 (''Method Not Allowed'' @ [LF])) hx))"
    by (simp add: dispatch_room_def)
  then have "http_dispatch sq env hx req =
      (if rq_method req = HTTP_M_GET then Some (handle_messages_get sq (he_mem env) i req hx)
       else if rq_method req = HTTP_M_POST then Some (handle_messages_post sq i req hx)
       else Some (with_conn (http_respond_text 405 (''Method Not Allowed'' @ [LF])) hx))"
    using c match_room_path [OF assms(3), of "''messages''"] room_path_fixed [of n "''messages''"]
    by (simp add: http_dispatch_def Let_def)
  then show "rq_method req = HTTP_M_GET \<Longrightarrow> http_dispatch sq env hx req = Some (handle_messages_get sq (he_mem env) i req hx)"
    "rq_method req = HTTP_M_POST \<Longrightarrow> http_dispatch sq env hx req = Some (handle_messages_post sq i req hx)"
    by simp_all
qed

lemma respond_json_sent:
  assumes "plain_status status" "nul_free str" "length str < 10 ^ 20" "open_conn c"
  shows "conn_sent (http_respond_json status str c) = conn_sent c @ response_text status ''application/json'' str"
  using http_respond_facts(4) [of status "''application/json''" str c] assms by (simp add: http_respond_json_def)

text \<open>The request the web client sends to post, and what the server makes of it.\<close>

definition post_request :: "nat \<Rightarrow> string \<Rightarrow> string \<Rightarrow> http_request \<Rightarrow> bool" where
  "post_request n u b req \<longleftrightarrow> rq_method req = HTTP_M_POST \<and> rq_path req = room_path n ''messages''
     \<and> take (rq_body_len req) (rq_body req) = post_json u b
     \<and> list_all is_word_char u \<and> u \<noteq> [] \<and> length u < CHAT_USER_MAX \<and> u \<noteq> ''body''
     \<and> list_all is_printable b \<and> b \<noteq> [] \<and> length b < CHAT_BODY_MAX"

lemma post_dispatch:
  assumes "w_once (hx_w hx)" "find_room (w_rooms (hx_w hx)) (int n) 0 = Some i" "int n \<le> LONG_MAX" "post_request n u b req"
    and p: "chat_room_post sq (hx_w hx) i u b = (w, mid)"
  shows "http_dispatch sq env hx req = Some (with_conn (if mid < 0
      then http_respond_json 400 ''{\"error\":\"invalid message\"}''
      else http_respond_json 201 (fst (snprintf 64 (''{\"id\":'' @ show_long mid @ ''}'')))) (hx\<lparr>hx_w := w\<rparr>))"
    and "sanitize_user u CHAT_USER_MAX = u" "sanitize_text b CHAT_BODY_MAX = b"
proof -
  note r = assms(4) [unfolded post_request_def]
  have scan: "list_all scannable u" "list_all scannable b"
    using r by (auto simp: list_all_iff intro: printable_scannable word_char_printable)
  have get: "json_get_string (post_json u b) ''user'' CHAT_USER_MAX = Some u"
    "json_get_string (post_json u b) ''body'' CHAT_BODY_MAX = Some b"
    using json_get_user [OF scan(1)] json_get_body [OF _ _ scan(2), of u] r by auto
  have nf: "nul_free u" "nul_free b"
    using r word_char_printable by (simp_all add: list_all_iff nul_free_printable)
  show "http_dispatch sq env hx req = Some (with_conn (if mid < 0
      then http_respond_json 400 ''{\"error\":\"invalid message\"}''
      else http_respond_json 201 (fst (snprintf 64 (''{\"id\":'' @ show_long mid @ ''}'')))) (hx\<lparr>hx_w := w\<rparr>))"
    using dispatch_to_room(2) [OF assms(1-3), of req sq env] r get nf p by (simp add: handle_messages_post_def Let_def)
  show "sanitize_user u CHAT_USER_MAX = u" "sanitize_text b CHAT_BODY_MAX = b"
    using r by (auto simp: list_all_iff intro: sanitize_user_id sanitize_text_id)
qed

text \<open>C24: Posting over HTTP stores what the client sent. For every user name of 1 to 31 letters,
  digits and underscores other than \<^verbatim>\<open>body\<close>, and every text of 1 to 511 printable
  characters, a POST of the JSON the web client builds makes the post of exactly that
  name and text: it is appended to the log of the room alone and the client gets 201
  with its id, or, when the store refuses, the log is unchanged and the client gets 400.\<close>

theorem http_post_stores:
  assumes "sqlite_chat sq tables" and "db_wf tables (w_db (hx_w hx))" and "w_once (hx_w hx)"
    and "find_room (w_rooms (hx_w hx)) (int n) 0 = Some i" and "int n \<le> LONG_MAX"
    and "rq_method req = HTTP_M_POST" and "rq_path req = room_path n ''messages''"
    and "take (rq_body_len req) (rq_body req) = post_json u b"
    and "list_all is_word_char u" and "u \<noteq> []" and "length u < CHAT_USER_MAX" and "u \<noteq> ''body''"
    and "list_all is_printable b" and "b \<noteq> []" and "length b < CHAT_BODY_MAX"
    and "open_conn (hx_c hx)"
  shows "\<exists>mid hx'. http_dispatch sq env hx req = Some hx'
     \<and> (if mid < 0
        then wlog tables (hx_w hx') = wlog tables (hx_w hx) \<and> conn_sent (hx_c hx') = conn_sent (hx_c hx)
               @ response_text 400 ''application/json'' ''{\"error\":\"invalid message\"}''
        else wlog tables (hx_w hx') = (wlog tables (hx_w hx))(int n := wlog tables (hx_w hx) (int n)
               @ [\<lparr>cm_id = mid, cm_user = u, cm_ts = w_now (hx_w hx), cm_body = b\<rparr>])
           \<and> conn_sent (hx_c hx') = conn_sent (hx_c hx)
               @ response_text 201 ''application/json'' (''{\"id\":'' @ show_long mid @ ''}''))"
proof -
  obtain w mid where p: "chat_room_post sq (hx_w hx) i u b = (w, mid)" by fastforce
  have "post_request n u b req" using assms(6-15) by (simp add: post_request_def)
  note d = post_dispatch [OF assms(3-5) this p]
  have room: "r_id (room_at (hx_w hx) i) = int n" using find_room_Some [OF assms(4)] by simp
  have j: "fst (snprintf 64 (''{\"id\":'' @ show_long mid @ ''}'')) = ''{\"id\":'' @ show_long mid @ ''}''"
    using length_show_long [of mid] by (simp add: snprintf_def)
  have "length (''{\"id\":'' @ show_long mid @ ''}'') < 10 ^ 20" using length_show_long [of mid] by simp
  note sent = respond_json_sent [of 201 _ "hx_c hx", OF _ _ this assms(16)]
    respond_json_sent [of 400 "''{\"error\":\"invalid message\"}''" "hx_c hx", OF _ _ _ assms(16)]
  show ?thesis
    unfolding d(1) using post_store(2,3) [OF assms(1,2) p] sent j d(2,3) room
    by (intro exI [of _ mid]) (auto simp: with_conn_def plain_status_def posted_def)
qed

text \<open>A user named \<^verbatim>\<open>body\<close> cannot post: the scanner takes the first quoted \<^verbatim>\<open>body\<close> of the
  request, which is the value of the user name, for the key, finds no string after it,
  and every such message is refused with 400 and not stored.\<close>

theorem user_named_body_refused:
  assumes "w_once (hx_w hx)" and "find_room (w_rooms (hx_w hx)) (int n) 0 = Some i" and "int n \<le> LONG_MAX"
    and "rq_method req = HTTP_M_POST" and "rq_path req = room_path n ''messages''"
    and "take (rq_body_len req) (rq_body req) = post_json ''body'' b"
  shows "http_dispatch sq env hx req =
    Some (with_conn (http_respond_json 400 ''{\"error\":\"user and body required\"}'') hx)"
proof -
  have "escaped ''body'' = ''body''" by (rule escaped_word) (simp add: char_class_defs)
  then have "post_json ''body'' b = ''{\"user\":\"body\",\"body\":\"'' @ escaped b @ ''\"}''"
    by (simp add: post_json_def)
  then have "json_get_string (post_json ''body'' b) ''body'' CHAT_BODY_MAX = None"
    by (simp add: json_get_string_def snprintf_def)
  then show ?thesis
    unfolding dispatch_to_room(2) [OF assms(1-3,5,4)] using assms(6)
    by (simp add: handle_messages_post_def Let_def)
qed

section \<open>Reading\<close>

lemma query_limit_range: "1 \<le> query_limit req \<and> query_limit req \<le> 100"
  by (simp add: query_limit_def clamp_limit_def Let_def)

text \<open>A page of messages is the oldest ones: GET answers 200 with the JSON array of the first
  \<^verbatim>\<open>limit\<close> messages of the room with an id above \<^verbatim>\<open>since\<close>, in the order of their ids, where
  \<^verbatim>\<open>limit\<close> is brought into 1 to 100; also for \<^verbatim>\<open>since=0\<close> it starts at the oldest message.\<close>

theorem messages_get_oldest:
  assumes "sqlite_chat sq tables" and "\<And>s. db_readable sq s" and "app_inv tables (hx_w hx)" and "w_once (hx_w hx)"
    and "find_room (w_rooms (hx_w hx)) (int n) 0 = Some i" and "int n \<le> LONG_MAX"
    and "rq_method req = HTTP_M_GET" and "rq_path req = room_path n ''messages''"
    and "he_mem env" and "open_conn (hx_c hx)"
  shows "\<exists>hx'. http_dispatch sq env hx req = Some hx' \<and> hx_w hx' = hx_w hx
     \<and> conn_sent (hx_c hx') = conn_sent (hx_c hx) @ response_text 200 ''application/json''
         (json_array (map msg_text (take (nat (query_limit req)) (newer (query_since req) (wlog tables (hx_w hx) (int n))))))"
proof -
  let ?ms = "chat_room_since sq (hx_w hx) i (query_since req) (query_limit req) 100"
  have wf: "db_wf tables (w_db (hx_w hx))" using assms(3) by (simp add: app_inv_def service_inv_def)
  have room: "r_id (room_at (hx_w hx) i) = int n" using find_room_Some [OF assms(5)] by simp
  have ms: "?ms = take (nat (query_limit req)) (newer (query_since req) (wlog tables (hx_w hx) (int n)))"
    using sqlite_chat.db_since_eq [OF assms(1) wf assms(2), of "query_limit req" 100] query_limit_range [of req]
    by (simp add: chat_room_since_def newer_def room)
  have clean: "\<forall>m \<in> set ?ms. clean_msg m" using since_clean [OF assms(1,3)] by blast
  note g = handle_messages_get_eq [OF refl clean]
  have "length ?ms \<le> 100" using query_limit_range [of req] by (simp add: ms min_le_iff_disj nat_le_iff)
  then have len: "length (json_array (map msg_text ?ms)) < 10 ^ 20" using g(2) by simp
  have "nul_free (commas (map msg_text xs))" for xs
    by (induction xs rule: induct_list012) simp_all
  then have "nul_free (json_array (map msg_text ?ms))" by (simp add: json_array_def)
  from respond_json_sent [OF _ this len assms(10), of 200] show ?thesis
    unfolding dispatch_to_room(1) [OF assms(4-6,8,7)] using g(1) assms(9)
    by (simp add: with_conn_def plain_status_def ms)
qed

section \<open>JSON\<close>

text \<open>C38: The scanner reads back what the escaper wrote, for text without NUL whose control
  characters are among line feed, carriage return and tab (any other control character is
  written as a \<^verbatim>\<open>u00XX\<close> escape, of which the scanner drops the backslash only). The escaper writes a prefix of its
  input, all of it when the escaped text leaves 7 bytes of its buffer free, and scanning
  the result up to the closing quote gives that prefix, cut to the scanner's own buffer.\<close>

theorem json_roundtrip:
  assumes "nul_free s" and "list_all scannable s"
  shows "\<exists>n. json_escape s sz = escaped (take n s)
     \<and> (length (escaped s) + 7 \<le> sz \<longrightarrow> length s \<le> n)
     \<and> scan_string (json_escape s sz @ DQ # rest) k = take (k - 1) (take n s)"
proof (cases "length (escaped s) + 7 \<le> sz")
  case True
  with json_escape_all [OF assms(1)] scan_escaped [OF assms(2), of rest k] show ?thesis
    by (intro exI [of _ "length s"]) simp
next
  case False
  obtain n where n: "json_escape s sz = escaped (take n s)"
    using escape_from_prefix [of s 0 sz] by (auto simp: json_escape_def)
  have "list_all scannable (take n s)" using assms(2) by (auto simp: list_all_iff dest: in_set_takeD)
  with n False scan_escaped [of "take n s" rest k] show ?thesis by (intro exI [of _ n]) simp
qed

text \<open>The JSON of a message can lose the end of its body: the buffer is twice the size of the
  body, but the escaper stops 7 bytes before its end, so a body of 511 double quotes is
  delivered as 509.\<close>

theorem json_body_truncated:
  "json_escape (replicate 511 DQ) (CHAT_BODY_MAX * 2) = escaped (replicate 509 DQ)"
proof -
  have "escape_from (replicate m DQ) (2 * j) 1024 = escaped (replicate (min m (509 - j)) DQ)" for m j
  proof (induction m arbitrary: j)
    case (Suc m)
    show ?case
    proof (cases "509 - j")
      case (Suc d)
      then have "508 - j = d" "2 * j < 1017" by arith+
      with Suc Suc.IH [of "Suc j"] show ?thesis by (simp add: escape_char_def)
    qed (auto simp: escape_char_def)
  qed simp
  from this [of 511 0] show ?thesis by (simp add: json_escape_def chat_sizes)
qed

section \<open>Static files\<close>

definition static_path :: "'db henv \<Rightarrow> string \<Rightarrow> string" where
  "static_path env fname = fst (snprintf 512 ((case he_webroot env of None \<Rightarrow> ''web''
     | Some r \<Rightarrow> if r = [] then ''web'' else r) @ ''/'' @ fname))"

text \<open>No request reaches another file: what the server does depends on the file system only
  through the two files of the front end in the web root, whatever the path of the
  request.\<close>

theorem static_files_only:
  assumes "he_open env (static_path env ''index.html'') = files (static_path env ''index.html'')"
    and "he_open env (static_path env ''app.js'') = files (static_path env ''app.js'')"
  shows "http_dispatch sq (env\<lparr>he_open := files\<rparr>) hx req = http_dispatch sq env hx req"
proof -
  let ?env = "env\<lparr>he_open := files\<rparr>"
  have "serve_static ?env f ctype = serve_static env f ctype"
    if "he_open env (static_path env f) = files (static_path env f)" for f ctype
    using that by (intro ext) (simp add: serve_static_def static_path_def Let_def split: option.split)
  note static = this [OF assms(1)] this [OF assms(2)]
  have events: "dispatch_events sq ?env = dispatch_events sq env"
    by (intro ext) (simp add: dispatch_events_def Let_def split: prod.split option.split)
  have "dispatch_room sq ?env = dispatch_room sq env"
    by (intro ext) (auto simp: dispatch_room_def events Let_def split: prod.split option.split)
  then show ?thesis by (simp only: http_dispatch_def static events)
qed

section \<open>Examples\<close>

definition demo_buf :: string where
  "demo_buf = replicate HTTP_RECV_MAX (CHR ''?'')"

lemma demo_health_read:
  "read_request [Read_data (request_head HTTP_M_GET ''/api/health'' None None True [] True)] c demo_buf 0 no_request =
   Some (c, int (length (request_head HTTP_M_GET ''/api/health'' None None True [] True)), request_of HTTP_M_GET ''/api/health'' None [] [] [])"
proof -
  let ?text = "request_head HTTP_M_GET ''/api/health'' None None True [] True"
  have "sendable HTTP_M_GET ''/api/health'' None None [] []"
    by (simp add: sendable_def query_ok_def token_ok_def hdr_length_def HTTP_PATH_MAX_def)
  moreover have "?text = ?text @ []" by simp
  moreover have "0 < length ?text" "length ?text \<le> length demo_buf"
    by (simp_all add: request_head_def request_line_def target_text_def eol_def demo_buf_def HTTP_RECV_MAX_def
        url_encode_def url_plain_def char_class_defs)
  ultimately have "read_step (Read_data ?text) c demo_buf 0 no_request =
      Read_stop c (int (length ?text)) (request_of HTTP_M_GET ''/api/health'' None [] [] [])"
    using read_step_fragment [of HTTP_M_GET "''/api/health''" None None "[]" "[]" ?text True True 0 demo_buf ?text "[]" c no_request]
    by simp
  then show ?thesis by simp
qed

theorem http_one_answer_witness:
  "\<exists>rg' hx'. http_run_session (http_dispatch ref_sqlite demo_env) 7 demo_buf
      [Read_data (request_head HTTP_M_GET ''/api/health'' None None True [] True)] [] demo_reg demo_hx = Some (rg', hx')
    \<and> one_answer (conn_sent (hx_c hx')) \<and> sk_shut (hc_sock (hx_c hx'))"
proof -
  let ?evs = "[Read_data (request_head HTTP_M_GET ''/api/health'' None None True [] True)]"
  let ?run = "http_run_session (http_dispatch ref_sqlite demo_env) 7 demo_buf ?evs [] demo_reg demo_hx"
  have pos: "0 < length (request_head HTTP_M_GET ''/api/health'' None None True [] True)"
    by (simp add: request_head_def request_line_def)
  have "http_dispatch ref_sqlite demo_env hx (request_of HTTP_M_GET ''/api/health'' None [] [] []) =
      Some (with_conn (http_respond_json 200 ''{\"status\":\"ok\"}'') hx)" for hx
    by (simp add: http_dispatch_def request_of_def)
  with demo_health_read pos obtain rg' hx' where run: "?run = Some (rg', hx')"
    by (simp add: http_run_session_def Let_def split: if_splits)
  have c: "hc_notify_wfd (hx_c demo_hx) = 7" "\<not> hc_overread (hx_c demo_hx)" "conn_sent (hx_c demo_hx) = []"
    by (simp_all add: demo_hx_def demo_conn_def conn_sent_def)
  have "sub_only (hc_notify_wfd (hx_c demo_hx)) None (hx_w demo_hx)" using demo_hx_ok(6) c(1) by simp
  from http_one_answer [OF demo_http.http_world_axioms run demo_hx_ok(1) this demo_hx_ok(4) c(2)] pos
  have "one_answer (conn_sent (hx_c hx')) \<and> sk_shut (hc_sock (hx_c hx'))"
    by (auto simp: demo_health_read c(3) simp del: read_request.simps)
  with run show ?thesis by blast
qed

definition demo_post :: http_request where
  "demo_post = no_request\<lparr>rq_method := HTTP_M_POST, rq_path := room_path 1 ''messages'',
     rq_body := post_json ''bob'' ''hi'', rq_body_len := length (post_json ''bob'' ''hi'')\<rparr>"

lemma demo_find: "find_room (w_rooms (hx_w demo_hx)) (int 1) 0 = Some 0"
  by (simp add: demo_hx_def demo_init)

theorem http_post_stores_witness:
  "\<exists>hx'. http_dispatch ref_sqlite demo_env demo_hx demo_post = Some hx'
     \<and> wlog (\<lambda>t. t) (hx_w hx') 1 = [\<lparr>cm_id = 1, cm_user = ''bob'', cm_ts = 1000, cm_body = ''hi''\<rparr>]"
proof -
  have wf: "db_wf (\<lambda>t. t) (w_db (hx_w demo_hx))" using demo_hx_ok(1) by (simp add: app_inv_def service_inv_def)
  have req: "rq_method demo_post = HTTP_M_POST" "rq_path demo_post = room_path 1 ''messages''"
    "take (rq_body_len demo_post) (rq_body demo_post) = post_json ''bob'' ''hi''" by (simp_all add: demo_post_def)
  have ok: "list_all is_word_char ''bob''" "list_all is_printable ''hi''" "int 1 \<le> LONG_MAX"
    "length ''bob'' < CHAT_USER_MAX" "length ''hi'' < CHAT_BODY_MAX"
    by (simp_all add: char_class_defs LONG_MAX_def chat_sizes)
  obtain mid hx' where d: "http_dispatch ref_sqlite demo_env demo_hx demo_post = Some hx'"
    and r: "if mid < 0 then wlog (\<lambda>t. t) (hx_w hx') = wlog (\<lambda>t. t) (hx_w demo_hx) \<and> conn_sent (hx_c hx') = conn_sent (hx_c demo_hx)
               @ response_text 400 ''application/json'' ''{\"error\":\"invalid message\"}''
      else wlog (\<lambda>t. t) (hx_w hx') = (wlog (\<lambda>t. t) (hx_w demo_hx))(int 1 := wlog (\<lambda>t. t) (hx_w demo_hx) (int 1)
               @ [\<lparr>cm_id = mid, cm_user = ''bob'', cm_ts = w_now (hx_w demo_hx), cm_body = ''hi''\<rparr>])
           \<and> conn_sent (hx_c hx') = conn_sent (hx_c demo_hx)
               @ response_text 201 ''application/json'' (''{\"id\":'' @ show_long mid @ ''}'')"
    using http_post_stores [OF ref_engine.sqlite_chat_axioms wf demo_hx_ok(2) demo_find ok(3) req ok(1) _ ok(4) _ ok(2) _ ok(5)
        demo_hx_ok(4), of demo_env] by auto
  have "http_dispatch ref_sqlite demo_env demo_hx demo_post = Some (handle_messages_post ref_sqlite 0 demo_post demo_hx)"
    by (rule dispatch_to_room(2) [OF demo_hx_ok(2) demo_find ok(3) req(2,1)])
  moreover have "wlog (\<lambda>t. t) (hx_w (handle_messages_post ref_sqlite 0 demo_post demo_hx)) 1 =
      [\<lparr>cm_id = 1, cm_user = ''bob'', cm_ts = 1000, cm_body = ''hi''\<rparr>]"
    using json_get_user [of "''bob''" "''hi''" CHAT_USER_MAX] json_get_body [of "''bob''" "''hi''" CHAT_BODY_MAX] ok req(3) demo_posted
    by (simp add: handle_messages_post_def with_conn_def list_all_iff printable_scannable word_char_printable db_log_def to_msg_def chat_sizes)
  ultimately show ?thesis using d by auto
qed

theorem user_named_body_refused_witness:
  "http_dispatch ref_sqlite demo_env demo_hx (demo_post\<lparr>rq_body := post_json ''body'' ''hi'',
      rq_body_len := length (post_json ''body'' ''hi'')\<rparr>) =
   Some (with_conn (http_respond_json 400 ''{\"error\":\"user and body required\"}'') demo_hx)"
  using user_named_body_refused [OF demo_hx_ok(2) demo_find]
  by (simp add: demo_post_def LONG_MAX_def)

theorem messages_get_oldest_witness:
  "\<exists>hx'. http_dispatch ref_sqlite demo_env demo_hx (no_request\<lparr>rq_path := room_path 1 ''messages''\<rparr>) = Some hx'
     \<and> conn_sent (hx_c hx') = response_text 200 ''application/json'' ''[]''"
proof -
  have "int 1 \<le> LONG_MAX" by (simp add: LONG_MAX_def)
  moreover have "conn_sent (hx_c demo_hx) = []" "wlog (\<lambda>t. t) (hx_w demo_hx) (int 1) = []" "he_mem demo_env"
    by (simp_all add: demo_hx_def demo_conn_def conn_sent_def demo_init db_log_def demo_tables_def demo_env_def)
  ultimately show ?thesis
    using messages_get_oldest [OF ref_engine.sqlite_chat_axioms ref_readable demo_hx_ok(1,2) demo_find _ _ _ _ demo_hx_ok(4),
        of "no_request\<lparr>rq_path := room_path 1 ''messages''\<rparr>" demo_env]
    by (auto simp: no_request_def newer_def json_array_def)
qed

theorem json_roundtrip_witness:
  "\<exists>n. scan_string (json_escape (''say '' @ [DQ, LF]) 64 @ [DQ]) 32 = take 31 (take n (''say '' @ [DQ, LF]))"
  using json_roundtrip [of "''say '' @ [DQ, LF]" 64 "[]" 32] by (auto simp: scannable_def)

theorem static_files_only_witness:
  "http_dispatch ref_sqlite (demo_env\<lparr>he_open := (\<lambda>p. if p = ''/etc/passwd'' then Some (Some 5, ''root:'') else None)\<rparr>) demo_hx
     (no_request\<lparr>rq_path := ''/../../etc/passwd''\<rparr>)
   = http_dispatch ref_sqlite demo_env demo_hx (no_request\<lparr>rq_path := ''/../../etc/passwd''\<rparr>)"
  by (rule static_files_only) (simp_all add: demo_env_def static_path_def snprintf_def)

end
