(* ===== verification/Threads.thy ===== *)
theory Threads
  imports Telnet_Session Http_Api
begin

text \<open>
  The threads of the server share one chat service. This theory closes the gap between a
  session and its environment in the style of rely and guarantee: every operation of a
  telnet session and of an HTTP connection, whatever state it is in, changes the service
  only by \<open>client_step\<close>s of its own descriptor (the guarantee), and any number of
  such steps by other descriptors is an environment step of the session theorems (the
  rely). The theory \<open>System\<close> puts the threads together.
\<close>

section \<open>The rely conditions\<close>

text \<open>The descriptor a session gives to the rooms: the write end of the pipe it was created with.\<close>

definition pipe_wfd :: "(fd \<times> fd) option \<Rightarrow> fd" where
  "pipe_wfd pipe2 = (case pipe2 of None \<Rightarrow> -1 | Some p \<Rightarrow> snd p)"

text \<open>Other clients neither close, reopen nor drain the pipe.\<close>

definition pipe_env :: "fd \<Rightarrow> 'db chat_world \<Rightarrow> 'db chat_world \<Rightarrow> bool" where
  "pipe_env fd w w' \<longleftrightarrow> (fd \<in> dom (w_pipes w) \<longleftrightarrow> fd \<in> dom (w_pipes w'))
     \<and> (pending (w_pipes w) fd \<longrightarrow> pending (w_pipes w') fd)"

lemma pipe_env_refl [simp]: "pipe_env fd w w"
  by (simp add: pipe_env_def)

lemma pipe_env_trans: "pipe_env fd w w1 \<Longrightarrow> pipe_env fd w1 w2 \<Longrightarrow> pipe_env fd w w2"
  by (simp add: pipe_env_def)

lemma pipe_env_same: "w_pipes w' = w_pipes w \<Longrightarrow> pipe_env fd w w'"
  by (simp add: pipe_env_def)

lemma service_pipes [simp]:
  "w_pipes (chat_room_subscribe w i fd) = w_pipes w" "w_pipes (chat_room_unsubscribe w i fd) = w_pipes w"
  "w_pipes (chat_room_presence_set sq w i u) = w_pipes w" "w_pipes (chat_room_presence_clear sq w i u) = w_pipes w"
  "w_pipes (chat_service_init sq w) = w_pipes w"
  by (simp_all add: chat_room_subscribe_def chat_room_unsubscribe_def chat_room_presence_set_def
      chat_room_presence_clear_def chat_service_init_def service_init_once_def Let_def split: prod.split option.split)

lemma client_step_pipe:
  assumes "client_step sq fd' w w'" "fd \<noteq> fd'"
  shows "pipe_env fd w w'"
  using assms(1)
proof cases
  case (cl_post i user body)
  then show ?thesis
    using post_frame(4) [OF surjective_pairing, of sq w i user body] fold_pipe_write_keeps
    by (simp add: pipe_env_def)
next
  case cl_drain
  with assms(2) show ?thesis by (auto simp: pipe_env_def pipe_drain_def pending_def split: option.splits)
qed (simp_all add: pipe_env_same)

lemma client_steps_pipe:
  "(client_step sq fd')\<^sup>*\<^sup>* w w' \<Longrightarrow> fd \<noteq> fd' \<Longrightarrow> pipe_env fd w w'"
  by (induction rule: rtranclp_induct) (auto intro: pipe_env_trans client_step_pipe)

lemma pipe_drain_dom [simp]: "dom (pipe_drain fd ps) = dom ps"
  by (auto simp: pipe_drain_def split: option.splits)

lemma client_steps_dom: "(client_step sq fd)\<^sup>*\<^sup>* w w' \<Longrightarrow> dom (w_pipes w') = dom (w_pipes w)"
proof (induction rule: rtranclp_induct)
  case (step w1 w2)
  from step(2) have "dom (w_pipes w2) = dom (w_pipes w1)"
  proof cases
    case (cl_post i user body)
    then show ?thesis
      using post_frame(4) [OF surjective_pairing, of sq w1 i user body] by simp
  qed simp_all
  with step(3) show ?case by simp
qed simp

text \<open>Nobody damages the store: its invariant stays, the ids of the rooms stay, and the logs
  only grow.\<close>

definition store_env :: "('db \<Rightarrow> chat_tables) \<Rightarrow> 'db chat_world \<Rightarrow> 'db chat_world \<Rightarrow> bool" where
  "store_env tables w w' \<longleftrightarrow> app_inv tables w \<longrightarrow> app_inv tables w'
     \<and> map r_id (w_rooms w) = take (length (w_rooms w)) (map r_id (w_rooms w'))
     \<and> (\<forall>r. \<exists>new. wlog tables w' r = wlog tables w r @ new)"

lemma store_env_refl [simp]: "store_env tables w w"
  by (simp add: store_env_def)

lemma store_env_trans:
  assumes "store_env tables w w1" "store_env tables w1 w2"
  shows "store_env tables w w2"
  unfolding store_env_def
proof (intro impI conjI allI)
  assume inv: "app_inv tables w"
  with assms have 1: "map r_id (w_rooms w) = take (length (w_rooms w)) (map r_id (w_rooms w1))"
    "map r_id (w_rooms w1) = take (length (w_rooms w1)) (map r_id (w_rooms w2))"
    and 2: "\<And>r. \<exists>new. wlog tables w1 r = wlog tables w r @ new" "\<And>r. \<exists>new. wlog tables w2 r = wlog tables w1 r @ new"
    and 3: "app_inv tables w2"
    by (simp_all add: store_env_def)
  show "app_inv tables w2" by (rule 3)
  have "length (w_rooms w) \<le> length (w_rooms w1)" using arg_cong [OF 1(1), of length] by simp
  then show "map r_id (w_rooms w) = take (length (w_rooms w)) (map r_id (w_rooms w2))"
    using 1 by (metis min.absorb1 take_take)
  show "\<exists>new. wlog tables w2 r = wlog tables w r @ new" for r
    using 2(1) [of r] 2(2) [of r] by auto
qed

text \<open>Same rooms, same log.\<close>

lemma store_envI:
  assumes "app_inv tables w \<Longrightarrow> app_inv tables w'" "map r_id (w_rooms w') = map r_id (w_rooms w)"
    "\<And>r. app_inv tables w \<Longrightarrow> \<exists>new. wlog tables w' r = wlog tables w r @ new"
  shows "store_env tables w w'"
proof -
  have "length (w_rooms w') = length (w_rooms w)" using arg_cong [OF assms(2), of length] by simp
  with assms show ?thesis by (simp add: store_env_def)
qed

lemma update_subs_ids [simp]: "map r_id (w_rooms (update_subs f i w)) = map r_id (w_rooms w)"
proof (cases "i < length (w_rooms w)")
  case True
  then show ?thesis by (simp add: update_subs_def map_update) (metis list_update_id nth_map)
qed (simp add: update_subs_out)

lemma update_subs_log [simp]: "wlog tables (update_subs f i w) = wlog tables w"
  by simp

lemma app_inv_update_subs:
  assumes "app_inv tables w"
    and "\<And>fds. length fds \<le> CHAT_MAX_SUBSCRIBERS \<Longrightarrow> length (f fds) \<le> CHAT_MAX_SUBSCRIBERS"
  shows "app_inv tables (update_subs f i w)"
proof (cases "i < length (w_rooms w)")
  case True
  then have "w_rooms w \<noteq> []" by auto
  with True assms service_inv_update_subs [OF _ True assms(2)] show ?thesis by (auto simp: app_inv_def)
qed (simp add: update_subs_out assms(1))

lemma app_inv_subs:
  "app_inv tables w \<Longrightarrow> app_inv tables (chat_room_subscribe w i fd)"
  "app_inv tables w \<Longrightarrow> app_inv tables (chat_room_unsubscribe w i fd)"
  unfolding chat_room_subscribe_def chat_room_unsubscribe_def
  by (auto intro!: app_inv_update_subs length_sub_add order.trans [OF length_sub_remove])

context sqlite_chat
begin

lemma init_log_grows: "\<exists>new. wlog tables (chat_service_init sq w) r = wlog tables w r @ new"
proof (cases "w_db w")
  case None
  then show ?thesis by (simp add: db_log_def)
next
  case (Some db)
  have "w_db (chat_service_init sq w) = w_db w"
    by (simp add: chat_service_init_def service_init_once_def chat_db_init_def Some Let_def split: prod.split option.split)
  then show ?thesis by simp
qed

lemma init_store_env:
  assumes "opened_ok sq tables"
  shows "store_env tables w (chat_service_init sq w)"
proof (cases "w_once w")
  case False
  then have "w_rooms w = []" if "app_inv tables w" using that by (simp add: app_inv_def)
  moreover have "app_inv tables (chat_service_init sq w)" if "app_inv tables w"
    using service_inv_init [OF assms] that by (simp add: app_inv_def init_once)
  ultimately show ?thesis using init_log_grows by (simp add: store_env_def)
qed (simp add: chat_service_init_def)

lemma post_store_env: "store_env tables w (fst (chat_room_post sq w i user body))"
proof -
  have "others_step tables \<lparr>hx_c = c, hx_w = w\<rparr> (\<lparr>hx_c = c, hx_w = fst (chat_room_post sq w i user body)\<rparr>)" for c
    using others_post [OF sqlite_chat_axioms, of "\<lparr>hx_c = c, hx_w = w\<rparr>" i user body] by simp
  then show ?thesis by (auto simp: others_step_def store_env_def)
qed

lemma client_step_store:
  assumes "opened_ok sq tables" "client_step sq fd w w'"
  shows "store_env tables w w'"
  using assms(2)
proof cases
  case (cl_subscribe i)
  then show ?thesis
    using app_inv_subs(1) [of tables w i fd] by (intro store_envI) (simp_all add: chat_room_subscribe_def)
next
  case (cl_unsubscribe i)
  then show ?thesis
    using app_inv_subs(2) [of tables w i fd] by (intro store_envI) (simp_all add: chat_room_unsubscribe_def)
next
  case (cl_presence_set i user)
  then show ?thesis using presence_app_inv(1)
    by (intro store_envI) (simp_all add: chat_room_presence_set_def Let_def presence_set_log)
next
  case (cl_presence_clear i user)
  then show ?thesis using presence_app_inv(2)
    by (intro store_envI) (simp_all add: chat_room_presence_clear_def Let_def presence_clear_log)
qed (use init_store_env [OF assms(1)] post_store_env in \<open>simp_all add: store_envI\<close>)

lemma client_steps_store:
  "opened_ok sq tables \<Longrightarrow> (client_step sq fd)\<^sup>*\<^sup>* w w' \<Longrightarrow> store_env tables w w'"
  by (erule rtranclp_induct) (auto intro: store_env_trans client_step_store)

end

text \<open>Together they are the environment steps the theorems on one session and on one
  connection ask for.\<close>

lemma env_stepI:
  assumes "world_env (ts_notify_wfd (cx_s cx)) (cx_w cx) w"
    "s' = (cx_s cx)\<lparr>ts_shutdown_requested := ts_shutdown_requested (cx_s cx) \<or> stop\<rparr>"
  shows "env_step cx \<lparr>cx_s = s', cx_w = w, cx_online = n, cx_tm = t, cx_mem = m, cx_overread = cx_overread cx\<rparr>"
  unfolding env_step_def using assms
  by (intro exI [of _ w] exI [of _ n] exI [of _ t] exI [of _ m] exI [of _ stop]) simp

lemma others_stepI:
  assumes "world_env (hc_notify_wfd (hx_c hx)) (hx_w hx) w" "store_env tables (hx_w hx) w"
    "c' = (hx_c hx)\<lparr>hc_shutdown_requested := hc_shutdown_requested (hx_c hx) \<or> stop\<rparr>"
  shows "others_step tables hx \<lparr>hx_c = c', hx_w = w\<rparr>"
  unfolding others_step_def using assms
  by (intro exI [of _ w] exI [of _ stop]) (simp add: store_env_def)

section \<open>The guarantee of a telnet session\<close>

definition guar :: "'db sqlite \<Rightarrow> 'db tctx \<Rightarrow> 'db tctx \<Rightarrow> bool" where
  "guar sq cx cx' \<longleftrightarrow> ts_notify_wfd (cx_s cx') = ts_notify_wfd (cx_s cx)
     \<and> (client_step sq (ts_notify_wfd (cx_s cx)))\<^sup>*\<^sup>* (cx_w cx) (cx_w cx')"

lemma guar_refl [simp, intro]: "guar sq cx cx"
  by (simp add: guar_def)

lemma guar_trans [trans]: "guar sq a b \<Longrightarrow> guar sq b c \<Longrightarrow> guar sq a c"
  by (auto simp: guar_def)

lemma guar_same: "cx_w cx' = cx_w cx \<Longrightarrow> ts_notify_wfd (cx_s cx') = ts_notify_wfd (cx_s cx) \<Longrightarrow> guar sq cx cx'"
  by (simp add: guar_def)

lemma guar_step:
  "client_step sq (ts_notify_wfd (cx_s cx)) (cx_w cx) (cx_w cx') \<Longrightarrow>
   ts_notify_wfd (cx_s cx') = ts_notify_wfd (cx_s cx) \<Longrightarrow> guar sq cx cx'"
  by (simp add: guar_def)

lemma guar_world [intro]:
  "client_step sq (ts_notify_wfd (cx_s cx)) (cx_w cx) (f (cx_w cx)) \<Longrightarrow> guar sq cx (on_world f cx)"
  by (rule guar_step) (simp_all add: on_world_def)

lemma guar_session [intro]: "ts_notify_wfd (f (cx_s cx)) = ts_notify_wfd (cx_s cx) \<Longrightarrow> guar sq cx (on_session f cx)"
  by (rule guar_same) (simp_all add: on_session_def)

lemma guar_ctl: "cx_w cx' = cx_w cx \<Longrightarrow> ctl cx' = ctl cx \<Longrightarrow> guar sq cx cx'"
  by (rule guar_same, assumption, rule ctlD(11))

subsection \<open>The chat\<close>

text \<open>The screens leave the service alone; the lobby initialises it.\<close>

lemma screen_world [simp]:
  "cx_w (csend str cx) = cx_w cx" "cx_w (csendf str cx) = cx_w cx" "cx_w (render_username c cx) = cx_w cx"
  "cx_w (render_compose c cx) = cx_w cx" "cx_w (room_footer r cx) = cx_w cx" "cx_w (room_header sq i cx) = cx_w cx"
  "cx_w (lobby_row sq k cx) = cx_w cx" "cx_w (send_msg_line m cx) = cx_w cx"
  by (simp_all add: csend_def csendf_def render_username_def render_compose_def room_footer_def room_header_def
      lobby_row_def send_msg_line_def Let_def)

lemma fold_world [simp]:
  "cx_w (fold (lobby_row sq) ks cx) = cx_w cx" "cx_w (fold send_msg_line ms cx) = cx_w cx"
proof -
  show "cx_w (fold (lobby_row sq) ks cx) = cx_w cx" by (induction ks arbitrary: cx) simp_all
  show "cx_w (fold send_msg_line ms cx) = cx_w cx" by (induction ms arbitrary: cx) simp_all
qed

lemma render_lobby_world [simp]: "cx_w (render_lobby sq cx) = chat_service_init sq (cx_w cx)"
  by (simp add: render_lobby_def chat_rooms_list_def Let_def)

lemma render_room_world [simp]: "cx_w (snd (render_room sq c cx)) = cx_w cx"
  by (simp add: render_room_def render_room_at_def Let_def split: option.split)

lemma guar_render_lobby [intro]: "guar sq cx (render_lobby sq cx)"
  by (rule guar_step) (simp_all add: ctlD [OF ctl_screens(1)] cl_init)

lemma guar_render_room: "render_room sq c cx = (c', cx') \<Longrightarrow> guar sq cx cx'"
  using render_room_world [of sq c cx] ctl_render_roomD [of sq c cx] by (auto intro: guar_ctl)

lemma on_world_fields [simp]: "cx_s (on_world f cx) = cx_s cx" "cx_w (on_world f cx) = f (cx_w cx)"
  by (simp_all add: on_world_def)

lemma cx_w_on_session [simp]: "cx_w (on_session f cx) = cx_w cx"
  by (simp add: on_session_def)

lemma guar_enter_room:
  assumes "enter_room sq i c cx = (c', cx')"
  shows "guar sq cx cx'"
proof -
  let ?cx1 = "on_session (\<lambda>s. s\<lparr>ts_on_notify := Some Chat_on_notify\<rparr>)
    (on_world (\<lambda>w. chat_room_presence_set sq w i (ts_username (cx_s cx))) cx)"
  let ?cx2 = "if ts_notify_wfd (cx_s ?cx1) \<ge> 0
    then on_world (\<lambda>w. chat_room_subscribe w i (ts_notify_wfd (cx_s ?cx1))) ?cx1 else ?cx1"
  have "guar sq cx ?cx1"
    by (rule guar_trans [OF guar_world guar_session]) (simp_all add: cl_presence_set)
  also have "guar sq ?cx1 ?cx2" by (simp add: guar_world cl_subscribe)
  also have "guar sq ?cx2 cx'"
    using assms unfolding enter_room_def Let_def by (rule guar_render_room)
  finally show ?thesis .
qed

lemma guar_release_room [intro]: "guar sq cx (release_room sq c cx)"
proof (cases "cs_room c")
  case (Some i)
  let ?w = "chat_room_unsubscribe (cx_w cx) i (ts_notify_wfd (cx_s cx))"
  have "client_step sq (ts_notify_wfd (cx_s cx)) (cx_w cx) ?w"
    "client_step sq (ts_notify_wfd (cx_s cx)) ?w (chat_room_presence_clear sq ?w i (ts_username (cx_s cx)))"
    by (rule cl_unsubscribe, rule cl_presence_clear)
  with Some show ?thesis by (auto simp: guar_def release_room_def)
qed (simp add: release_room_def)

lemma guar_leave_room:
  assumes "leave_room sq c cx = (c', cx')"
  shows "guar sq cx cx'"
proof -
  let ?cx = "on_session (\<lambda>s. s\<lparr>ts_on_notify := None\<rparr>) (release_room sq c cx)"
  have "guar sq cx ?cx" by (rule guar_trans [OF guar_release_room guar_session]) simp
  with assms show ?thesis by (auto simp: leave_room_def Let_def intro: guar_trans)
qed

lemma guar_post_composed: "guar sq cx (post_composed sq c cx)"
proof (cases "cs_room c")
  case (Some i)
  let ?w = "fst (chat_room_post sq (cx_w cx) i (ts_username (cx_s cx)) (cs_compose c))"
  have "client_step sq (ts_notify_wfd (cx_s cx)) (cx_w cx) ?w"
    "client_step sq (ts_notify_wfd (cx_s cx)) ?w (chat_room_presence_set sq ?w i (ts_username (cx_s cx)))"
    by (rule cl_post, rule cl_presence_set)
  with Some show ?thesis by (auto simp: guar_def post_composed_def)
qed (simp add: post_composed_def)

lemma guar_screens [intro]:
  "guar sq cx (csend str cx)" "guar sq cx (cx_send str cx)" "guar sq cx (render_compose c cx)"
  "guar sq cx (render_username c cx)"
  by (auto intro: guar_ctl)

lemma guar_chat_handle_key:
  assumes "chat_handle_key sq key c cx = (run, c', cx')"
  shows "guar sq cx cx'"
proof (cases "cs_st c")
  case CHAT_ST_USERNAME
  have "guar sq cx (render_lobby sq (on_session (\<lambda>s. s\<lparr>ts_username := u\<rparr>) cx))" for u
    by (rule guar_trans [OF guar_session guar_render_lobby]) simp
  with assms CHAT_ST_USERNAME show ?thesis
    by (auto simp: chat_handle_key_def handle_username_def Let_def split: if_splits)
next
  case CHAT_ST_LOBBY
  have "guar sq cx (cx\<lparr>cx_w := chat_service_init sq (cx_w cx)\<rparr>)" by (rule guar_step) (simp_all add: cl_init)
  with assms CHAT_ST_LOBBY show ?thesis
    by (auto simp: chat_handle_key_def handle_lobby_def chat_rooms_list_def Let_def
        split: if_splits prod.splits dest!: guar_enter_room intro: guar_trans)
next
  case CHAT_ST_IN_ROOM
  with assms show ?thesis
    by (auto simp: chat_handle_key_def handle_in_room_def Let_def split: if_splits prod.splits
        dest!: guar_leave_room guar_render_room)
next
  case CHAT_ST_COMPOSE
  with assms guar_post_composed [of sq cx c] show ?thesis
    by (auto simp: chat_handle_key_def handle_compose_def Let_def split: if_splits prod.splits
        dest!: guar_render_room intro: guar_trans)
qed

lemma guar_chat_create:
  assumes "chat_create sq cx = (r, cx')"
  shows "guar sq cx cx'"
proof -
  have "guar sq cx (on_world (chat_service_init sq) cx)" by (rule guar_world) (rule cl_init)
  with assms show ?thesis by (auto simp: chat_create_def Let_def split: if_splits intro: guar_trans)
qed

lemma guar_chat_destroy: "guar sq cx (chat_destroy sq c cx)"
  unfolding chat_destroy_def by (rule guar_trans [OF guar_release_room guar_session]) simp

lemma guar_chat_on_notify: "guar sq cx (chat_on_notify sq cx)"
proof -
  have "guar sq cx (on_session (\<lambda>s. s\<lparr>ts_game_state := g\<rparr>) cx1)
      \<and> guar sq cx (render_compose c2 (on_session (\<lambda>s. s\<lparr>ts_game_state := g\<rparr>) cx1))"
    if "render_room sq c cx = (c1, cx1)" for c c1 c2 cx1 g
  proof -
    have "guar sq cx (on_session (\<lambda>s. s\<lparr>ts_game_state := g\<rparr>) cx1)"
      by (rule guar_trans [OF guar_render_room [OF that] guar_session]) simp
    then show ?thesis by (blast intro: guar_trans)
  qed
  then show ?thesis
    by (auto simp: chat_on_notify_def Let_def split: option.split game_state.split prod.split)
qed

subsection \<open>The session\<close>

lemma guar_ops:
  shows "go_create (ops_of sq g) cx = (r, cx') \<Longrightarrow> guar sq cx cx'"
    and "go_handle_key (ops_of sq g) k st cx = (run, st', cx') \<Longrightarrow> guar sq cx cx'"
    and "guar sq cx (go_destroy (ops_of sq g) st cx)"
proof -
  have p: "g \<noteq> Chat_feature \<Longrightarrow> guar sq cx (snd (go_create (ops_of sq g) cx))"
    using ops_placeholder [of g sq] by (auto simp: placeholder_def only_outputD intro: guar_ctl)
  show "guar sq cx cx'" if "go_create (ops_of sq g) cx = (r, cx')"
    using that p by (cases "g = Chat_feature")
      (auto simp: chat_feature_def split: prod.splits intro: guar_chat_create)
  show "guar sq cx cx'" if "go_handle_key (ops_of sq g) k st cx = (run, st', cx')"
    using that ops_placeholder [of g sq] by (cases "g = Chat_feature")
      (auto simp: chat_feature_def split: prod.splits game_state.splits intro: guar_chat_handle_key)
  show "guar sq cx (go_destroy (ops_of sq g) st cx)"
    using ops_placeholder [of g sq] by (cases "g = Chat_feature")
      (auto simp: chat_feature_def split: game_state.split intro: guar_chat_destroy)
qed

lemma guar_start_game:
  assumes "act_start_game sq cx ev dat = (cx', res)"
  shows "guar sq cx cx'"
proof -
  have "guar sq cx (on_session (\<lambda>s. s\<lparr>ts_game_state := st\<rparr>) cx2)
      \<and> guar sq cx (on_session (\<lambda>s. s\<lparr>ts_active_game := None\<rparr>) (on_session (\<lambda>s. s\<lparr>ts_game_state := st\<rparr>) cx2))"
    if "go_create (ops_of sq g) (on_session (\<lambda>s. s\<lparr>ts_active_game := Some g\<rparr>) cx) = (st1, cx2)" for g st st1 cx2
  proof -
    have "guar sq cx (on_session (\<lambda>s. s\<lparr>ts_active_game := Some g\<rparr>) cx)" by (rule guar_session) simp
    also note guar_ops(1) [OF that]
    also have "guar sq cx2 (on_session (\<lambda>s. s\<lparr>ts_game_state := st\<rparr>) cx2)" by (rule guar_session) simp
    finally have "guar sq cx (on_session (\<lambda>s. s\<lparr>ts_game_state := st\<rparr>) cx2)" .
    moreover have "guar sq y (on_session (\<lambda>s. s\<lparr>ts_active_game := None\<rparr>) y)" for y :: "'a tctx"
      by (rule guar_session) simp
    ultimately show ?thesis by (blast intro: guar_trans)
  qed
  with assms show ?thesis
    by (auto simp: act_start_game_def Let_def split: ev_data.splits option.splits prod.splits)
qed

lemma guar_game_key:
  assumes "act_game_key sq cx ev dat = (cx', res)"
  shows "guar sq cx cx'"
proof -
  have "guar sq cx (on_session (\<lambda>s. s\<lparr>ts_game_state := Some st1\<rparr>) cx1)
      \<and> guar sq cx (on_session (\<lambda>s. s\<lparr>ts_game_state := None, ts_active_game := None, ts_game_over_pending := True\<rparr>)
           (go_destroy (ops_of sq g) st1 (on_session (\<lambda>s. s\<lparr>ts_game_state := Some st1\<rparr>) cx1)))"
    if "go_handle_key (ops_of sq g) key st cx = (run, st1, cx1)" for g key st run st1 cx1
  proof -
    let ?cx2 = "on_session (\<lambda>s. s\<lparr>ts_game_state := Some st1\<rparr>) cx1"
    have "guar sq cx ?cx2" by (rule guar_trans [OF guar_ops(2) [OF that] guar_session]) simp
    moreover have "guar sq ?cx2 (go_destroy (ops_of sq g) st1 ?cx2)" by (rule guar_ops)
    moreover have "guar sq y (on_session (\<lambda>s. s\<lparr>ts_game_state := None, ts_active_game := None,
        ts_game_over_pending := True\<rparr>) y)" for y :: "'a tctx" by (rule guar_session) simp
    ultimately show ?thesis by (meson guar_trans)
  qed
  moreover have "guar sq cx (on_session (\<lambda>s. s\<lparr>ts_game_over_pending := True\<rparr>) cx)" by (rule guar_session) simp
  ultimately show ?thesis
    using assms by (auto simp: act_game_key_def Let_def split: ev_data.splits option.splits prod.splits if_splits)
qed

lemma guar_quiet_actions:
  "act_send_negotiations cx ev dat = (cx', res) \<Longrightarrow> guar sq cx cx'"
  "act_show_main_menu cx ev dat = (cx', res) \<Longrightarrow> guar sq cx cx'"
  "act_close cx ev dat = (cx', res) \<Longrightarrow> guar sq cx cx'"
  using act_send_negotiations_facts(3) [of cx ev dat cx' res] act_show_main_menu_facts(2) [of cx ev dat cx' res]
    act_close_facts(3) [of cx ev dat cx' res]
  by (simp_all add: guar_same view_def)

lemma guar_handle_menu_key: "act_handle_menu_key cx ev dat = (cx', res) \<Longrightarrow> guar sq cx cx'"
  by (auto simp: act_handle_menu_key_def Let_def split: ev_data.splits if_splits intro: guar_session)

text \<open>Every row of the table keeps the guarantee, so every dispatch does.\<close>

lemma guar_tdispatch [intro]: "guar sq cx (tdispatch sq ev dat cx)"
proof (cases "find (matches (ts_fsm (cx_s cx)) ev) (telnet_fsm_table sq)")
  case None
  then show ?thesis by (simp add: tdispatch_ignored)
next
  case (Some t)
  obtain cx1 res where a: "run_action t ev cx dat = (cx1, res)" by fastforce
  have "t \<in> set (telnet_fsm_table sq)" using find_matches_SomeD [OF Some] by simp
  then have "guar sq cx cx1"
    using a by (auto simp: telnet_fsm_table_def run_action_def
        intro: guar_quiet_actions guar_handle_menu_key guar_start_game guar_game_key)
  then show ?thesis
    unfolding tdispatch_row [OF refl Some a] by (rule guar_trans [OF _ guar_session]) simp
qed

lemma guar_on_key [intro]: "guar sq cx (on_key sq key cx)"
proof -
  have d: "guar sq cx (tdispatch sq ev dat (on_session f y))"
    if "guar sq cx y" "ts_notify_wfd (f (cx_s y)) = ts_notify_wfd (cx_s y)" for ev dat f y
    using that(1) guar_session [of f y sq] that(2) guar_tdispatch by (blast intro: guar_trans)
  show ?thesis
    unfolding on_key_def Let_def by (simp add: guar_tdispatch d)
qed

lemma guar_on_data: "guar sq cx (on_data sq bs cx)"
  by (induction sq bs cx rule: on_data.induct) (auto intro: guar_trans)

lemma guar_on_option: "guar sq cx (on_option sq ev cx)"
proof -
  have r: "ts_notify_wfd (record_option ev s) = ts_notify_wfd s" for s by (simp add: record_option_def Let_def)
  have "guar sq cx (on_session (record_option ev) cx)"
    "guar sq cx (on_session (\<lambda>s. s\<lparr>ts_nego_pending := ts_nego_pending s - 1\<rparr>) (on_session (record_option ev) cx))"
    by (rule guar_session, rule r) (rule guar_trans [OF guar_session guar_session], simp_all add: r)
  then show ?thesis by (auto simp: on_option_def Let_def intro: guar_trans)
qed

lemma guar_on_subneg: "guar sq cx (on_subneg sq ev cx)"
  unfolding on_subneg_def by (auto intro!: guar_trans [OF guar_session guar_tdispatch])

lemma guar_telnet_recv [intro]: "guar sq cx (telnet_recv sq bytes cx)"
proof -
  have "guar sq cx (snd (iac_parser_feed (iac_cbs sq) (ts_iac (cx_s cx)) bytes cx))"
    by (rule feed_preserves [of "guar sq cx"])
       (auto simp: call_data_def call_option_def call_subneg_def iac_cbs_def
         intro: guar_trans guar_on_data guar_on_option guar_on_subneg)
  then show ?thesis by (auto simp: telnet_recv_def split: prod.split intro!: guar_trans [OF _ guar_session])
qed

lemma guar_call_on_notify [intro]: "guar sq cx (call_on_notify sq cx)"
  by (simp add: call_on_notify_def guar_chat_on_notify split: option.split notify_handler.split)

lemma guar_telnet_drain [intro]: "guar sq cx (telnet_drain cx)"
  unfolding telnet_drain_def by (rule guar_world) (rule cl_drain)

text \<open>One turn of the loop, the start of a session and its end.\<close>

lemma guar_telnet_loop_iter: "guar sq cx (loop_cx (telnet_loop_iter sq ev dl cx))"
proof -
  have n: "guar sq cx (tdispatch sq TEV_NEGO_DONE NoData (on_session (\<lambda>s. s\<lparr>ts_nego_pending := 0\<rparr>) cx))"
    by (rule guar_trans [OF guar_session guar_tdispatch]) simp
  have "guar sq cx (call_on_notify sq (telnet_drain cx))" by (blast intro: guar_trans)
  with n show ?thesis
    by (cases ev) (auto simp: telnet_loop_iter_def Let_def intro: guar_trans)
qed

lemma guar_telnet_begin: "guar sq cx (telnet_begin sq cx)"
  unfolding telnet_begin_def by (rule guar_trans [OF guar_same guar_tdispatch]) simp_all

lemma guar_telnet_end_game: "guar sq cx (telnet_end_game sq cx)"
  unfolding telnet_end_game_def
  by (auto split: option.split intro!: guar_trans [OF guar_ops(3) guar_session])

section \<open>The guarantee of an HTTP connection\<close>

definition hguar :: "'db sqlite \<Rightarrow> 'db hctx \<Rightarrow> 'db hctx \<Rightarrow> bool" where
  "hguar sq hx hx' \<longleftrightarrow> hc_notify_wfd (hx_c hx') = hc_notify_wfd (hx_c hx)
     \<and> (client_step sq (hc_notify_wfd (hx_c hx)))\<^sup>*\<^sup>* (hx_w hx) (hx_w hx')"

lemma hguar_refl [simp, intro]: "hguar sq hx hx"
  by (simp add: hguar_def)

lemma hguar_trans [trans]: "hguar sq a b \<Longrightarrow> hguar sq b c \<Longrightarrow> hguar sq a c"
  by (auto simp: hguar_def)

lemma hguar_step:
  "client_step sq (hc_notify_wfd (hx_c hx)) (hx_w hx) w \<Longrightarrow> hguar sq hx (hx\<lparr>hx_w := w\<rparr>)"
  by (auto simp: hguar_def)

lemma hguar_steps:
  "(client_step sq (hc_notify_wfd (hx_c hx)))\<^sup>*\<^sup>* (hx_w hx) w \<Longrightarrow> hguar sq hx (hx\<lparr>hx_w := w\<rparr>)"
  by (auto simp: hguar_def)

lemma hguar_conn: "hc_notify_wfd c = hc_notify_wfd (hx_c hx) \<Longrightarrow> hguar sq hx (hx\<lparr>hx_c := c\<rparr>)"
  by (simp add: hguar_def)

lemma hguar_with_conn: "(\<And>c. hc_notify_wfd (f c) = hc_notify_wfd c) \<Longrightarrow> hguar sq hx (with_conn f hx)"
  by (simp add: with_conn_def hguar_conn)

lemma send_all_wfd [simp]: "hc_notify_wfd (fst (send_all c buf)) = hc_notify_wfd c"
  by (simp add: send_all_def split: prod.split)

lemma send_three_wfd [simp]: "hc_notify_wfd (fst (send_three a b d c)) = hc_notify_wfd c"
  by (simp add: send_three_def split_beta)

lemma respond_wfd [simp]:
  "hc_notify_wfd (http_respond st ctype body c) = hc_notify_wfd c"
  "hc_notify_wfd (http_respond_json st str c) = hc_notify_wfd c"
  "hc_notify_wfd (http_respond_text st str c) = hc_notify_wfd c"
  "hc_notify_wfd (respond_buf b c) = hc_notify_wfd c"
  "hc_notify_wfd (http_sse_begin c) = hc_notify_wfd c"
  "hc_notify_wfd (fst (http_sse_comment c str)) = hc_notify_wfd c"
  "hc_notify_wfd (fst (http_sse_send c str)) = hc_notify_wfd c"
  by (simp_all add: http_respond_def http_respond_json_def http_respond_text_def respond_buf_def begin_conn
      http_sse_comment_def http_sse_send_def Let_def split_beta)

lemma serve_static_wfd [simp]: "hc_notify_wfd (serve_static env f ctype c) = hc_notify_wfd c"
  by (simp add: serve_static_def Let_def split: option.split)

lemmas hguar_answer [intro] = hguar_with_conn [of "http_respond_json st str" for st str, OF respond_wfd(2)]
  hguar_with_conn [of "http_respond_text st str" for st str, OF respond_wfd(3)]
  hguar_with_conn [of "respond_buf b" for b, OF respond_wfd(4)]
  hguar_with_conn [of "serve_static env f ctype" for env f ctype, OF serve_static_wfd]

lemma hguar_init: "hguar sq hx (hx\<lparr>hx_w := chat_service_init sq (hx_w hx)\<rparr>)"
  by (rule hguar_step) (rule cl_init)

lemma hguar_handlers:
  "hguar sq hx (handle_rooms sq hx)" "hguar sq hx (handle_messages_get sq mem room req hx)"
  "hguar sq hx (handle_messages_post sq room req hx)" "hguar sq hx (handle_users sq room hx)"
proof -
  show "hguar sq hx (handle_rooms sq hx)"
    unfolding handle_rooms_def chat_rooms_list_def Let_def by (auto intro: hguar_trans [OF hguar_init])
  show "hguar sq hx (handle_messages_get sq mem room req hx)" "hguar sq hx (handle_users sq room hx)"
    by (auto simp: handle_messages_get_def handle_users_def Let_def)
  have "hguar sq hx (with_conn (http_respond_json st str) (hx\<lparr>hx_w := fst (chat_room_post sq (hx_w hx) room u b)\<rparr>))"
    for u b st str
    by (rule hguar_trans [OF hguar_step [OF cl_post]]) (rule hguar_answer)
  then show "hguar sq hx (handle_messages_post sq room req hx)"
    unfolding handle_messages_post_def Let_def split_beta by (auto simp del: cstr_Cons)
qed

subsection \<open>The event stream in steps\<close>

text \<open>\<^verbatim>\<open>handle_sse\<close> up to the cursor, and from the subscription to the loop.\<close>

definition sse_tail :: "'db sqlite \<Rightarrow> nat \<Rightarrow> 'db hctx \<Rightarrow> int \<times> 'db hctx" where
  "sse_tail sq room hx =
     (let hx = with_conn http_sse_begin hx in (chat_room_tail sq (hx_w hx) room, hx))"

definition sse_subscribe :: "'db sqlite \<Rightarrow> nat \<Rightarrow> http_request \<Rightarrow> 'db hctx \<Rightarrow> 'db hctx" where
  "sse_subscribe sq room req hx =
     (let hx = hx\<lparr>hx_w := chat_room_subscribe (hx_w hx) room (http_conn_notify_wfd (hx_c hx))\<rparr>;
          hx = sse_presence sq room (sse_user req) hx
      in with_conn (\<lambda>c. fst (http_sse_comment c ''connected'')) hx)"

lemma sse_open_split:
  "sse_open sq gap room req hx =
     (case sse_tail sq room hx of (cursor, hx) \<Rightarrow> (cursor, sse_subscribe sq room req (gap hx)))"
  by (simp add: sse_open_def sse_tail_def sse_subscribe_def Let_def)

lemma hguar_presence: "hguar sq hx (sse_presence sq room user hx)"
  by (auto simp: sse_presence_def split: option.split intro: hguar_step cl_presence_set)

lemma hguar_sse_tail: "sse_tail sq room hx = (cur, hx') \<Longrightarrow> hguar sq hx hx'"
  by (auto simp: sse_tail_def Let_def intro: hguar_with_conn)

lemma hguar_sse_subscribe: "hguar sq hx (sse_subscribe sq room req hx)"
proof -
  have "hguar sq hx (hx\<lparr>hx_w := chat_room_subscribe (hx_w hx) room (hc_notify_wfd (hx_c hx))\<rparr>)"
    by (rule hguar_step) (rule cl_subscribe)
  then show ?thesis
    unfolding sse_subscribe_def Let_def http_conn_notify_wfd_def
    by (rule hguar_trans [OF hguar_trans [OF _ hguar_presence] hguar_with_conn]) simp
qed

lemma hguar_sse_close: "hguar sq hx (sse_close sq room req hx)"
proof -
  let ?w = "chat_room_unsubscribe (hx_w hx) room (hc_notify_wfd (hx_c hx))"
  have "client_step sq (hc_notify_wfd (hx_c hx)) (hx_w hx) ?w"
    "client_step sq (hc_notify_wfd (hx_c hx)) ?w (chat_room_presence_clear sq ?w room u)" for u
    by (rule cl_unsubscribe, rule cl_presence_clear)
  then have "(client_step sq (hc_notify_wfd (hx_c hx)))\<^sup>*\<^sup>* (hx_w hx) ?w"
    "(client_step sq (hc_notify_wfd (hx_c hx)))\<^sup>*\<^sup>* (hx_w hx) (chat_room_presence_clear sq ?w room u)" for u
    by (blast intro: rtranclp.rtrancl_into_rtrancl)+
  then show ?thesis
    unfolding sse_close_def Let_def http_conn_notify_wfd_def
    by (intro hguar_steps) (simp split: option.split)
qed

lemma sse_send_msgs_wfd [simp]: "hc_notify_wfd (fst (snd (sse_send_msgs ms cur c))) = hc_notify_wfd c"
  using sse_send_msgs_streamed [of c ms cur] by (simp add: streamed_def)

lemma hguar_wait:
  assumes "\<And>hx. ht_env t hx = hx"
  shows "hguar sq hx (snd (http_conn_wait t hx))"
proof -
  have "hguar sq hx (hx\<lparr>hx_w := (hx_w hx)\<lparr>w_pipes := pipe_drain (hc_notify_wfd (hx_c hx)) (w_pipes (hx_w hx))\<rparr>\<rparr>)"
    by (rule hguar_step) (rule cl_drain)
  then show ?thesis by (auto simp: http_conn_wait_def Let_def assms split: wait_event.split)
qed

fun sse_cursor :: "'db sse_step \<Rightarrow> int" where
  "sse_cursor (Sse_stop cur hx) = cur"
| "sse_cursor (Sse_go cur hx) = cur"

fun sse_hx :: "'db sse_step \<Rightarrow> 'db hctx" where
  "sse_hx (Sse_stop cur hx) = hx"
| "sse_hx (Sse_go cur hx) = hx"

lemma hguar_sse_turn:
  assumes "\<And>hx. ht_env t hx = hx"
  shows "hguar sq hx (sse_hx (sse_turn sq room user t cur hx))"
proof -
  obtain r hx1 where w: "http_conn_wait t hx = (r, hx1)" by fastforce
  have "hguar sq hx hx1" using hguar_wait [OF assms, of sq hx] w by simp
  moreover have "hguar sq hx1 (sse_hx (sse_turn sq room user t cur hx))"
  proof (cases r)
    case HTTP_WAIT_TIMEOUT
    let ?hx2 = "sse_presence sq room user hx1"
    let ?c = "fst (http_sse_comment (hx_c ?hx2) ''keepalive'')"
    have "hguar sq hx1 (?hx2\<lparr>hx_c := ?c\<rparr>)" by (rule hguar_trans [OF hguar_presence hguar_conn]) simp
    with HTTP_WAIT_TIMEOUT w show ?thesis by (simp add: sse_turn_def split_beta Let_def)
  next
    case HTTP_WAIT_NOTIFY
    then show ?thesis using w by (auto simp: sse_turn_def split_beta intro: hguar_conn)
  qed (simp add: sse_turn_def w)
  ultimately show ?thesis by (rule hguar_trans)
qed

subsection \<open>The router alone\<close>

text \<open>The router with no other thread between its calls: a result \<open>None\<close> is an event stream.\<close>

definition alone :: "'db henv \<Rightarrow> 'db henv" where
  "alone env = env\<lparr>he_gap := (\<lambda>hx. hx), he_turns := []\<rparr>"

lemma alone_simps [simp]: "he_gap (alone env) = (\<lambda>hx. hx)" "he_turns (alone env) = []" "he_mem (alone env) = he_mem env"
  by (simp_all add: alone_def)

lemma hguar_handle_sse: "handle_sse sq (\<lambda>hx. hx) [] room req hx = Some hx' \<Longrightarrow> hguar sq hx hx'"
proof -
  assume h: "handle_sse sq (\<lambda>hx. hx) [] room req hx = Some hx'"
  obtain cur hx1 where t: "sse_tail sq room hx = (cur, hx1)" by fastforce
  have "hx' = sse_close sq room req (sse_subscribe sq room req hx1)"
    using h t by (auto simp: handle_sse_def sse_open_split split: if_splits)
  with hguar_sse_tail [OF t] hguar_sse_subscribe hguar_sse_close show ?thesis by (metis hguar_trans)
qed

lemma hguar_dispatch_events: "dispatch_events sq (alone env) req hx = Some hx' \<Longrightarrow> hguar sq hx hx'"
  by (auto simp: dispatch_events_def chat_room_by_id_def Let_def split: if_splits option.splits
      intro: hguar_trans [OF hguar_init] dest!: hguar_handle_sse)

lemma hguar_dispatch_room: "dispatch_room sq (alone env) req rid sub hx = Some hx' \<Longrightarrow> hguar sq hx hx'"
  by (auto simp: dispatch_room_def chat_room_by_id_def Let_def split: if_splits option.splits
      intro: hguar_trans [OF hguar_init] hguar_handlers dest!: hguar_dispatch_events)

lemma hguar_http_dispatch: "http_dispatch sq (alone env) hx req = Some hx' \<Longrightarrow> hguar sq hx hx'"
  by (auto simp: http_dispatch_def Let_def split: if_splits option.splits
      intro: hguar_handlers dest!: hguar_dispatch_events hguar_dispatch_room)

lemma http_world_alone:
  assumes "sqlite_chat sq tables" "opened_ok sq tables"
  shows "http_world sq tables (alone env)"
  using assms by (simp add: http_world_def http_world_axioms_def)

text \<open>The room of an event stream, as \<^verbatim>\<open>http_dispatch\<close> finds it.\<close>

definition events_room :: "'db sqlite \<Rightarrow> http_request \<Rightarrow> 'db chat_world \<Rightarrow> nat option" where
  "events_room sq req w = snd (chat_room_by_id sq w (fst (strtol (drop 18 (cstr (rq_path req))))))"

lemma dispatch_events_None:
  assumes "dispatch_events sq env req hx = None"
  shows "\<exists>room. events_room sq req (hx_w hx) = Some room
    \<and> handle_sse sq (he_gap env) (he_turns env) room req (hx\<lparr>hx_w := chat_service_init sq (hx_w hx)\<rparr>) = None"
  using assms
  by (auto simp: dispatch_events_def chat_room_by_id_def events_room_def Let_def split: if_splits option.splits)

lemma init_idem [simp]: "chat_service_init sq (chat_service_init sq w) = chat_service_init sq w"
  by (simp add: chat_service_init_def)

lemma events_room_init [simp]: "events_room sq req (chat_service_init sq w) = events_room sq req w"
  by (simp add: events_room_def chat_room_by_id_def Let_def)

text \<open>A request that the router does not answer at once is an event stream of a room that
  exists.\<close>

lemma http_dispatch_None:
  assumes "http_dispatch sq env hx req = None"
  shows "\<exists>room. events_room sq req (hx_w hx) = Some room
    \<and> handle_sse sq (he_gap env) (he_turns env) room req (hx\<lparr>hx_w := chat_service_init sq (hx_w hx)\<rparr>) = None"
proof -
  have r: "\<exists>room. events_room sq req (hx_w hx) = Some room
      \<and> handle_sse sq (he_gap env) (he_turns env) room req (hx\<lparr>hx_w := chat_service_init sq (hx_w hx)\<rparr>) = None"
    if "dispatch_room sq env req rid sub hx = None" for rid sub
  proof -
    have "dispatch_events sq env req (hx\<lparr>hx_w := chat_service_init sq (hx_w hx)\<rparr>) = None"
      using that by (auto simp: dispatch_room_def chat_room_by_id_def Let_def split: if_splits option.splits)
    from dispatch_events_None [OF this] show ?thesis by simp
  qed
  show ?thesis
    using assms r dispatch_events_None by (auto simp: http_dispatch_def Let_def split: if_splits option.splits)
qed

section \<open>Guarantee gives rely\<close>

definition rely :: "('db \<Rightarrow> chat_tables) \<Rightarrow> fd \<Rightarrow> 'db chat_world \<Rightarrow> 'db chat_world \<Rightarrow> bool" where
  "rely tables fd w w' \<longleftrightarrow> world_env fd w w' \<and> store_env tables w w' \<and> (0 \<le> fd \<longrightarrow> pipe_env fd w w')"

lemma guarantee_rely:
  assumes "sqlite_chat sq tables" "opened_ok sq tables" "app_inv tables w"
    and "(client_step sq fd')\<^sup>*\<^sup>* w w'" "0 \<le> fd \<Longrightarrow> fd \<noteq> fd'"
  shows "rely tables fd w w'"
  using client_steps_env [OF assms(4,5)] sqlite_chat.client_steps_store [OF assms(1,2,4)]
    client_steps_pipe [OF assms(4)] app_inv_pre [OF assms(3)] assms(5)
  by (simp add: rely_def)

text \<open>The clock, a wake-up by the shutdown call, a new pipe and a closed one.\<close>

lemma rely_frame:
  assumes "w_rooms w' = w_rooms w" "w_once w' = w_once w" "w_db w' = w_db w" "0 \<le> fd \<Longrightarrow> pipe_env fd w w'"
  shows "rely tables fd w w'"
  using assms by (simp add: rely_def world_env_rooms store_env_def app_inv_def service_inv_def)

lemma rely_clock: "rely tables fd w (w\<lparr>w_now := now\<rparr>)"
  by (rule rely_frame) (simp_all add: pipe_env_same)

lemma rely_wake: "rely tables fd w (w\<lparr>w_pipes := pipe_write fd' (w_pipes w)\<rparr>)"
  by (rule rely_frame) (auto simp: pipe_env_def pipe_write_keeps simp flip: domIff)

lemma rely_open: "(0 \<le> fd \<Longrightarrow> fd \<noteq> fd') \<Longrightarrow> rely tables fd w (w\<lparr>w_pipes := (w_pipes w)(fd' \<mapsto> 0)\<rparr>)"
  by (rule rely_frame) (auto simp: pipe_env_def pending_def)

lemma rely_close: "(0 \<le> fd \<Longrightarrow> fd \<noteq> fd') \<Longrightarrow> rely tables fd w (w\<lparr>w_pipes := (w_pipes w)(fd' := None)\<rparr>)"
  by (rule rely_frame) (auto simp: pipe_env_def pending_def)

lemma relyD:
  assumes "rely tables fd w w'" "app_inv tables w"
  shows "world_env fd w w'" "store_env tables w w'" "app_inv tables w'"
    "0 \<le> fd \<Longrightarrow> pending (w_pipes w) fd \<Longrightarrow> pending (w_pipes w') fd"
    "0 \<le> fd \<Longrightarrow> fd \<in> dom (w_pipes w) \<Longrightarrow> fd \<in> dom (w_pipes w')"
  using assms by (auto simp: rely_def store_env_def pipe_env_def)

lemma rely_trans:
  assumes "app_inv tables w" "rely tables fd w w1" "rely tables fd w1 w2"
  shows "rely tables fd w w2"
  using assms world_env_trans [OF app_inv_pre [OF assms(1)], of fd w1 w2] store_env_trans [of tables w w1 w2]
    pipe_env_trans [of fd w w1 w2]
  by (simp add: rely_def)

end
