(* ===== verification/Connector.thy ===== *)
theory Connector
  imports Errors "HOL-Library.Multiset"
begin

text \<open>
  The bounded thread spawner of \<^verbatim>\<open>core/connector.c\<close>. A connection thread is one element of
  a list, with the place it has reached in \<^verbatim>\<open>thread_entry\<close>; the semaphore is its value. The
  operations are functions, \<open>pool_step\<close> interleaves them with the steps of the threads and
  of \<^verbatim>\<open>connector_destroy\<close>. The specification is a multiset of at most \<^verbatim>\<open>max_connections\<close>
  jobs; every observable run of the spawner is a run of it. What the accept loop relies on
  is the locale \<open>bounded_spawner\<close>.
\<close>

section \<open>Data\<close>

record connector =
  cn_max_connections :: "32 word"
  cn_stack_size :: nat
  cn_slots :: nat
  cn_active :: "32 word"

text \<open>What a thread is started with: the argument of the work function, which is the same function
  for all threads of a pool, with the place the thread has reached in \<^verbatim>\<open>thread_entry\<close>:
  before \<^verbatim>\<open>atomic_fetch_add\<close>, inside the work function, and between \<^verbatim>\<open>atomic_fetch_sub\<close> and
  \<^verbatim>\<open>sem_post\<close>.\<close>

datatype phase = Ph_start | Ph_work | Ph_leave

record 'a conn_wrap =
  cw_phase :: phase
  cw_arg :: 'a

record 'a pool =
  pl_c :: connector
  pl_threads :: "'a conn_wrap list"

section \<open>Operations\<close>

definition SEM_VALUE_MAX :: nat where "SEM_VALUE_MAX = 2147483647"

definition sem_init :: "nat \<Rightarrow> nat option" where
  "sem_init v = (if v \<le> SEM_VALUE_MAX then Some v else None)"

definition sem_trywait :: "nat \<Rightarrow> nat option" where
  "sem_trywait v = (if v = 0 then None else Some (v - 1))"

definition connector_init :: "32 word \<Rightarrow> nat \<Rightarrow> connector \<Rightarrow> ns_err \<times> connector" where
  "connector_init max_conn stack_size c =
     (let c = c\<lparr>cn_max_connections := max_conn, cn_stack_size := stack_size, cn_active := 0\<rparr>
      in case sem_init (unat max_conn) of
           None \<Rightarrow> (NS_ERR_THREAD, c)
         | Some v \<Rightarrow> (NS_OK, c\<lparr>cn_slots := v\<rparr>))"

text \<open>\<^verbatim>\<open>sem_post (&c->slots)\<close>\<close>

definition slot_post :: "'a pool \<Rightarrow> 'a pool" where
  "slot_post p = p\<lparr>pl_c := (pl_c p)\<lparr>cn_slots := Suc (cn_slots (pl_c p))\<rparr>\<rparr>"

text \<open>\<open>mem\<close> and \<open>thr\<close>: whether \<^verbatim>\<open>malloc\<close> and \<^verbatim>\<open>pthread_create\<close> succeed.\<close>

definition connector_spawn :: "bool \<Rightarrow> bool \<Rightarrow> 'a \<Rightarrow> 'a pool \<Rightarrow> ns_err \<times> 'a pool" where
  "connector_spawn mem thr arg p =
     (case sem_trywait (cn_slots (pl_c p)) of
        None \<Rightarrow> (NS_ERR_MAX_CONNECTIONS, p)
      | Some v \<Rightarrow>
          let p = p\<lparr>pl_c := (pl_c p)\<lparr>cn_slots := v\<rparr>\<rparr>
          in if \<not> mem then (NS_ERR_NO_MEM, slot_post p)
             else if \<not> thr then (NS_ERR_THREAD, slot_post p)
             else (NS_OK, p\<lparr>pl_threads := pl_threads p @ [\<lparr>cw_phase = Ph_start, cw_arg = arg\<rparr>]\<rparr>))"

definition remove_nth :: "nat \<Rightarrow> 'a list \<Rightarrow> 'a list" where
  "remove_nth i xs = take i xs @ drop (Suc i) xs"

text \<open>One step of thread \<open>i\<close> through the trampoline.\<close>

definition thread_entry :: "nat \<Rightarrow> 'a pool \<Rightarrow> 'a pool option" where
  "thread_entry i p =
     (if i < length (pl_threads p)
      then let w = pl_threads p ! i; c = pl_c p
           in Some (case cw_phase w of
                Ph_start \<Rightarrow> \<lparr>pl_c = c\<lparr>cn_active := cn_active c + 1\<rparr>,
                               pl_threads = (pl_threads p)[i := w\<lparr>cw_phase := Ph_work\<rparr>]\<rparr>
              | Ph_work \<Rightarrow> \<lparr>pl_c = c\<lparr>cn_active := cn_active c - 1\<rparr>,
                              pl_threads = (pl_threads p)[i := w\<lparr>cw_phase := Ph_leave\<rparr>]\<rparr>
              | Ph_leave \<Rightarrow> slot_post (p\<lparr>pl_threads := remove_nth i (pl_threads p)\<rparr>))
      else None)"

text \<open>One round of the loop of \<^verbatim>\<open>connector_destroy\<close>: \<^verbatim>\<open>sem_wait\<close> takes a slot, blocks
  (\<open>None\<close>), or is interrupted by a signal, which the loop counts as a slot.\<close>

definition destroy_round :: "bool \<Rightarrow> nat \<times> 'a pool \<Rightarrow> (nat \<times> 'a pool) option" where
  "destroy_round eintr = (\<lambda>(i, p).
     if \<not> i < unat (cn_max_connections (pl_c p)) then None
     else if eintr then Some (Suc i, p)
     else map_option (\<lambda>v. (Suc i, p\<lparr>pl_c := (pl_c p)\<lparr>cn_slots := v\<rparr>\<rparr>)) (sem_trywait (cn_slots (pl_c p))))"

section \<open>Interleaving\<close>

text \<open>The pool, the counter of \<^verbatim>\<open>connector_destroy\<close> once it is called, and how many of its
  waits a signal cut short.\<close>

record 'a machine =
  mc_pool :: "'a pool"
  mc_wait :: "nat option"
  mc_eintr :: nat

datatype 'a obs = Obs_spawn 'a ns_err | Obs_done 'a | Obs_tau

definition thread_obs :: "nat \<Rightarrow> 'a pool \<Rightarrow> 'a obs" where
  "thread_obs i p =
     (let w = pl_threads p ! i in if cw_phase w = Ph_leave then Obs_done (cw_arg w) else Obs_tau)"

inductive pool_step :: "'a machine \<Rightarrow> 'a obs \<Rightarrow> 'a machine \<Rightarrow> bool" where
  step_spawn: "mc_wait m = None \<Longrightarrow> connector_spawn mem thr a (mc_pool m) = (rc, p) \<Longrightarrow>
    pool_step m (Obs_spawn a rc) (m\<lparr>mc_pool := p\<rparr>)"
| step_thread: "thread_entry i (mc_pool m) = Some p \<Longrightarrow>
    pool_step m (thread_obs i (mc_pool m)) (m\<lparr>mc_pool := p\<rparr>)"
| step_destroy: "mc_wait m = None \<Longrightarrow> pool_step m Obs_tau (m\<lparr>mc_wait := Some 0\<rparr>)"
| step_wait: "mc_wait m = Some i \<Longrightarrow> destroy_round eintr (i, mc_pool m) = Some (j, p) \<Longrightarrow>
    pool_step m Obs_tau (m\<lparr>mc_pool := p, mc_wait := Some j, mc_eintr := mc_eintr m + (if eintr then 1 else 0)\<rparr>)"

inductive pool_run :: "'a machine \<Rightarrow> 'a obs list \<Rightarrow> 'a machine \<Rightarrow> bool" where
  run_refl: "pool_run m [] m"
| run_step: "pool_run m tr m' \<Longrightarrow> pool_step m' ob m'' \<Longrightarrow>
    pool_run m (if ob = Obs_tau then tr else tr @ [ob]) m''"

definition start_machine :: "connector \<Rightarrow> 'a machine" where
  "start_machine c = \<lparr>mc_pool = \<lparr>pl_c = c, pl_threads = []\<rparr>, mc_wait = None, mc_eintr = 0\<rparr>"

definition destroyed :: "'a machine \<Rightarrow> bool" where
  "destroyed m \<longleftrightarrow> mc_wait m = Some (unat (cn_max_connections (pl_c (mc_pool m))))"

inductive_cases pool_stepE: "pool_step m ob m'"

section \<open>The accounting invariant\<close>

definition working :: "'a pool \<Rightarrow> nat" where
  "working p = length (filter (\<lambda>w. cw_phase w = Ph_work) (pl_threads p))"

text \<open>\<open>k\<close>: the slots that \<^verbatim>\<open>connector_destroy\<close> holds.\<close>

definition pool_ok :: "nat \<Rightarrow> 'a pool \<Rightarrow> bool" where
  "pool_ok k p \<longleftrightarrow>
     cn_slots (pl_c p) + length (pl_threads p) + k = unat (cn_max_connections (pl_c p))
     \<and> unat (cn_active (pl_c p)) = working p"

lemma length_remove_nth: "i < length xs \<Longrightarrow> length (remove_nth i xs) = length xs - 1"
  by (simp add: remove_nth_def)

lemma mset_remove_nth: "i < length xs \<Longrightarrow> mset (remove_nth i xs) = mset xs - {#xs ! i#}"
proof -
  assume "i < length xs"
  then have "mset xs = mset (take i xs @ xs ! i # drop (Suc i) xs)" by (simp add: Cons_nth_drop_Suc)
  then show ?thesis by (simp add: remove_nth_def)
qed

lemma filter_update_length:
  "i < length xs \<Longrightarrow> length (filter P (xs[i := y])) + (if P (xs ! i) then 1 else 0)
     = length (filter P xs) + (if P y then 1 else 0)"
proof (induction xs arbitrary: i)
  case (Cons x xs)
  then show ?case by (cases i) fastforce+
qed simp

lemma filter_remove_length:
  "i < length xs \<Longrightarrow> \<not> P (xs ! i) \<Longrightarrow> length (filter P (remove_nth i xs)) = length (filter P xs)"
proof -
  assume i: "i < length xs" "\<not> P (xs ! i)"
  then have "filter P xs = filter P (take i xs @ xs ! i # drop (Suc i) xs)" by (simp add: Cons_nth_drop_Suc)
  with i show ?thesis by (simp add: remove_nth_def)
qed

lemma unat_inc: "unat (x :: 32 word) < unat (y :: 32 word) \<Longrightarrow> unat (x + 1) = unat x + 1"
  using unsigned_less [of y, where 'a = nat] by (simp add: unat_word_ariths)

lemma unat_dec: "0 < unat (x :: 32 word) \<Longrightarrow> unat (x - 1) = unat x - 1"
  by (metis unat_minus_one unat_0 less_irrefl)

lemma working_le: "working p \<le> length (pl_threads p)"
  by (simp add: working_def)

lemma slot_post_simps [simp]:
  "pl_threads (slot_post p) = pl_threads p" "cn_slots (pl_c (slot_post p)) = Suc (cn_slots (pl_c p))"
  "cn_max_connections (pl_c (slot_post p)) = cn_max_connections (pl_c p)"
  "cn_active (pl_c (slot_post p)) = cn_active (pl_c p)"
  by (simp_all add: slot_post_def)

lemma connector_init_ok:
  assumes "connector_init n sz c0 = (NS_OK, c)"
  shows "pool_ok 0 \<lparr>pl_c = c, pl_threads = []\<rparr>" "cn_max_connections c = n" "cn_stack_size c = sz"
  using assms
  by (auto simp: connector_init_def sem_init_def pool_ok_def working_def Let_def ns_err_defs split: if_splits)

text \<open>A spawn that fails for any reason leaves the pool as it was.\<close>

lemma connector_spawn_result:
  "connector_spawn mem thr a p =
     (if cn_slots (pl_c p) = 0 then (NS_ERR_MAX_CONNECTIONS, p)
      else if \<not> mem then (NS_ERR_NO_MEM, p)
      else if \<not> thr then (NS_ERR_THREAD, p)
      else (NS_OK, p\<lparr>pl_c := (pl_c p)\<lparr>cn_slots := cn_slots (pl_c p) - 1\<rparr>,
        pl_threads := pl_threads p @ [\<lparr>cw_phase = Ph_start, cw_arg = a\<rparr>]\<rparr>))"
  by (simp add: connector_spawn_def sem_trywait_def slot_post_def Let_def)

lemma connector_spawn_ok:
  assumes "pool_ok k p" and "connector_spawn mem thr a p = (rc, p')"
  shows "pool_ok k p'" "cn_max_connections (pl_c p') = cn_max_connections (pl_c p)"
  using assms by (auto simp: connector_spawn_result pool_ok_def working_def split: if_splits)

lemma thread_entry_ok:
  assumes "pool_ok k p" and "thread_entry i p = Some p'"
  shows "pool_ok k p'" "cn_max_connections (pl_c p') = cn_max_connections (pl_c p)"
proof -
  let ?w = "pl_threads p ! i" and ?P = "\<lambda>w. cw_phase w = Ph_work"
  have i: "i < length (pl_threads p)" using assms(2) by (simp add: thread_entry_def split: if_splits)
  note upd = filter_update_length [OF i, of ?P]
  have "pool_ok k p' \<and> cn_max_connections (pl_c p') = cn_max_connections (pl_c p)"
  proof (cases "cw_phase ?w")
    case Ph_start
    then have "working p < length (pl_threads p)"
      unfolding working_def using i by (intro length_filter_less [of ?w]) auto
    then have "unat (cn_active (pl_c p)) < unat (cn_max_connections (pl_c p))"
      using assms(1) by (simp add: pool_ok_def)
    note inc = unat_inc [OF this]
    have "p' = \<lparr>pl_c = (pl_c p)\<lparr>cn_active := cn_active (pl_c p) + 1\<rparr>, pl_threads = (pl_threads p)[i := ?w\<lparr>cw_phase := Ph_work\<rparr>]\<rparr>"
      using assms(2) Ph_start i by (simp add: thread_entry_def Let_def)
    with inc upd [of "?w\<lparr>cw_phase := Ph_work\<rparr>"] Ph_start assms(1) show ?thesis
      by (simp add: pool_ok_def working_def)
  next
    case Ph_work
    then have "0 < working p" unfolding working_def using i by (auto simp: filter_empty_conv)
    then have "0 < unat (cn_active (pl_c p))" using assms(1) by (simp add: pool_ok_def)
    note dec = unat_dec [OF this]
    have "p' = \<lparr>pl_c = (pl_c p)\<lparr>cn_active := cn_active (pl_c p) - 1\<rparr>, pl_threads = (pl_threads p)[i := ?w\<lparr>cw_phase := Ph_leave\<rparr>]\<rparr>"
      using assms(2) Ph_work i by (simp add: thread_entry_def Let_def)
    with dec upd [of "?w\<lparr>cw_phase := Ph_leave\<rparr>"] Ph_work assms(1) show ?thesis
      by (simp add: pool_ok_def working_def)
  next
    case Ph_leave
    have "p' = slot_post (p\<lparr>pl_threads := remove_nth i (pl_threads p)\<rparr>)"
      using assms(2) Ph_leave i by (simp add: thread_entry_def Let_def)
    with Ph_leave assms(1) i show ?thesis
      by (simp add: pool_ok_def working_def length_remove_nth filter_remove_length)
  qed
  then show "pool_ok k p'" "cn_max_connections (pl_c p') = cn_max_connections (pl_c p)" by blast+
qed

lemma destroy_round_ok:
  assumes "pool_ok k p" and "destroy_round eintr (i, p) = Some (j, p')"
  shows "pool_ok (k + (if eintr then 0 else 1)) p'" "j = Suc i" "i < unat (cn_max_connections (pl_c p))"
    "cn_max_connections (pl_c p') = cn_max_connections (pl_c p)" "pl_threads p' = pl_threads p"
  using assms
  by (auto simp: destroy_round_def sem_trywait_def pool_ok_def working_def split: if_splits)

text \<open>The slots in use by the threads, those taken by \<^verbatim>\<open>connector_destroy\<close> and the free ones
  add up; \<^verbatim>\<open>active\<close> counts exactly the threads inside their work function.\<close>

definition machine_ok :: "nat \<Rightarrow> 'a machine \<Rightarrow> bool" where
  "machine_ok n m \<longleftrightarrow>
     unat (cn_max_connections (pl_c (mc_pool m))) = n
     \<and> (case mc_wait m of
          None \<Rightarrow> mc_eintr m = 0 \<and> pool_ok 0 (mc_pool m)
        | Some i \<Rightarrow> mc_eintr m \<le> i \<and> i \<le> n \<and> pool_ok (i - mc_eintr m) (mc_pool m))"

lemma machine_ok_start:
  "connector_init w sz c0 = (NS_OK, c) \<Longrightarrow> machine_ok (unat w) (start_machine c)"
  using connector_init_ok [of w sz c0 c] by (simp add: machine_ok_def start_machine_def)

lemma machine_ok_step:
  assumes "machine_ok n m" and "pool_step m ob m'"
  shows "machine_ok n m'"
  using assms(2)
proof cases
  case (step_spawn mem thr a rc p)
  with assms(1) connector_spawn_ok [of 0 "mc_pool m" mem thr a rc p] show ?thesis by (simp add: machine_ok_def)
next
  case (step_thread i p)
  with assms(1) thread_entry_ok [of _ "mc_pool m" i p] show ?thesis
    by (auto simp: machine_ok_def split: option.splits)
next
  case step_destroy
  with assms(1) show ?thesis by (simp add: machine_ok_def)
next
  case (step_wait i eintr j p)
  with assms(1) have k: "pool_ok (i - mc_eintr m) (mc_pool m)" and le: "mc_eintr m \<le> i" by (simp_all add: machine_ok_def)
  note r = destroy_round_ok [OF k step_wait(4)]
  from le have "i - mc_eintr m + (if eintr then 0 else 1) = Suc i - (mc_eintr m + (if eintr then 1 else 0))" by simp
  with assms(1) step_wait(1-3) r le show ?thesis by (simp add: machine_ok_def split: if_splits)
qed

lemma machine_ok_run: "pool_run m tr m' \<Longrightarrow> machine_ok n m \<Longrightarrow> machine_ok n m'"
  by (induction rule: pool_run.induct) (auto intro: machine_ok_step)

section \<open>Refinement of the bounded job pool\<close>

inductive spec_step :: "nat \<Rightarrow> 'a multiset \<Rightarrow> 'a obs \<Rightarrow> 'a multiset \<Rightarrow> bool" for n where
  spec_accept: "size J < n \<Longrightarrow> spec_step n J (Obs_spawn a NS_OK) (add_mset a J)"
| spec_full: "size J = n \<Longrightarrow> spec_step n J (Obs_spawn a NS_ERR_MAX_CONNECTIONS) J"
| spec_fail: "size J < n \<Longrightarrow> rc \<in> {NS_ERR_NO_MEM, NS_ERR_THREAD} \<Longrightarrow> spec_step n J (Obs_spawn a rc) J"
| spec_finish: "a \<in># J \<Longrightarrow> spec_step n J (Obs_done a) (J - {#a#})"

inductive spec_run :: "nat \<Rightarrow> 'a multiset \<Rightarrow> 'a obs list \<Rightarrow> 'a multiset \<Rightarrow> bool" for n where
  spec_refl: "spec_run n J [] J"
| spec_more: "spec_run n J tr J' \<Longrightarrow> spec_step n J' ob J'' \<Longrightarrow> spec_run n J (tr @ [ob]) J''"

definition jobs :: "'a pool \<Rightarrow> 'a multiset" where
  "jobs p = image_mset cw_arg (mset (pl_threads p))"

lemma jobs_update:
  "i < length xs \<Longrightarrow> cw_arg y = cw_arg (xs ! i) \<Longrightarrow> image_mset cw_arg (mset (xs[i := y])) = image_mset cw_arg (mset xs)"
  by (simp add: mset_update image_mset_Diff)

lemma thread_entry_jobs:
  assumes "thread_entry i p = Some p'"
  shows "if thread_obs i p = Obs_tau then jobs p' = jobs p
    else \<exists>a. thread_obs i p = Obs_done a \<and> a \<in># jobs p \<and> jobs p' = jobs p - {#a#}"
proof -
  have i: "i < length (pl_threads p)" using assms by (simp add: thread_entry_def split: if_splits)
  then have "pl_threads p ! i \<in># mset (pl_threads p)" by simp
  with i assms show ?thesis
    by (auto simp: thread_entry_def thread_obs_def jobs_def jobs_update mset_remove_nth image_mset_Diff Let_def
        split: phase.splits)
qed

lemma connector_spawn_jobs:
  assumes "pool_ok 0 p" and "connector_spawn mem thr a p = (rc, p')"
  shows "spec_step (unat (cn_max_connections (pl_c p))) (jobs p) (Obs_spawn a rc) (jobs p')"
proof -
  have sz: "size (jobs p) + cn_slots (pl_c p) = unat (cn_max_connections (pl_c p))"
    using assms(1) by (simp add: pool_ok_def jobs_def)
  let ?n = "unat (cn_max_connections (pl_c p))"
  consider "cn_slots (pl_c p) = 0" "rc = NS_ERR_MAX_CONNECTIONS" "p' = p"
    | "cn_slots (pl_c p) \<noteq> 0" "rc \<in> {NS_ERR_NO_MEM, NS_ERR_THREAD}" "p' = p"
    | "cn_slots (pl_c p) \<noteq> 0" "rc = NS_OK" "jobs p' = add_mset a (jobs p)"
    using assms(2) by (auto simp: connector_spawn_result jobs_def split: if_splits)
  then show ?thesis
  proof cases
    case 1
    with sz spec_full [of "jobs p" ?n a] show ?thesis by simp
  next
    case 2
    with sz spec_fail [of "jobs p" ?n rc a] show ?thesis by simp
  next
    case 3
    with sz spec_accept [of "jobs p" ?n a] show ?thesis by simp
  qed
qed

lemma pool_step_sim:
  assumes "machine_ok n m" and "pool_step m ob m'"
  shows "if ob = Obs_tau then jobs (mc_pool m') = jobs (mc_pool m) else spec_step n (jobs (mc_pool m)) ob (jobs (mc_pool m'))"
  using assms(2)
proof cases
  case (step_spawn mem thr a rc p)
  with assms(1) connector_spawn_jobs [of "mc_pool m" mem thr a rc p] show ?thesis by (simp add: machine_ok_def)
next
  case (step_thread i p)
  show ?thesis
  proof (cases "ob = Obs_tau")
    case False
    with thread_entry_jobs [OF step_thread(3)] step_thread obtain a where
      a: "ob = Obs_done a" "a \<in># jobs (mc_pool m)" "jobs (mc_pool m') = jobs (mc_pool m) - {#a#}" by auto
    show ?thesis unfolding a(1,3) using spec_finish [OF a(2)] by simp
  qed (use thread_entry_jobs [OF step_thread(3)] step_thread in simp)
next
  case (step_wait i eintr j p)
  with assms(1) destroy_round_ok(5) [of "i - mc_eintr m" "mc_pool m" eintr i j p] show ?thesis
    by (simp add: machine_ok_def jobs_def)
qed simp

lemma pool_run_sim:
  "pool_run m tr m' \<Longrightarrow> machine_ok n m \<Longrightarrow> spec_run n (jobs (mc_pool m)) tr (jobs (mc_pool m'))"
proof (induction rule: pool_run.induct)
  case (run_step m tr m' ob m'')
  have "machine_ok n m'" using run_step by (blast intro: machine_ok_run)
  from pool_step_sim [OF this run_step(2)] run_step show ?case
    by (cases "ob = Obs_tau") (auto intro: spec_more)
qed (rule spec_refl)

text \<open>C16: The thread spawner refines a bounded job pool. Whatever the interleaving of spawns, of
  the steps of the connection threads and of a shutdown, everything observable (the code
  of each spawn and the end of each job) is a run of a multiset of at most
  \<^verbatim>\<open>max_connections\<close> jobs: a spawn is refused with NS_ERR_MAX_CONNECTIONS exactly when the
  pool is full, a failed one leaves it unchanged, and a job that ends frees its place.\<close>

theorem connector_refines_pool:
  assumes "connector_init w sz c0 = (NS_OK, c)" and "pool_run (start_machine c) tr m"
  shows "spec_run (unat w) {#} tr (jobs (mc_pool m)) \<and> size (jobs (mc_pool m)) \<le> unat w
    \<and> unat (cn_active (pl_c (mc_pool m))) = working (mc_pool m)"
proof -
  have ok: "machine_ok (unat w) (start_machine c)" using assms(1) by (rule machine_ok_start)
  have "spec_run (unat w) {#} tr (jobs (mc_pool m))"
    using pool_run_sim [OF assms(2) ok] by (simp add: start_machine_def jobs_def)
  moreover have "machine_ok (unat w) m" using assms(2) ok by (rule machine_ok_run)
  ultimately show ?thesis
    using assms(2) by (auto simp: machine_ok_def pool_ok_def jobs_def split: option.splits)
qed

section \<open>Waiting for the threads\<close>

fun phase_left :: "phase \<Rightarrow> nat" where
  "phase_left Ph_start = 3"
| "phase_left Ph_work = 2"
| "phase_left Ph_leave = 1"

definition steps_left :: "nat \<Rightarrow> 'a machine \<Rightarrow> nat" where
  "steps_left n m = sum_list (map (phase_left \<circ> cw_phase) (pl_threads (mc_pool m))) + (n - the (mc_wait m))"

lemma sum_list_remove_nth:
  "i < length xs \<Longrightarrow> sum_list (map f xs) = f (xs ! i) + sum_list (map f (remove_nth i xs))" for f :: "'a \<Rightarrow> nat"
proof -
  assume "i < length xs"
  then have "map f xs = map f (take i xs) @ f (xs ! i) # map f (drop (Suc i) xs)"
    by (metis id_take_nth_drop list.simps(9) map_append)
  then show ?thesis by (simp add: remove_nth_def)
qed

lemma remove_nth_update: "remove_nth i (xs[i := y]) = remove_nth i xs"
  by (simp add: remove_nth_def)

lemma thread_entry_left:
  assumes "thread_entry i p = Some p'"
  shows "sum_list (map (phase_left \<circ> cw_phase) (pl_threads p')) < sum_list (map (phase_left \<circ> cw_phase) (pl_threads p))"
proof -
  have i: "i < length (pl_threads p)" using assms by (simp add: thread_entry_def split: if_splits)
  show ?thesis
    using assms i sum_list_remove_nth [OF i, of "phase_left \<circ> cw_phase"]
      sum_list_remove_nth [of i "(pl_threads p)[i := y]" "phase_left \<circ> cw_phase" for y]
    by (auto simp: thread_entry_def Let_def remove_nth_update split: phase.splits)
qed

lemma destroy_step_decreases:
  assumes "machine_ok n m" and "mc_wait m = Some i" and "pool_step m ob m'"
  shows "(\<exists>j. mc_wait m' = Some j) \<and> steps_left n m' < steps_left n m"
  using assms(3)
proof cases
  case (step_thread k p)
  with assms(2) thread_entry_left [OF step_thread(3)] show ?thesis by (simp add: steps_left_def)
next
  case (step_wait k eintr j p)
  with assms destroy_round_ok [of "i - mc_eintr m" "mc_pool m" eintr i j p] show ?thesis
    by (simp add: steps_left_def machine_ok_def)
qed (simp_all add: assms(2))

lemma destroy_not_stuck:
  assumes "machine_ok n m" and "mc_wait m = Some i" and "\<not> destroyed m"
  shows "\<exists>ob m'. pool_step m ob m'"
proof (cases "pl_threads (mc_pool m)")
  case Nil
  from assms have "destroy_round False (i, mc_pool m) \<noteq> None"
    by (auto simp: Nil machine_ok_def destroyed_def pool_ok_def destroy_round_def sem_trywait_def)
  then obtain j p where "destroy_round False (i, mc_pool m) = Some (j, p)" by auto
  from step_wait [OF assms(2) this] show ?thesis by blast
next
  case (Cons w ws)
  then have "thread_entry 0 (mc_pool m) \<noteq> None" by (simp add: thread_entry_def Let_def)
  then obtain p where "thread_entry 0 (mc_pool m) = Some p" by blast
  from step_thread [OF this] show ?thesis by blast
qed

abbreviation mstep :: "'a machine \<Rightarrow> 'a machine \<Rightarrow> bool" where
  "mstep m m' \<equiv> \<exists>ob. pool_step m ob m'"

lemma destroy_run_bounded:
  "(mstep ^^ k) m m' \<Longrightarrow> machine_ok n m \<Longrightarrow> mc_wait m = Some i \<Longrightarrow> k + steps_left n m' \<le> steps_left n m"
proof (induction k arbitrary: m i)
  case (Suc k)
  from relpowp_Suc_D2 [OF Suc.prems(1)] obtain ob m1 where m1: "pool_step m ob m1" "(mstep ^^ k) m1 m'" by blast
  from destroy_step_decreases [OF Suc.prems(2,3) m1(1)] obtain j where
    "mc_wait m1 = Some j" "steps_left n m1 < steps_left n m" by blast
  with Suc.IH [OF m1(2) machine_ok_step [OF Suc.prems(2) m1(1)]] show ?case by fastforce
qed simp

lemma phase_left_bound: "sum_list (map (phase_left \<circ> cw_phase) ws) \<le> 3 * length ws"
proof (induction ws)
  case (Cons w ws)
  then show ?case by (cases "cw_phase w") simp_all
qed simp


text \<open>A signal that interrupts a wait is counted as a returned slot: with one slot, a thread
  still at work, and one interruption, \<^verbatim>\<open>connector_destroy\<close> returns at once.\<close>

lemma destroy_interrupted:
  assumes "connector_init 1 sz c0 = (NS_OK, c)"
  shows "\<exists>tr m. pool_run (start_machine c) tr m \<and> destroyed m \<and> pl_threads (mc_pool m) = [\<lparr>cw_phase = Ph_work, cw_arg = a\<rparr>]"
proof -
  have c: "cn_slots c = 1" "cn_max_connections c = 1"
    using assms by (auto simp: connector_init_def sem_init_def Let_def SEM_VALUE_MAX_def ns_err_defs)
  let ?p = "\<lambda>ph act. \<lparr>pl_c = c\<lparr>cn_slots := 0, cn_active := act\<rparr>, pl_threads = [\<lparr>cw_phase = ph, cw_arg = a\<rparr>]\<rparr>"
  let ?m0 = "start_machine c"
  have "pool_step ?m0 (Obs_spawn a NS_OK) (?m0\<lparr>mc_pool := ?p Ph_start (cn_active c)\<rparr>)" (is "pool_step _ _ ?m1")
    by (rule step_spawn [where mem = True and thr = True])
       (simp_all add: start_machine_def connector_spawn_result c)
  then have r1: "pool_run ?m0 [Obs_spawn a NS_OK] ?m1" using run_step [OF run_refl] by fastforce
  have "thread_entry 0 (mc_pool ?m1) = Some (?p Ph_work (cn_active c + 1))" by (simp add: thread_entry_def Let_def)
  from step_thread [OF this] have "pool_step ?m1 Obs_tau (?m1\<lparr>mc_pool := ?p Ph_work (cn_active c + 1)\<rparr>)" (is "pool_step _ _ ?m2")
    by (simp add: thread_obs_def Let_def)
  from run_step [OF r1 this] have r2: "pool_run ?m0 [Obs_spawn a NS_OK] ?m2" by simp
  have "pool_step ?m2 Obs_tau (?m2\<lparr>mc_wait := Some 0\<rparr>)" (is "pool_step _ _ ?m3")
    by (rule step_destroy) (simp add: start_machine_def)
  from run_step [OF r2 this] have r3: "pool_run ?m0 [Obs_spawn a NS_OK] ?m3" by simp
  have "destroy_round True (0, mc_pool ?m3) = Some (1, mc_pool ?m3)" by (simp add: destroy_round_def c)
  from run_step [OF r3 step_wait [OF _ this]] obtain tr m where
    "pool_run ?m0 tr m" "mc_wait m = Some 1" "mc_pool m = mc_pool ?m3" by fastforce
  then show ?thesis by (auto simp: destroyed_def c intro!: exI [of _ tr] exI [of _ m])
qed

section \<open>What the accept loop relies on\<close>

locale bounded_spawner =
  fixes spawn :: "bool \<Rightarrow> bool \<Rightarrow> 'a \<Rightarrow> 'p \<Rightarrow> ns_err \<times> 'p"
    and running :: "'p \<Rightarrow> 'a multiset"
  assumes spawn_ok: "spawn mem thr a p = (NS_OK, p') \<Longrightarrow> running p' = add_mset a (running p)"
    and spawn_err: "spawn mem thr a p = (rc, p') \<Longrightarrow> rc \<noteq> NS_OK \<Longrightarrow> p' = p"
begin

text \<open>After the call the argument belongs to a thread or to the caller again, never to both.\<close>

lemma handed_over:
  "spawn mem thr a p = (rc, p') \<Longrightarrow> running p' + (if rc = NS_OK then {#} else {#a#}) = add_mset a (running p)"
  using spawn_ok spawn_err by fastforce

end

interpretation conn: bounded_spawner connector_spawn jobs
  by unfold_locales (auto simp: connector_spawn_result jobs_def ns_err_defs split: if_splits)

section \<open>Examples\<close>

definition demo_connector :: connector where
  "demo_connector = \<lparr>cn_max_connections = 2, cn_stack_size = 262144, cn_slots = 2, cn_active = 0\<rparr>"

lemma demo_connector_init: "connector_init 2 262144 (demo_connector\<lparr>cn_slots := 0\<rparr>) = (NS_OK, demo_connector)"
  by (simp add: connector_init_def demo_connector_def sem_init_def SEM_VALUE_MAX_def Let_def)

theorem connector_refines_pool_witness:
  "connector_init 2 262144 (demo_connector\<lparr>cn_slots := 0\<rparr>) = (NS_OK, demo_connector)
   \<and> spec_run 2 {#} [Obs_spawn (5 :: nat) NS_ERR_NO_MEM] {#}"
proof -
  have "pool_step (start_machine demo_connector) (Obs_spawn (5 :: nat) NS_ERR_NO_MEM)
      (start_machine demo_connector\<lparr>mc_pool := mc_pool (start_machine demo_connector)\<rparr>)"
    by (rule step_spawn [where mem = False and thr = True])
       (simp_all add: start_machine_def demo_connector_def connector_spawn_result)
  from connector_refines_pool [OF demo_connector_init run_step [OF run_refl this]] demo_connector_init
  show ?thesis by (simp add: start_machine_def jobs_def)
qed


end
