(* ===== verification/Connection.thy ===== *)
theory Connection
  imports Threads Connector
begin

text \<open>
  The protocol vtable of \<^verbatim>\<open>protocol/protocol.h\<close> with its two instances, and the connection
  object and thread body of \<^verbatim>\<open>core/connection.c\<close>. A session is the object behind the
  \<^verbatim>\<open>void *\<close> of the vtable; what the sessions share is a \<open>proc\<close> record, and what one session
  gets from the kernel and from the other threads is an \<open>io\<close> record. The locale
  \<open>protocol_impl\<close> is the contract the header states for \<^verbatim>\<open>run_session\<close>; it is interpreted
  for telnet and for HTTP, and the thread body is proved against it.
\<close>

section \<open>The protocol vtable\<close>

datatype session = S_telnet telnet_session | S_http http_conn

record 'db proc =
  pr_w :: "'db chat_world"
  pr_online :: "32 word"
  pr_telnet :: reg_state
  pr_http :: reg_state

record 'db io =
  io_self :: nat
  io_now :: int
  io_tm :: tm
  io_mem :: bool
  io_turns :: "'db turn list"
  io_buf :: string
  io_reads :: "read_event list"
  io_drain :: "(int \<times> int) list"
  io_env :: "'db henv"

text \<open>The arguments of \<^verbatim>\<open>create_session\<close>: the socket, whether a peer address is given, whether
  memory is there, and what \<^verbatim>\<open>pipe2\<close> returns.\<close>

record 'db protocol_ops =
  po_name :: string
  po_description :: string
  po_create_session :: "sock \<Rightarrow> bool \<Rightarrow> bool \<Rightarrow> (fd \<times> fd) option \<Rightarrow> session option"
  po_run_session :: "'db io \<Rightarrow> 'db proc \<Rightarrow> session \<Rightarrow> ('db proc \<times> session) option"
  po_request_shutdown :: "session option \<Rightarrow> session option"
  po_shutdown_all :: "('db proc \<Rightarrow> 'db proc) option"

definition telnet_run :: "'db sqlite \<Rightarrow> 'db io \<Rightarrow> 'db proc \<Rightarrow> session \<Rightarrow> ('db proc \<times> session) option" where
  "telnet_run sq io p s =
     (case s of
        S_telnet t \<Rightarrow>
          (case telnet_run_session sq (io_self io) (io_now io) (io_turns io) (pr_telnet p)
              \<lparr>cx_s = t, cx_w = pr_w p, cx_online = pr_online p, cx_tm = io_tm io, cx_mem = io_mem io,
               cx_overread = False\<rparr> of
             None \<Rightarrow> None
           | Some (rg, cx) \<Rightarrow>
               Some (p\<lparr>pr_w := cx_w cx, pr_online := cx_online cx, pr_telnet := rg\<rparr>, S_telnet (cx_s cx)))
      | S_http c \<Rightarrow> None)"

definition http_run :: "'db sqlite \<Rightarrow> 'db io \<Rightarrow> 'db proc \<Rightarrow> session \<Rightarrow> ('db proc \<times> session) option" where
  "http_run sq io p s =
     (case s of
        S_telnet t \<Rightarrow> None
      | S_http c \<Rightarrow>
          (case http_run_session (http_dispatch sq (io_env io)) (io_self io) (io_buf io) (io_reads io) (io_drain io)
              (pr_http p) \<lparr>hx_c = c, hx_w = pr_w p\<rparr> of
             None \<Rightarrow> None
           | Some (rg, hx) \<Rightarrow> Some (p\<lparr>pr_w := hx_w hx, pr_http := rg\<rparr>, S_http (hx_c hx))))"

fun request_telnet :: "session option \<Rightarrow> session option" where
  "request_telnet (Some (S_telnet t)) = map_option S_telnet (telnet_request_shutdown (Some t))"
| "request_telnet s = s"

fun request_http :: "session option \<Rightarrow> session option" where
  "request_http (Some (S_http c)) = map_option S_http (http_request_shutdown (Some c))"
| "request_http s = s"

definition telnet_protocol :: "'db sqlite \<Rightarrow> 'db protocol_ops" where
  "telnet_protocol sq =
     \<lparr>po_name = ''telnet'', po_description = ''Telnet game server'',
      po_create_session = (\<lambda>sk peer mem pipe2. map_option S_telnet (telnet_create_session sq sk peer mem pipe2)),
      po_run_session = telnet_run sq, po_request_shutdown = request_telnet,
      po_shutdown_all = Some (\<lambda>p. p\<lparr>pr_telnet := telnet_shutdown_all (pr_telnet p)\<rparr>)\<rparr>"

definition http_protocol :: "'db sqlite \<Rightarrow> 'db protocol_ops" where
  "http_protocol sq =
     \<lparr>po_name = ''http'', po_description = ''HTTP REST + SSE chat API'',
      po_create_session = (\<lambda>sk peer mem pipe2. map_option S_http (http_create_session sk mem pipe2)),
      po_run_session = http_run sq, po_request_shutdown = request_http,
      po_shutdown_all = Some (\<lambda>p. p\<lparr>pr_http := http_shutdown_all (pr_http p)\<rparr>)\<rparr>"

definition protocol_registry :: "'db sqlite \<Rightarrow> 'db protocol_ops list" where
  "protocol_registry sq = [telnet_protocol sq]"

text \<open>The table of all linked protocols does not list the HTTP protocol.\<close>

lemma registry_lacks_http: "http_protocol sq \<notin> set (protocol_registry sq)"
  by (simp add: protocol_registry_def http_protocol_def telnet_protocol_def)

section \<open>The connection object\<close>

text \<open>The address family with the address in network order and the port; \<open>Sa_other\<close> is any
  family other than \<^verbatim>\<open>AF_INET\<close>, read as IPv6.\<close>

datatype sockaddr = Sa_in "byte list" "16 word" | Sa_other "byte list" "16 word"

definition join_dots :: "string list \<Rightarrow> string" where
  "join_dots parts = concat (map (\<lambda>s. CHR ''.'' # s) parts)"

text \<open>What \<^verbatim>\<open>inet_ntop\<close> leaves in a zeroed buffer of \<open>sz\<close> bytes: the text of the address if it
  fits with its NUL, nothing otherwise. The text of an IPv4 address is its dotted quad,
  that of an IPv6 address is the argument \<open>ntop6\<close>.\<close>

definition inet_ntop :: "nat \<Rightarrow> string \<Rightarrow> string" where
  "inet_ntop sz addr = (if length addr < sz then addr else [])"

definition dotted_quad :: "byte list \<Rightarrow> string" where
  "dotted_quad bs = tl (join_dots (map (show_nat \<circ> unat) (take 4 bs)))"

definition PEER_STR_SIZE :: nat where "PEER_STR_SIZE = 64"

record 'db connection =
  co_sockfd :: fd
  co_peer_addr :: sockaddr
  co_peer_str :: string
  co_proto :: "'db protocol_ops"
  co_connect_time :: int

definition peer_text :: "string \<Rightarrow> 16 word \<Rightarrow> string" where
  "peer_text addr port =
     (let s = inet_ntop (PEER_STR_SIZE - 8) addr; n = length s
      in s @ fst (snprintf (PEER_STR_SIZE - n) (CHR '':'' # show_nat (unat port))))"

definition connection_create ::
  "(byte list \<Rightarrow> string) \<Rightarrow> bool \<Rightarrow> int \<Rightarrow> fd \<Rightarrow> sockaddr \<Rightarrow> 'db protocol_ops \<Rightarrow> ns_err \<times> 'db connection option" where
  "connection_create ntop6 mem now sockfd peer proto =
     (if \<not> mem then (NS_ERR_NO_MEM, None)
      else (NS_OK, Some \<lparr>co_sockfd = sockfd, co_peer_addr = peer,
              co_peer_str = (case peer of Sa_in a port \<Rightarrow> peer_text (dotted_quad a) port
                                        | Sa_other a port \<Rightarrow> peer_text (ntop6 a) port),
              co_proto = proto, co_connect_time = now\<rparr>))"

section \<open>The thread body\<close>

definition sess_sock :: "session \<Rightarrow> sock" where
  "sess_sock s = (case s of S_telnet t \<Rightarrow> ts_sock t | S_http c \<Rightarrow> hc_sock c)"

definition sess_wfd :: "session \<Rightarrow> fd" where
  "sess_wfd s = (case s of S_telnet t \<Rightarrow> ts_notify_wfd t | S_http c \<Rightarrow> hc_notify_wfd c)"

text \<open>\<open>mem\<close> and \<open>pipe2\<close> are what the session's creation meets; \<open>others\<close> is what the other
  threads add to the counter while the session runs. \<open>None\<close>: the session is still running.\<close>

definition connection_run ::
  "'db io \<Rightarrow> bool \<Rightarrow> (fd \<times> fd) option \<Rightarrow> 32 word \<Rightarrow> 'db connection \<Rightarrow> sock \<Rightarrow> 32 word \<Rightarrow> 'db proc \<Rightarrow>
   (32 word \<times> 'db proc \<times> sock) option" where
  "connection_run io mem pipe2 others conn sk active p =
     (let active = active + 1
      in case po_create_session (co_proto conn) sk True mem pipe2 of
           None \<Rightarrow> Some (active + others - 1, p, sk\<lparr>sk_closed := True\<rparr>)
         | Some s \<Rightarrow>
             (case po_run_session (co_proto conn) io p s of
                None \<Rightarrow> None
              | Some (p, s) \<Rightarrow> Some (active + others - 1, p, sess_sock s)))"

section \<open>The contract of the vtable\<close>

text \<open>What a session with the descriptor \<open>wfd\<close> leaves of the process \<open>p\<close> it started in.\<close>

definition left_clean :: "'db proc \<Rightarrow> 'db proc \<Rightarrow> fd \<Rightarrow> bool" where
  "left_clean p p' wfd \<longleftrightarrow>
     (0 \<le> wfd \<longrightarrow> list_all (\<lambda>r. wfd \<notin> set (sub_fds r)) (w_rooms (pr_w p')) \<and> w_pipes (pr_w p') wfd = None)
     \<and> set (rg_head (pr_telnet p')) = set (rg_head (pr_telnet p))
     \<and> set (rg_head (pr_http p')) = set (rg_head (pr_http p))"

text \<open>When a session starts: the service is consistent, the new descriptor is subscribed
  nowhere, and the other threads keep to the interface of the service.\<close>

definition sess_pre :: "'db sqlite \<Rightarrow> ('db \<Rightarrow> chat_tables) \<Rightarrow> 'db io \<Rightarrow> 'db proc \<Rightarrow> session \<Rightarrow> bool" where
  "sess_pre sq tables io p s \<longleftrightarrow>
     app_inv tables (pr_w p) \<and> sub_only (sess_wfd s) None (pr_w p)
     \<and> (case s of
          S_telnet t \<Rightarrow> turns_ok (io_turns io) \<and> io_self io \<notin> set (rg_head (pr_telnet p))
        | S_http c \<Rightarrow> http_world sq tables (io_env io) \<and> open_conn c)"

locale protocol_impl =
  fixes ops :: "'db protocol_ops"
    and pre :: "'db io \<Rightarrow> 'db proc \<Rightarrow> session \<Rightarrow> bool"
  assumes run_clean: "po_create_session ops sk peer mem pipe2 = Some s \<Longrightarrow> pre io p s \<Longrightarrow>
      po_run_session ops io p s = Some (p', s') \<Longrightarrow> sk_closed (sess_sock s') \<and> left_clean p p' (pipe_wfd pipe2)"
    and create_fails: "po_create_session ops sk True mem pipe2 = None \<longleftrightarrow> \<not> mem"
begin

text \<open>The thread body closes the socket on both paths and gives back its count.\<close>

lemma body_clean:
  assumes "co_proto conn = ops"
    and "\<And>s. po_create_session ops sk True mem pipe2 = Some s \<Longrightarrow> pre io p s"
    and "connection_run io mem pipe2 others conn sk active p = Some (active', p', sk')"
  shows "sk_closed sk'" "active' = active + others" "\<not> mem \<Longrightarrow> p' = p"
    "mem \<Longrightarrow> left_clean p p' (pipe_wfd pipe2)"
proof -
  have "sk_closed sk' \<and> active' = active + others \<and> (if mem then left_clean p p' (pipe_wfd pipe2) else p' = p)"
  proof (cases "po_create_session ops sk True mem pipe2")
    case None
    with assms(1,3) create_fails [of sk mem pipe2] show ?thesis by (auto simp: connection_run_def Let_def)
  next
    case (Some s)
    with assms(1,3) obtain s' where s': "po_run_session ops io p s = Some (p', s')" "sk' = sess_sock s'"
      "active' = active + others" by (auto simp: connection_run_def Let_def split: option.splits)
    from run_clean [OF Some assms(2) [OF Some] s'(1)] s' Some create_fails [of sk mem pipe2] show ?thesis by auto
  qed
  then show "sk_closed sk'" "active' = active + others" "\<not> mem \<Longrightarrow> p' = p"
    "mem \<Longrightarrow> left_clean p p' (pipe_wfd pipe2)" by (auto split: if_splits)
qed

end

text \<open>A session keeps the pipe it was created with.\<close>

lemma telnet_loop_wfd:
  "turns_ok ts \<Longrightarrow> telnet_loop sq ts dl cx = Some cx' \<Longrightarrow> ts_notify_wfd (cx_s cx') = ts_notify_wfd (cx_s cx)"
proof (induction ts arbitrary: dl cx)
  case (Cons t ts)
  let ?r = "telnet_loop_iter sq (tu_poll t) dl (tu_env t cx)"
  have "env_step cx (tu_env t cx)" and ts: "turns_ok ts" using Cons.prems(1) by (simp_all add: turns_ok_def)
  then have "ts_notify_wfd (cx_s (loop_cx ?r)) = ts_notify_wfd (cx_s cx)"
    using guar_telnet_loop_iter [of sq "tu_env t cx" "tu_poll t" dl] by (auto simp: guar_def env_step_def)
  with Cons.IH [OF ts] Cons.prems(2) show ?case
    by (fastforce split: if_splits loop_result.splits prod.splits)
qed (simp split: if_splits)

lemma telnet_run_wfd:
  assumes "turns_ok turns" "telnet_run_session sq self now turns rg cx = Some (rg', cx')"
  shows "ts_notify_wfd (cx_s cx') = ts_notify_wfd (cx_s cx)"
proof -
  define cx1 where "cx1 = (if rg_stop (Telnet_Session.session_register self rg) self
    then on_session (\<lambda>s. s\<lparr>ts_shutdown_requested := True\<rparr>) cx else cx)"
  obtain cx2 where loop: "telnet_loop sq turns (now + TELNET_NEGO_TIMEOUT) (telnet_begin sq cx1) = Some cx2"
    and cx': "cx' = telnet_close (telnet_end_game sq cx2)"
    using assms(2) by (auto simp: telnet_run_session_def Let_def cx1_def split: option.splits)
  have "ts_notify_wfd (cx_s cx1) = ts_notify_wfd (cx_s cx)" by (simp add: cx1_def)
  with telnet_loop_wfd [OF assms(1) loop] guar_telnet_begin [of sq cx1] guar_telnet_end_game [of sq cx2] show ?thesis
    by (simp add: guar_def cx' telnet_close_def Let_def)
qed

lemma telnet_session_clean:
  assumes "telnet_create_session sq sk peer mem pipe2 = Some t" and "sess_pre sq tables io p (S_telnet t)"
    and "telnet_run sq io p (S_telnet t) = Some (p', s')"
  shows "sk_closed (sess_sock s') \<and> left_clean p p' (pipe_wfd pipe2)"
proof -
  let ?cx = "\<lparr>cx_s = t, cx_w = pr_w p, cx_online = pr_online p, cx_tm = io_tm io, cx_mem = io_mem io, cx_overread = False\<rparr>"
  obtain rg cx where run: "telnet_run_session sq (io_self io) (io_now io) (io_turns io) (pr_telnet p) ?cx = Some (rg, cx)"
    and p': "p' = p\<lparr>pr_w := cx_w cx, pr_online := cx_online cx, pr_telnet := rg\<rparr>" "s' = S_telnet (cx_s cx)"
    using assms(3) by (auto simp: telnet_run_def split: option.splits)
  have pre: "world_pre (pr_w p)" "sub_only (ts_notify_wfd t) None (pr_w p)" "turns_ok (io_turns io)"
    "io_self io \<notin> set (rg_head (pr_telnet p))"
    using assms(2) by (auto simp: sess_pre_def sess_wfd_def dest: app_inv_pre)
  have "ts_notify_wfd (cx_s cx) = pipe_wfd pipe2"
    using telnet_run_wfd [OF pre(3) run] assms(1)
    by (auto simp: telnet_create_session_def pipe_wfd_def Let_def split: if_splits option.splits)
  with telnet_run_clean [of sq sk peer mem pipe2 ?cx, OF _ _ _ _ pre(4,3) run] assms(1) pre show ?thesis
    by (simp add: left_clean_def p' sess_sock_def)
qed

interpretation telnet_impl: protocol_impl "telnet_protocol sq" "sess_pre sq tables" for sq tables
proof unfold_locales
  fix sk peer mem pipe2 s io p p' s'
  assume "po_create_session (telnet_protocol sq) sk peer mem pipe2 = Some s" "sess_pre sq tables io p s"
    "po_run_session (telnet_protocol sq) io p s = Some (p', s')"
  then show "sk_closed (sess_sock s') \<and> left_clean p p' (pipe_wfd pipe2)"
    by (auto simp: telnet_protocol_def dest: telnet_session_clean)
next
  fix sk mem pipe2
  show "(po_create_session (telnet_protocol sq) sk True mem pipe2 = None) = (\<not> mem)"
    by (simp add: telnet_protocol_def telnet_create_session_def Let_def)
qed

lemma http_session_clean:
  assumes "http_create_session sk mem pipe2 = Some c" and "sess_pre sq tables io p (S_http c)"
    and "http_run sq io p (S_http c) = Some (p', s')"
  shows "sk_closed (sess_sock s') \<and> left_clean p p' (pipe_wfd pipe2)"
proof -
  obtain rg hx where run: "http_run_session (http_dispatch sq (io_env io)) (io_self io) (io_buf io) (io_reads io) (io_drain io)
      (pr_http p) \<lparr>hx_c = c, hx_w = pr_w p\<rparr> = Some (rg, hx)"
    and p': "p' = p\<lparr>pr_w := hx_w hx, pr_http := rg\<rparr>" "s' = S_http (hx_c hx)"
    using assms(3) by (auto simp: http_run_def split: option.splits)
  have pre: "http_world sq tables (io_env io)" "app_inv tables (pr_w p)" "sub_only (hc_notify_wfd c) None (pr_w p)" "open_conn c"
    using assms(2) by (simp_all add: sess_pre_def sess_wfd_def)
  have c: "\<not> hc_overread c" "hc_notify_wfd c = pipe_wfd pipe2"
    using assms(1) by (auto simp: http_create_session_def pipe_wfd_def Let_def split: if_splits option.splits)
  from http_app.run_once [OF http_world.router_contract [OF pre(1)] run] c(1) pre
  have "rg_head rg = rg_head (pr_http p) \<and> hc_notify_wfd (hx_c hx) = hc_notify_wfd c \<and> sub_only (hc_notify_wfd (hx_c hx)) None (hx_w hx)
    \<and> (0 \<le> hc_notify_wfd (hx_c hx) \<longrightarrow> w_pipes (hx_w hx) (hc_notify_wfd (hx_c hx)) = None) \<and> sk_closed (hc_sock (hx_c hx))"
    by (metis hctx.select_convs(1,2))
  with c(2) show ?thesis
    by (auto simp: left_clean_def p' sess_sock_def sub_only_def subs_of_def list_all_length count_eq_zero_iff)
qed

interpretation http_impl: protocol_impl "http_protocol sq" "sess_pre sq tables" for sq tables
proof unfold_locales
  fix sk peer mem pipe2 s io p p' s'
  assume "po_create_session (http_protocol sq) sk peer mem pipe2 = Some s" "sess_pre sq tables io p s"
    "po_run_session (http_protocol sq) io p s = Some (p', s')"
  then show "sk_closed (sess_sock s') \<and> left_clean p p' (pipe_wfd pipe2)"
    by (auto simp: http_protocol_def dest: http_session_clean)
next
  fix sk mem pipe2
  show "(po_create_session (http_protocol sq) sk True mem pipe2 = None) = (\<not> mem)"
    by (simp add: http_protocol_def http_create_session_def Let_def)
qed

section \<open>Properties\<close>

text \<open>The peer text is never cut: the address leaves room for the colon and the port.\<close>

lemma show_port_length: "length (show_nat (unat (port :: 16 word))) \<le> 5"
proof -
  have "unat port < 10 ^ Suc 4" using unsigned_less [of port, where 'a = nat] by simp
  then show ?thesis using length_show_nat [of "unat port" 4] by simp
qed

lemma peer_text_whole:
  "length addr < PEER_STR_SIZE - 8 \<Longrightarrow> peer_text addr port = addr @ CHR '':'' # show_nat (unat port)"
  using show_port_length [of port] by (simp add: peer_text_def inet_ntop_def snprintf_def PEER_STR_SIZE_def)

lemma peer_text_fits: "length (peer_text addr port) < PEER_STR_SIZE"
  using show_port_length [of port] by (simp add: peer_text_def inet_ntop_def snprintf_def PEER_STR_SIZE_def)

text \<open>C22: The connection thread leaves nothing behind, for either protocol. When its body
  returns the socket is closed, also when no session could be created; the count of
  active connections is what the other threads made of it; the write end of the pipe the
  session was created with is closed and listed in no room; and both registries hold
  the sessions they held before. When no session could be created, the process is unchanged.\<close>

theorem connection_leaves_nothing:
  assumes "ops \<in> {telnet_protocol sq, http_protocol sq}"
    and "connection_create ntop6 True now fd peer ops = (NS_OK, Some conn)"
    and "\<And>s. po_create_session ops sk True mem pipe2 = Some s \<Longrightarrow> sess_pre sq tables io p s"
    and "connection_run io mem pipe2 others conn sk active p = Some (active', p', sk')"
  shows "sk_closed sk' \<and> active' = active + others
    \<and> (if mem then left_clean p p' (pipe_wfd pipe2) else p' = p)"
proof -
  have co: "co_proto conn = ops" using assms(2) by (auto simp: connection_create_def)
  show ?thesis
    using assms(1) telnet_impl.body_clean [OF _ _ assms(4), of sq tables] http_impl.body_clean [OF _ _ assms(4), of sq tables]
      assms(3) co by auto
qed

section \<open>Examples\<close>

definition demo_proc :: "chat_tables proc" where
  "demo_proc = \<lparr>pr_w = hx_w demo_hx, pr_online = 0, pr_telnet = demo_reg, pr_http = demo_reg\<rparr>"

definition demo_io :: "chat_tables io" where
  "demo_io = \<lparr>io_self = 3, io_now = 1000, io_tm = cx_tm demo_cx, io_mem = True, io_turns = demo_turns,
     io_buf = demo_buf, io_reads = [Read_closed], io_drain = [], io_env = demo_env\<rparr>"

definition demo_connection :: "chat_tables protocol_ops \<Rightarrow> chat_tables connection" where
  "demo_connection ops = the (snd (connection_create (\<lambda>_. []) True 1000 9 (Sa_in [127, 0, 0, 1] 4000) ops))"

lemma demo_connection_create:
  "connection_create (\<lambda>_. []) True 1000 9 (Sa_in [127, 0, 0, 1] 4000) ops = (NS_OK, Some (demo_connection ops))"
  by (simp add: demo_connection_def connection_create_def)

theorem connection_leaves_nothing_witness:
  "\<exists>active' p' sk'. connection_run demo_io True (Some (6, 7)) 2 (demo_connection (telnet_protocol ref_sqlite)) demo_sock 5 demo_proc
      = Some (active', p', sk') \<and> sk_closed sk' \<and> active' = 7
    \<and> w_pipes (pr_w demo_proc) 7 = Some 0 \<and> w_pipes (pr_w p') 7 = None \<and> left_clean demo_proc p' 7"
proof -
  let ?ops = "telnet_protocol ref_sqlite"
  have pre: "sess_pre ref_sqlite (\<lambda>t. t) demo_io demo_proc s"
    if "po_create_session ?ops demo_sock True True (Some (6, 7)) = Some s" for s
    using that demo_hx_ok(1,6) demo_turns_ok
    by (auto simp: telnet_protocol_def telnet_create_session_def sess_pre_def sess_wfd_def demo_proc_def demo_io_def
        demo_reg_def Let_def)
  obtain r where "connection_run demo_io True (Some (6, 7)) 2 (demo_connection ?ops) demo_sock 5 demo_proc = Some r"
  proof -
    obtain t where t: "telnet_create_session ref_sqlite demo_sock True True (Some (6, 7)) = Some t"
      by (simp add: telnet_create_session_def Let_def)
    have "co_proto (demo_connection ?ops) = ?ops" by (simp add: demo_connection_def connection_create_def)
    moreover have ends: "(telnet_loop ref_sqlite demo_turns dl cx = None) = False" for dl cx using demo_loop_ends [of dl cx] by auto
    have "telnet_run ref_sqlite demo_io demo_proc (S_telnet t) \<noteq> None"
      by (auto simp: ends telnet_run_def telnet_run_session_def demo_io_def Let_def split: option.splits)
    ultimately show ?thesis using t that
      by (auto simp: connection_run_def telnet_protocol_def Let_def)
  qed
  then obtain active' p' sk' where
    run: "connection_run demo_io True (Some (6, 7)) 2 (demo_connection ?ops) demo_sock 5 demo_proc = Some (active', p', sk')"
    by (cases r) auto
  have "w_pipes (pr_w demo_proc) 7 = Some 0" by (simp add: demo_proc_def demo_hx_def demo_init)
  with connection_leaves_nothing [OF _ demo_connection_create pre run] run show ?thesis
    by (auto simp: pipe_wfd_def left_clean_def)
qed

end
