(* ===== verification/Server.thy ===== *)
theory Server
  imports Connection
begin

text \<open>
  The server of \<^verbatim>\<open>core/server.c\<close>: signal flags, listeners, the accept loop and the shutdown.
  The main thread is a program counter over the steps of \<^verbatim>\<open>server_run\<close> and
  \<^verbatim>\<open>server_destroy\<close>; the connection threads are the threads of the connector, each with its
  place in \<^verbatim>\<open>connection_run\<close>. \<open>proc_step\<close> interleaves them with signals and with the
  registrations of the sessions. What the kernel answers is an argument of each step.
\<close>

section \<open>Data\<close>

definition SERVER_MAX_LISTENERS :: nat where "SERVER_MAX_LISTENERS = 8"

record 'db listener =
  ls_port :: "16 word"
  ls_proto :: "'db protocol_ops"
  ls_fd :: fd

text \<open>The places of \<^verbatim>\<open>connection_run\<close>: before it counts itself, inside \<^verbatim>\<open>run_session\<close>, after the
  socket was closed, and returned.\<close>

datatype run_stage = Run_new | Run_session | Run_closed | Run_done

record 'db job =
  jb_conn :: "'db connection"
  jb_stage :: run_stage

record 'db server =
  sv_listeners :: "'db listener list"
  sv_pool :: "'db job pool"
  sv_max_connections :: "32 word"
  sv_active_connections :: "32 word"

datatype signal = SIGINT | SIGTERM | SIGHUP | SIGPIPE

datatype disposition = Sig_default | Sig_ignore | Sig_handled

datatype main_pc = Pc_loop | Pc_select | Pc_accept nat "fd list"
  | Pc_exit | Pc_stop nat | Pc_drain nat | Pc_close nat | Pc_end

text \<open>\<open>ps_open\<close> are the listening and the accepted sockets the kernel holds open;
  \<open>ps_reloads\<close> counts the calls of \<^verbatim>\<open>server_reload\<close>, \<open>ps_eintr\<close> the interrupted waits of the
  shutdown.\<close>

record 'db process =
  ps_srv :: "'db server"
  ps_signals :: "signal \<Rightarrow> disposition"
  ps_shutdown :: bool
  ps_reload :: bool
  ps_reloads :: nat
  ps_open :: "fd set"
  ps_pc :: main_pc
  ps_eintr :: nat
  ps_shared :: "'db proc"

section \<open>Signals and setup\<close>

definition sig_handler :: "signal \<Rightarrow> 'db process \<Rightarrow> 'db process" where
  "sig_handler sig ps =
     (if sig = SIGINT \<or> sig = SIGTERM then ps\<lparr>ps_shutdown := True\<rparr>
      else if sig = SIGHUP then ps\<lparr>ps_reload := True\<rparr> else ps)"

definition server_install_signals :: "(signal \<Rightarrow> disposition) \<Rightarrow> signal \<Rightarrow> disposition" where
  "server_install_signals d =
     d(SIGINT := Sig_handled, SIGTERM := Sig_handled, SIGHUP := Sig_handled, SIGPIPE := Sig_ignore)"

definition zero_connector :: connector where
  "zero_connector = \<lparr>cn_max_connections = 0, cn_stack_size = 0, cn_slots = 0, cn_active = 0\<rparr>"

definition server_init :: "32 word \<Rightarrow> nat \<Rightarrow> ns_err \<times> 'db server" where
  "server_init max_conn stack_size =
     (case connector_init max_conn stack_size zero_connector of
        (rc, c) \<Rightarrow> (NS_RETURN_ON_ERROR rc NS_OK,
           \<lparr>sv_listeners = [], sv_pool = \<lparr>pl_c = c, pl_threads = []\<rparr>, sv_max_connections = max_conn,
            sv_active_connections = 0\<rparr>))"

text \<open>\<open>sock\<close>, \<open>bound\<close>, \<open>listening\<close>: what \<^verbatim>\<open>socket\<close>, \<^verbatim>\<open>bind\<close> and \<^verbatim>\<open>listen\<close> answer. The set is the
  open sockets.\<close>

definition server_add_listener ::
  "fd option \<Rightarrow> bool \<Rightarrow> bool \<Rightarrow> 16 word \<Rightarrow> 'db protocol_ops \<Rightarrow> 'db server \<times> fd set \<Rightarrow> ns_err \<times> 'db server \<times> fd set" where
  "server_add_listener sock bound listening port proto = (\<lambda>(srv, fds).
     if length (sv_listeners srv) \<ge> SERVER_MAX_LISTENERS then (NS_ERR_INVALID_STATE, srv, fds)
     else (case sock of
             None \<Rightarrow> (NS_ERR_BIND_FAILED, srv, fds)
           | Some fd \<Rightarrow>
               let fds = insert fd fds
               in if \<not> bound then (NS_ERR_BIND_FAILED, srv, fds - {fd})
                  else if \<not> listening then (NS_ERR_LISTEN_FAILED, srv, fds - {fd})
                  else (NS_OK, srv\<lparr>sv_listeners := sv_listeners srv @ [\<lparr>ls_port = port, ls_proto = proto, ls_fd = fd\<rparr>]\<rparr>, fds)))"

definition server_reload :: "'db process \<Rightarrow> 'db process" where
  "server_reload ps = ps\<lparr>ps_reloads := Suc (ps_reloads ps)\<rparr>"

definition server_shutdown :: "'db process \<Rightarrow> 'db process" where
  "server_shutdown ps = ps\<lparr>ps_shutdown := True\<rparr>"

section \<open>The accept loop\<close>

datatype select_res = Sel_eintr | Sel_error | Sel_ready "fd list"

datatype accept_res = Acc_error | Acc_conn fd sockaddr

text \<open>The answers one step may need: \<^verbatim>\<open>select\<close>, \<^verbatim>\<open>accept\<close>, the two allocations, \<^verbatim>\<open>pthread_create\<close>,
  the clock, and whether \<^verbatim>\<open>sem_wait\<close> is interrupted.\<close>

record kernel =
  k_select :: select_res
  k_accept :: accept_res
  k_conn_mem :: bool
  k_wrap_mem :: bool
  k_thread :: bool
  k_now :: int
  k_eintr :: bool

definition close_fd :: "fd \<Rightarrow> 'db process \<Rightarrow> 'db process" where
  "close_fd fd ps = ps\<lparr>ps_open := ps_open ps - {fd}\<rparr>"

definition on_pool :: "('db job pool \<Rightarrow> 'db job pool) \<Rightarrow> 'db process \<Rightarrow> 'db process" where
  "on_pool f ps = ps\<lparr>ps_srv := (ps_srv ps)\<lparr>sv_pool := f (sv_pool (ps_srv ps))\<rparr>\<rparr>"

text \<open>The body of the inner loop for a listener that is ready.\<close>

definition accept_one :: "(byte list \<Rightarrow> string) \<Rightarrow> kernel \<Rightarrow> 'db listener \<Rightarrow> 'db process \<Rightarrow> 'db process" where
  "accept_one ntop6 k l ps =
     (case k_accept k of
        Acc_error \<Rightarrow> ps
      | Acc_conn cfd peer \<Rightarrow>
          let ps = ps\<lparr>ps_open := insert cfd (ps_open ps)\<rparr>
          in case connection_create ntop6 (k_conn_mem k) (k_now k) cfd peer (ls_proto l) of
               (rc, None) \<Rightarrow> close_fd cfd ps
             | (rc, Some conn) \<Rightarrow>
                 if rc \<noteq> NS_OK then close_fd cfd ps
                 else (case connector_spawn (k_wrap_mem k) (k_thread k) \<lparr>jb_conn = conn, jb_stage = Run_new\<rparr>
                           (sv_pool (ps_srv ps)) of
                         (rc, pool) \<Rightarrow>
                           let ps = on_pool (\<lambda>_. pool) ps
                           in if rc \<noteq> NS_OK then close_fd cfd ps else ps))"

definition select_set :: "'db server \<Rightarrow> fd list" where
  "select_set srv = map ls_fd (sv_listeners srv)"

definition select_step :: "select_res \<Rightarrow> 'db process \<Rightarrow> 'db process" where
  "select_step r ps =
     (case r of
        Sel_eintr \<Rightarrow>
          let ps = (if ps_reload ps then (server_reload ps)\<lparr>ps_reload := False\<rparr> else ps)
          in ps\<lparr>ps_pc := Pc_loop\<rparr>
      | Sel_error \<Rightarrow> ps\<lparr>ps_pc := Pc_exit\<rparr>
      | Sel_ready fds \<Rightarrow> ps\<lparr>ps_pc := Pc_accept 0 (filter (\<lambda>f. f \<in> set (select_set (ps_srv ps))) fds)\<rparr>)"

text \<open>One step of \<^verbatim>\<open>server_run\<close>; \<open>None\<close> when the main thread is past it.\<close>

definition server_run_step :: "(byte list \<Rightarrow> string) \<Rightarrow> kernel \<Rightarrow> 'db process \<Rightarrow> 'db process option" where
  "server_run_step ntop6 k ps =
     (let ls = sv_listeners (ps_srv ps)
      in case ps_pc ps of
           Pc_loop \<Rightarrow> Some (ps\<lparr>ps_pc := if ps_shutdown ps then Pc_exit else Pc_select\<rparr>)
         | Pc_select \<Rightarrow> Some (select_step (k_select k) ps)
         | Pc_accept i fds \<Rightarrow>
             if i < length ls
             then (let ps = (if ls_fd (ls ! i) \<in> set fds then accept_one ntop6 k (ls ! i) ps else ps)
                   in Some (ps\<lparr>ps_pc := Pc_accept (Suc i) fds\<rparr>))
             else Some (ps\<lparr>ps_pc := Pc_loop\<rparr>)
         | _ \<Rightarrow> None)"

section \<open>The shutdown\<close>

definition stop_sessions :: "'db listener \<Rightarrow> 'db process \<Rightarrow> 'db process" where
  "stop_sessions l ps =
     (case po_shutdown_all (ls_proto l) of None \<Rightarrow> ps | Some f \<Rightarrow> ps\<lparr>ps_shared := f (ps_shared ps)\<rparr>)"

text \<open>One step of \<^verbatim>\<open>server_destroy\<close>; \<open>None\<close> when it blocks or has returned.\<close>

definition server_destroy_step :: "kernel \<Rightarrow> 'db process \<Rightarrow> 'db process option" where
  "server_destroy_step k ps =
     (let ls = sv_listeners (ps_srv ps)
      in case ps_pc ps of
           Pc_exit \<Rightarrow> Some (ps\<lparr>ps_pc := Pc_stop 0\<rparr>)
         | Pc_stop i \<Rightarrow>
             if i < length ls then Some ((stop_sessions (ls ! i) ps)\<lparr>ps_pc := Pc_stop (Suc i)\<rparr>)
             else Some (ps\<lparr>ps_pc := Pc_drain 0\<rparr>)
         | Pc_drain i \<Rightarrow>
             if i < unat (cn_max_connections (pl_c (sv_pool (ps_srv ps))))
             then (case destroy_round (k_eintr k) (i, sv_pool (ps_srv ps)) of
                     None \<Rightarrow> None
                   | Some (j, pool) \<Rightarrow>
                       Some ((on_pool (\<lambda>_. pool) ps)\<lparr>ps_pc := Pc_drain j,
                         ps_eintr := ps_eintr ps + (if k_eintr k then 1 else 0)\<rparr>))
             else Some (ps\<lparr>ps_pc := Pc_close 0\<rparr>)
         | Pc_close i \<Rightarrow>
             if i < length ls then Some ((close_fd (ls_fd (ls ! i)) ps)\<lparr>ps_pc := Pc_close (Suc i)\<rparr>)
             else Some (ps\<lparr>ps_pc := Pc_end\<rparr>)
         | _ \<Rightarrow> None)"

definition main_step :: "(byte list \<Rightarrow> string) \<Rightarrow> kernel \<Rightarrow> 'db process \<Rightarrow> 'db process option" where
  "main_step ntop6 k ps =
     (case server_run_step ntop6 k ps of Some ps \<Rightarrow> Some ps | None \<Rightarrow> server_destroy_step k ps)"

section \<open>Connection threads\<close>

definition set_stage :: "nat \<Rightarrow> run_stage \<Rightarrow> 'db job pool \<Rightarrow> 'db job pool" where
  "set_stage i st p =
     (let w = pl_threads p ! i
      in p\<lparr>pl_threads := (pl_threads p)[i := w\<lparr>cw_arg := (cw_arg w)\<lparr>jb_stage := st\<rparr>\<rparr>]\<rparr>)"

definition count_conn :: "32 word \<Rightarrow> 'db process \<Rightarrow> 'db process" where
  "count_conn d ps = ps\<lparr>ps_srv := (ps_srv ps)\<lparr>sv_active_connections := sv_active_connections (ps_srv ps) + d\<rparr>\<rparr>"

text \<open>One step of \<^verbatim>\<open>connection_run\<close> on thread \<open>i\<close>; \<open>created\<close>: whether \<^verbatim>\<open>create_session\<close> succeeds.
  A session that returns has closed its socket.\<close>

definition job_step :: "nat \<Rightarrow> bool \<Rightarrow> 'db process \<Rightarrow> 'db process option" where
  "job_step i created ps =
     (let ths = pl_threads (sv_pool (ps_srv ps))
      in if i < length ths \<and> cw_phase (ths ! i) = Ph_work
         then let job = cw_arg (ths ! i); fd = co_sockfd (jb_conn job)
              in case jb_stage job of
                   Run_new \<Rightarrow>
                     Some (if created then on_pool (set_stage i Run_session) (count_conn 1 ps)
                           else close_fd fd (on_pool (set_stage i Run_closed) (count_conn 1 ps)))
                 | Run_session \<Rightarrow> Some (close_fd fd (on_pool (set_stage i Run_closed) ps))
                 | Run_closed \<Rightarrow> Some (on_pool (set_stage i Run_done) (count_conn (-1) ps))
                 | Run_done \<Rightarrow> None
         else None)"

text \<open>One step of the trampoline; it leaves the work function only when that has returned.\<close>

definition thread_step :: "nat \<Rightarrow> 'db process \<Rightarrow> 'db process option" where
  "thread_step i ps =
     (let p = sv_pool (ps_srv ps)
      in if i < length (pl_threads p) \<and> cw_phase (pl_threads p ! i) = Ph_work
            \<and> jb_stage (cw_arg (pl_threads p ! i)) \<noteq> Run_done then None
         else map_option (\<lambda>p. on_pool (\<lambda>_. p) ps) (thread_entry i p))"

section \<open>Interleaving\<close>

definition kernel_ok :: "kernel \<Rightarrow> 'db process \<Rightarrow> bool" where
  "kernel_ok k ps \<longleftrightarrow> (case k_accept k of Acc_conn fd _ \<Rightarrow> fd \<notin> ps_open ps | Acc_error \<Rightarrow> True)"

text \<open>A step of the program: of the main thread or of a connection thread.\<close>

inductive work_step :: "(byte list \<Rightarrow> string) \<Rightarrow> 'db process \<Rightarrow> 'db process \<Rightarrow> bool" for ntop6 where
  work_main: "kernel_ok k ps \<Longrightarrow> main_step ntop6 k ps = Some ps' \<Longrightarrow> work_step ntop6 ps ps'"
| work_job: "job_step i created ps = Some ps' \<Longrightarrow> work_step ntop6 ps ps'"
| work_thread: "thread_step i ps = Some ps' \<Longrightarrow> work_step ntop6 ps ps'"

text \<open>What comes from outside: a signal, and a session that enters or leaves its registry.\<close>

inductive idle_step :: "'db process \<Rightarrow> 'db process \<Rightarrow> bool" where
  idle_signal: "ps_signals ps sig = Sig_handled \<Longrightarrow> idle_step ps (sig_handler sig ps)"
| idle_telnet: "op \<noteq> Op_shutdown \<Longrightarrow> idle_step ps (ps\<lparr>ps_shared := (ps_shared ps)\<lparr>pr_telnet :=
    apply_op Telnet_Session.session_register Telnet_Session.session_unregister telnet_shutdown_all op (pr_telnet (ps_shared ps))\<rparr>\<rparr>)"
| idle_http: "op \<noteq> Op_shutdown \<Longrightarrow> idle_step ps (ps\<lparr>ps_shared := (ps_shared ps)\<lparr>pr_http :=
    apply_op Http_Session.session_register Http_Session.session_unregister http_shutdown_all op (pr_http (ps_shared ps))\<rparr>\<rparr>)"

definition proc_step :: "(byte list \<Rightarrow> string) \<Rightarrow> 'db process \<Rightarrow> 'db process \<Rightarrow> bool" where
  "proc_step ntop6 ps ps' \<longleftrightarrow> work_step ntop6 ps ps' \<or> idle_step ps ps'"

section \<open>Who owns a socket\<close>

definition open_job :: "'db job \<Rightarrow> bool" where
  "open_job j \<longleftrightarrow> jb_stage j = Run_new \<or> jb_stage j = Run_session"

definition counted_job :: "'db job \<Rightarrow> bool" where
  "counted_job j \<longleftrightarrow> jb_stage j = Run_session \<or> jb_stage j = Run_closed"

definition job_fd :: "'db job \<Rightarrow> fd" where
  "job_fd j = co_sockfd (jb_conn j)"

definition job_fds :: "'db job multiset \<Rightarrow> fd multiset" where
  "job_fds J = image_mset job_fd (filter_mset open_job J)"

text \<open>The listeners that are still open.\<close>

fun left_open :: "main_pc \<Rightarrow> 'a list \<Rightarrow> 'a list" where
  "left_open (Pc_close i) ls = drop i ls"
| "left_open Pc_end ls = []"
| "left_open pc ls = ls"

definition open_listeners :: "'db process \<Rightarrow> 'db listener list" where
  "open_listeners ps = left_open (ps_pc ps) (sv_listeners (ps_srv ps))"

abbreviation pool_of :: "'db process \<Rightarrow> 'db job pool" where
  "pool_of ps \<equiv> sv_pool (ps_srv ps)"

definition held :: "'db process \<Rightarrow> fd multiset" where
  "held ps = mset (map ls_fd (open_listeners ps)) + job_fds (jobs (pool_of ps))"

fun stage_ok :: "'db job conn_wrap \<Rightarrow> bool" where
  "stage_ok w = (case cw_phase w of Ph_start \<Rightarrow> jb_stage (cw_arg w) = Run_new | Ph_work \<Rightarrow> True
     | Ph_leave \<Rightarrow> jb_stage (cw_arg w) = Run_done)"

text \<open>The slots \<^verbatim>\<open>connector_destroy\<close> holds at each place of the main thread.\<close>

fun wait_ok :: "nat \<Rightarrow> main_pc \<Rightarrow> nat \<Rightarrow> nat \<Rightarrow> bool" where
  "wait_ok n (Pc_drain i) e k = (e \<le> i \<and> i \<le> n \<and> k = i - e)"
| "wait_ok n (Pc_close i) e k = (e \<le> n \<and> k = n - e)"
| "wait_ok n Pc_end e k = (e \<le> n \<and> k = n - e)"
| "wait_ok n pc e k = (e = 0 \<and> k = 0)"

definition own_inv :: "'db process \<Rightarrow> bool" where
  "own_inv ps \<longleftrightarrow> finite (ps_open ps) \<and> mset_set (ps_open ps) = held ps
     \<and> unat (sv_active_connections (ps_srv ps)) = size (filter_mset counted_job (jobs (pool_of ps)))
     \<and> list_all stage_ok (pl_threads (pool_of ps))"

definition wait_inv :: "'db process \<Rightarrow> bool" where
  "wait_inv ps \<longleftrightarrow>
     (\<exists>k. pool_ok k (pool_of ps) \<and> wait_ok (unat (cn_max_connections (pl_c (pool_of ps)))) (ps_pc ps) (ps_eintr ps) k)"

lemma mset_set_remove: "finite A \<Longrightarrow> mset_set A = add_mset x H \<Longrightarrow> mset_set (A - {x}) = H"
  by (metis add_mset_remove_trivial finite_set_mset_mset_set mset_set.remove union_single_eq_member add_mset_add_single)

lemma jobs_at:
  assumes "i < length (pl_threads p)"
  obtains J where "jobs p = add_mset (cw_arg (pl_threads p ! i)) J"
    and "\<And>c y. jobs \<lparr>pl_c = c, pl_threads = (pl_threads p)[i := y]\<rparr> = add_mset (cw_arg y) J"
    and "\<And>c. jobs \<lparr>pl_c = c, pl_threads = remove_nth i (pl_threads p)\<rparr> = J"
proof -
  have "pl_threads p ! i \<in># mset (pl_threads p)" using assms by simp
  then obtain W where W: "mset (pl_threads p) = add_mset (pl_threads p ! i) W" by (blast dest: multi_member_split)
  show ?thesis
    by (rule that [of "image_mset cw_arg W"]) (use assms W in \<open>simp_all add: jobs_def mset_update mset_remove_nth\<close>)
qed

lemma jobs_threads: "pl_threads p = pl_threads q \<Longrightarrow> jobs p = jobs q"
  by (simp add: jobs_def)

lemma list_all_remove: "list_all P xs \<Longrightarrow> list_all P (remove_nth i xs)"
  by (auto simp: list_all_iff remove_nth_def dest: in_set_takeD in_set_dropD)

lemma own_inv_cong:
  assumes "own_inv ps" and "ps_open ps' = ps_open ps" and "open_listeners ps' = open_listeners ps"
    and "pl_threads (pool_of ps') = pl_threads (pool_of ps)"
    and "sv_active_connections (ps_srv ps') = sv_active_connections (ps_srv ps)"
  shows "own_inv ps'"
  using assms jobs_threads [OF assms(4)] by (simp add: own_inv_def held_def)

lemma on_pool_simps [simp]:
  "ps_open (on_pool f ps) = ps_open ps" "ps_pc (on_pool f ps) = ps_pc ps" "pool_of (on_pool f ps) = f (pool_of ps)"
  "sv_listeners (ps_srv (on_pool f ps)) = sv_listeners (ps_srv ps)" "ps_shared (on_pool f ps) = ps_shared ps"
  "sv_active_connections (ps_srv (on_pool f ps)) = sv_active_connections (ps_srv ps)"
  "ps_shutdown (on_pool f ps) = ps_shutdown ps" "ps_eintr (on_pool f ps) = ps_eintr ps"
  "open_listeners (on_pool f ps) = open_listeners ps"
  "ps_reload (on_pool f ps) = ps_reload ps" "ps_reloads (on_pool f ps) = ps_reloads ps" "ps_signals (on_pool f ps) = ps_signals ps"
  by (simp_all add: on_pool_def open_listeners_def)

lemma close_fd_simps [simp]:
  "ps_open (close_fd fd ps) = ps_open ps - {fd}" "ps_pc (close_fd fd ps) = ps_pc ps" "ps_srv (close_fd fd ps) = ps_srv ps"
  "ps_shared (close_fd fd ps) = ps_shared ps" "ps_shutdown (close_fd fd ps) = ps_shutdown ps"
  "ps_eintr (close_fd fd ps) = ps_eintr ps" "open_listeners (close_fd fd ps) = open_listeners ps"
  "ps_reload (close_fd fd ps) = ps_reload ps" "ps_reloads (close_fd fd ps) = ps_reloads ps" "ps_signals (close_fd fd ps) = ps_signals ps"
  by (simp_all add: close_fd_def open_listeners_def)

lemma count_conn_simps [simp]:
  "ps_open (count_conn d ps) = ps_open ps" "ps_pc (count_conn d ps) = ps_pc ps" "pool_of (count_conn d ps) = pool_of ps"
  "sv_listeners (ps_srv (count_conn d ps)) = sv_listeners (ps_srv ps)" "ps_shared (count_conn d ps) = ps_shared ps"
  "sv_active_connections (ps_srv (count_conn d ps)) = sv_active_connections (ps_srv ps) + d"
  "ps_shutdown (count_conn d ps) = ps_shutdown ps" "ps_eintr (count_conn d ps) = ps_eintr ps"
  "open_listeners (count_conn d ps) = open_listeners ps"
  "ps_reload (count_conn d ps) = ps_reload ps" "ps_reloads (count_conn d ps) = ps_reloads ps" "ps_signals (count_conn d ps) = ps_signals ps"
  by (simp_all add: count_conn_def open_listeners_def)

lemma set_stage_simps [simp]:
  "pl_c (set_stage i st p) = pl_c p" "length (pl_threads (set_stage i st p)) = length (pl_threads p)"
  by (simp_all add: set_stage_def Let_def)

text \<open>An accepted socket is owned by the new thread, or closed again.\<close>

lemma accept_one_own:
  assumes "own_inv ps" and "kernel_ok k ps"
  shows "own_inv (accept_one ntop6 k l ps)"
proof (cases "k_accept k")
  case Acc_error
  with assms(1) show ?thesis by (simp add: accept_one_def)
next
  case (Acc_conn cfd peer)
  with assms(2) have new: "cfd \<notin> ps_open ps" by (simp add: kernel_ok_def)
  let ?ps = "ps\<lparr>ps_open := insert cfd (ps_open ps)\<rparr>"
  have closed: "own_inv (close_fd cfd ?ps)"
    by (rule own_inv_cong [OF assms(1)]) (use new in \<open>simp_all add: open_listeners_def\<close>)
  show ?thesis
  proof (cases "k_conn_mem k")
    case False
    with closed show ?thesis by (simp add: accept_one_def Acc_conn connection_create_def Let_def)
  next
    case True
    then obtain conn where conn: "connection_create ntop6 True (k_now k) cfd peer (ls_proto l) = (NS_OK, Some conn)"
      "co_sockfd conn = cfd" by (simp add: connection_create_def)
    let ?job = "\<lparr>jb_conn = conn, jb_stage = Run_new\<rparr>"
    obtain rc pool where sp: "connector_spawn (k_wrap_mem k) (k_thread k) ?job (pool_of ps) = (rc, pool)" by fastforce
    have eq: "accept_one ntop6 k l ps = (if rc = NS_OK then on_pool (\<lambda>_. pool) ?ps else close_fd cfd (on_pool (\<lambda>_. pool) ?ps))"
      using True conn(1) sp by (simp add: accept_one_def Acc_conn Let_def)
    show ?thesis
    proof (cases "rc = NS_OK")
      case False
      then have "pool = pool_of ps" using conn.spawn_err [OF sp] by simp
      then have "own_inv (close_fd cfd (on_pool (\<lambda>_. pool) ?ps))"
        by (intro own_inv_cong [OF closed]) (simp_all add: open_listeners_def)
      with False eq show ?thesis by simp
    next
      case True
      then have "jobs pool = add_mset ?job (jobs (pool_of ps))" using conn.spawn_ok sp by simp
      moreover have "pl_threads pool = pl_threads (pool_of ps) @ [\<lparr>cw_phase = Ph_start, cw_arg = ?job\<rparr>]"
        using sp True by (auto simp: connector_spawn_result ns_err_defs split: if_splits)
      moreover have "open_listeners (on_pool (\<lambda>_. pool) ?ps) = open_listeners ps" by (simp add: open_listeners_def)
      ultimately have "own_inv (on_pool (\<lambda>_. pool) ?ps)"
        using assms(1) new conn(2)
        by (simp add: own_inv_def held_def job_fds_def open_job_def counted_job_def job_fd_def mset_set.insert)
      with True eq show ?thesis by simp
    qed
  qed
qed

lemma jobs_set_stage:
  assumes "i < length (pl_threads p)"
  obtains J where "jobs p = add_mset (cw_arg (pl_threads p ! i)) J"
    and "\<And>st. jobs (set_stage i st p) = add_mset ((cw_arg (pl_threads p ! i))\<lparr>jb_stage := st\<rparr>) J"
proof -
  obtain J where J: "jobs p = add_mset (cw_arg (pl_threads p ! i)) J"
    "\<And>c y. jobs \<lparr>pl_c = c, pl_threads = (pl_threads p)[i := y]\<rparr> = add_mset (cw_arg y) J"
    using jobs_at [OF assms] by metis
  have "jobs (set_stage i st p) = add_mset ((cw_arg (pl_threads p ! i))\<lparr>jb_stage := st\<rparr>) J" for st
    using J(2) [of "pl_c p" "(pl_threads p ! i)\<lparr>cw_arg := (cw_arg (pl_threads p ! i))\<lparr>jb_stage := st\<rparr>\<rparr>"]
    by (simp add: set_stage_def Let_def jobs_def)
  with J(1) that show ?thesis by blast
qed

lemma stage_ok_set:
  "list_all stage_ok (pl_threads p) \<Longrightarrow> i < length (pl_threads p) \<Longrightarrow> cw_phase (pl_threads p ! i) = Ph_work \<Longrightarrow>
   list_all stage_ok (pl_threads (set_stage i st p))"
  by (simp add: set_stage_def Let_def list_all_update)

lemma pool_ok_set_stage [simp]:
  assumes "i < length (pl_threads p)"
  shows "pool_ok k (set_stage i st p) = pool_ok k p"
  using filter_update_length [OF assms, of "\<lambda>w. cw_phase w = Ph_work"
      "(pl_threads p ! i)\<lparr>cw_arg := (cw_arg (pl_threads p ! i))\<lparr>jb_stage := st\<rparr>\<rparr>"]
  by (simp add: pool_ok_def working_def set_stage_def Let_def)

lemma wait_inv_size: "wait_inv ps \<Longrightarrow> size (jobs (pool_of ps)) \<le> unat (cn_max_connections (pl_c (pool_of ps)))"
  by (auto simp: wait_inv_def pool_ok_def jobs_def)

text \<open>The cases of a step of a connection thread.\<close>

lemma job_stepE:
  assumes "job_step i created ps = Some ps'"
  obtains "i < length (pl_threads (pool_of ps))" "cw_phase (pl_threads (pool_of ps) ! i) = Ph_work"
      "jb_stage (cw_arg (pl_threads (pool_of ps) ! i)) = Run_new"
      "ps' = on_pool (set_stage i Run_session) (count_conn 1 ps)"
  | "i < length (pl_threads (pool_of ps))" "cw_phase (pl_threads (pool_of ps) ! i) = Ph_work"
      "jb_stage (cw_arg (pl_threads (pool_of ps) ! i)) = Run_new"
      "ps' = close_fd (job_fd (cw_arg (pl_threads (pool_of ps) ! i))) (on_pool (set_stage i Run_closed) (count_conn 1 ps))"
  | "i < length (pl_threads (pool_of ps))" "cw_phase (pl_threads (pool_of ps) ! i) = Ph_work"
      "jb_stage (cw_arg (pl_threads (pool_of ps) ! i)) = Run_session"
      "ps' = close_fd (job_fd (cw_arg (pl_threads (pool_of ps) ! i))) (on_pool (set_stage i Run_closed) ps)"
  | "i < length (pl_threads (pool_of ps))" "cw_phase (pl_threads (pool_of ps) ! i) = Ph_work"
      "jb_stage (cw_arg (pl_threads (pool_of ps) ! i)) = Run_closed"
      "ps' = on_pool (set_stage i Run_done) (count_conn (-1) ps)"
  using assms
  by (auto simp: job_step_def job_fd_def Let_def split: if_splits run_stage.splits)

lemma job_step_frame:
  assumes "job_step i created ps = Some ps'"
  shows "ps_pc ps' = ps_pc ps" "ps_eintr ps' = ps_eintr ps" "ps_shutdown ps' = ps_shutdown ps" "ps_shared ps' = ps_shared ps"
    "sv_listeners (ps_srv ps') = sv_listeners (ps_srv ps)" "open_listeners ps' = open_listeners ps"
    "wait_inv ps' = wait_inv ps" "cn_max_connections (pl_c (pool_of ps')) = cn_max_connections (pl_c (pool_of ps))"
    "ps_signals ps' = ps_signals ps"
  using assms by (auto simp: wait_inv_def elim!: job_stepE)

lemma job_step_own:
  assumes "own_inv ps" and "wait_inv ps" and "job_step i created ps = Some ps'"
  shows "own_inv ps'"
proof -
  let ?p = "pool_of ps" let ?j = "cw_arg (pl_threads ?p ! i)"
  have i: "i < length (pl_threads ?p)" "cw_phase (pl_threads ?p ! i) = Ph_work" using assms(3) by (auto elim: job_stepE)
  obtain J where J: "jobs ?p = add_mset ?j J"
    "\<And>st. jobs (set_stage i st ?p) = add_mset (?j\<lparr>jb_stage := st\<rparr>) J" using jobs_set_stage [OF i(1)] by metis
  have inv: "finite (ps_open ps)" "mset_set (ps_open ps) = held ps" "list_all stage_ok (pl_threads ?p)"
    "unat (sv_active_connections (ps_srv ps)) = size (filter_mset counted_job (jobs ?p))" using assms(1) by (simp_all add: own_inv_def)
  have stage: "list_all stage_ok (pl_threads (set_stage i st ?p))" for st using stage_ok_set [OF inv(3) i] .
  have closed: "mset_set (ps_open ps - {job_fd ?j}) = mset (map ls_fd (open_listeners ps)) + job_fds J" if "open_job ?j"
    by (rule mset_set_remove [OF inv(1)]) (use inv(2) that in \<open>simp add: held_def J(1) job_fds_def\<close>)
  have inc: "unat (sv_active_connections (ps_srv ps) + 1) = Suc (size (filter_mset counted_job J))" if "\<not> counted_job ?j"
  proof -
    have "unat (sv_active_connections (ps_srv ps)) < unat (cn_max_connections (pl_c ?p))"
      using wait_inv_size [OF assms(2)] inv(4) that le_less_trans [OF size_filter_mset_lesseq [of counted_job J]] by (simp add: J(1))
    from unat_inc [OF this] inv(4) that show ?thesis by (simp add: J(1))
  qed
  have dec: "unat (sv_active_connections (ps_srv ps) - 1) = size (filter_mset counted_job J)" if "counted_job ?j"
    using unat_dec [of "sv_active_connections (ps_srv ps)"] inv(4) that by (simp add: J(1))
  from assms(3) show ?thesis
    by (cases rule: job_stepE; use inv stage closed inc dec in
        \<open>simp add: own_inv_def held_def J job_fds_def open_job_def counted_job_def job_fd_def\<close>)
qed

lemma thread_step_frame:
  assumes "thread_step i ps = Some ps'"
  shows "ps_pc ps' = ps_pc ps" "ps_eintr ps' = ps_eintr ps" "ps_shutdown ps' = ps_shutdown ps" "ps_shared ps' = ps_shared ps"
    "sv_listeners (ps_srv ps') = sv_listeners (ps_srv ps)" "open_listeners ps' = open_listeners ps" "ps_open ps' = ps_open ps"
    "sv_active_connections (ps_srv ps') = sv_active_connections (ps_srv ps)" "ps_signals ps' = ps_signals ps"
  using assms by (auto simp: thread_step_def Let_def split: if_splits)

lemma thread_step_wait:
  assumes "wait_inv ps" and "thread_step i ps = Some ps'"
  shows "wait_inv ps'" "cn_max_connections (pl_c (pool_of ps')) = cn_max_connections (pl_c (pool_of ps))"
proof -
  from assms(2) obtain p where p: "thread_entry i (pool_of ps) = Some p" "ps' = on_pool (\<lambda>_. p) ps"
    by (auto simp: thread_step_def Let_def split: if_splits)
  from assms(1) obtain k where k: "pool_ok k (pool_of ps)"
    "wait_ok (unat (cn_max_connections (pl_c (pool_of ps)))) (ps_pc ps) (ps_eintr ps) k" by (auto simp: wait_inv_def)
  from thread_entry_ok [OF k(1) p(1)] k(2)
  show "wait_inv ps'" "cn_max_connections (pl_c (pool_of ps')) = cn_max_connections (pl_c (pool_of ps))"
    by (auto simp: wait_inv_def p(2))
qed

lemma thread_step_own:
  assumes "own_inv ps" and "thread_step i ps = Some ps'"
  shows "own_inv ps'"
proof -
  let ?p = "pool_of ps" let ?w = "pl_threads ?p ! i"
  from assms(2) obtain p where p: "thread_entry i ?p = Some p" "ps' = on_pool (\<lambda>_. p) ps"
    and done_or: "cw_phase ?w = Ph_work \<Longrightarrow> i < length (pl_threads ?p) \<Longrightarrow> jb_stage (cw_arg ?w) = Run_done"
    by (auto simp: thread_step_def Let_def split: if_splits)
  have i: "i < length (pl_threads ?p)" using p(1) by (simp add: thread_entry_def split: if_splits)
  obtain J where J: "jobs ?p = add_mset (cw_arg ?w) J"
    "\<And>c y. jobs \<lparr>pl_c = c, pl_threads = (pl_threads ?p)[i := y]\<rparr> = add_mset (cw_arg y) J"
    "\<And>c. jobs \<lparr>pl_c = c, pl_threads = remove_nth i (pl_threads ?p)\<rparr> = J" using jobs_at [OF i] by metis
  have st: "list_all stage_ok (pl_threads ?p)" "stage_ok ?w" using assms(1) i by (simp_all add: own_inv_def list_all_length)
  show ?thesis
  proof (cases "cw_phase ?w")
    case Ph_leave
    with st have d: "jb_stage (cw_arg ?w) = Run_done" by simp
    have "pl_threads p = remove_nth i (pl_threads ?p)" using p(1) i Ph_leave by (auto simp: thread_entry_def Let_def)
    moreover from this J(3) have "jobs p = J" by (simp add: jobs_def)
    ultimately show ?thesis using assms(1) d st(1)
      by (simp add: own_inv_def held_def p(2) J(1) job_fds_def open_job_def counted_job_def list_all_remove)
  next
    case Ph_start
    then have "pl_threads p = (pl_threads ?p)[i := ?w\<lparr>cw_phase := Ph_work\<rparr>]" using p(1) i by (auto simp: thread_entry_def Let_def)
    moreover from this J(1,2) have "jobs p = jobs ?p" by (simp add: jobs_def)
    ultimately show ?thesis using assms(1) st(1) by (simp add: own_inv_def held_def p(2) list_all_update)
  next
    case Ph_work
    then have "pl_threads p = (pl_threads ?p)[i := ?w\<lparr>cw_phase := Ph_leave\<rparr>]" using p(1) i by (auto simp: thread_entry_def Let_def)
    moreover from this J(1,2) have "jobs p = jobs ?p" by (simp add: jobs_def)
    ultimately show ?thesis using assms(1) st(1) done_or [OF Ph_work i] by (simp add: own_inv_def held_def p(2) list_all_update)
  qed
qed

lemma accept_one_pool:
  obtains "pool_of (accept_one ntop6 k l ps) = pool_of ps"
  | job where "connector_spawn (k_wrap_mem k) (k_thread k) job (pool_of ps) = (NS_OK, pool_of (accept_one ntop6 k l ps))"
      "jb_stage job = Run_new" "co_proto (jb_conn job) = ls_proto l" "\<exists>peer. k_accept k = Acc_conn (job_fd job) peer"
proof (cases "k_accept k")
  case Acc_error
  with that(1) show ?thesis by (simp add: accept_one_def)
next
  case (Acc_conn cfd peer)
  show ?thesis
  proof (cases "k_conn_mem k")
    case False
    with that(1) show ?thesis by (simp add: accept_one_def Acc_conn connection_create_def Let_def)
  next
    case True
    then obtain conn where conn: "connection_create ntop6 True (k_now k) cfd peer (ls_proto l) = (NS_OK, Some conn)"
      "co_sockfd conn = cfd" "co_proto conn = ls_proto l"
      by (simp add: connection_create_def)
    let ?job = "\<lparr>jb_conn = conn, jb_stage = Run_new\<rparr>"
    obtain rc pool where sp: "connector_spawn (k_wrap_mem k) (k_thread k) ?job (pool_of ps) = (rc, pool)" by fastforce
    then have "pool_of (accept_one ntop6 k l ps) = pool"
      using True conn by (simp add: accept_one_def Acc_conn Let_def)
    with sp that(2) [of ?job] that(1) conn conn.spawn_err [OF sp] Acc_conn show ?thesis by (fastforce simp: job_fd_def)
  qed
qed

lemma accept_one_frame [simp]:
  "ps_pc (accept_one ntop6 k l ps) = ps_pc ps" "ps_eintr (accept_one ntop6 k l ps) = ps_eintr ps"
  "ps_shutdown (accept_one ntop6 k l ps) = ps_shutdown ps" "ps_shared (accept_one ntop6 k l ps) = ps_shared ps"
  "sv_listeners (ps_srv (accept_one ntop6 k l ps)) = sv_listeners (ps_srv ps)"
  "ps_reload (accept_one ntop6 k l ps) = ps_reload ps" "ps_reloads (accept_one ntop6 k l ps) = ps_reloads ps"
  "ps_signals (accept_one ntop6 k l ps) = ps_signals ps"
  by (simp_all add: accept_one_def Let_def split: accept_res.split prod.split option.split)

lemma accept_one_wait:
  "pool_ok k' (pool_of ps) \<Longrightarrow> pool_ok k' (pool_of (accept_one ntop6 k l ps))"
  "pool_ok k' (pool_of ps) \<Longrightarrow>
   cn_max_connections (pl_c (pool_of (accept_one ntop6 k l ps))) = cn_max_connections (pl_c (pool_of ps))"
  by (cases rule: accept_one_pool [of ntop6 k l ps]; use connector_spawn_ok in fastforce)+

lemma select_step_frame [simp]:
  "ps_eintr (select_step r ps) = ps_eintr ps" "ps_shutdown (select_step r ps) = ps_shutdown ps"
  "ps_shared (select_step r ps) = ps_shared ps" "ps_srv (select_step r ps) = ps_srv ps" "ps_open (select_step r ps) = ps_open ps"
  "ps_signals (select_step r ps) = ps_signals ps"
  by (simp_all add: select_step_def server_reload_def Let_def split: select_res.split)

lemma select_step_pc:
  "ps_pc (select_step r ps) = Pc_loop \<or> ps_pc (select_step r ps) = Pc_exit \<or> (\<exists>fds. ps_pc (select_step r ps) = Pc_accept 0 fds)"
  by (simp add: select_step_def server_reload_def Let_def split: select_res.split)

lemma stop_sessions_frame [simp]:
  "ps_pc (stop_sessions l ps) = ps_pc ps" "ps_eintr (stop_sessions l ps) = ps_eintr ps" "ps_open (stop_sessions l ps) = ps_open ps"
  "ps_shutdown (stop_sessions l ps) = ps_shutdown ps" "ps_srv (stop_sessions l ps) = ps_srv ps"
  "ps_signals (stop_sessions l ps) = ps_signals ps"
  by (simp_all add: stop_sessions_def split: option.split)

text \<open>The cases of a step of the main thread.\<close>

lemma main_stepE:
  assumes "main_step ntop6 k ps = Some ps'"
  obtains (loop) "ps_pc ps = Pc_loop" "ps' = ps\<lparr>ps_pc := if ps_shutdown ps then Pc_exit else Pc_select\<rparr>"
  | (selected) "ps_pc ps = Pc_select" "ps' = select_step (k_select k) ps"
  | (accepted) i fds where "ps_pc ps = Pc_accept i fds" "i < length (sv_listeners (ps_srv ps))"
      "ps' = (accept_one ntop6 k (sv_listeners (ps_srv ps) ! i) ps)\<lparr>ps_pc := Pc_accept (Suc i) fds\<rparr>"
  | (skipped) i fds where "ps_pc ps = Pc_accept i fds" "i < length (sv_listeners (ps_srv ps))" "ps' = ps\<lparr>ps_pc := Pc_accept (Suc i) fds\<rparr>"
  | (round) i fds where "ps_pc ps = Pc_accept i fds" "\<not> i < length (sv_listeners (ps_srv ps))" "ps' = ps\<lparr>ps_pc := Pc_loop\<rparr>"
  | (left) "ps_pc ps = Pc_exit" "ps' = ps\<lparr>ps_pc := Pc_stop 0\<rparr>"
  | (stop) i where "ps_pc ps = Pc_stop i" "i < length (sv_listeners (ps_srv ps))"
      "ps' = (stop_sessions (sv_listeners (ps_srv ps) ! i) ps)\<lparr>ps_pc := Pc_stop (Suc i)\<rparr>"
  | (stopped) i where "ps_pc ps = Pc_stop i" "\<not> i < length (sv_listeners (ps_srv ps))" "ps' = ps\<lparr>ps_pc := Pc_drain 0\<rparr>"
  | (wait) i j pool where "ps_pc ps = Pc_drain i" "i < unat (cn_max_connections (pl_c (pool_of ps)))"
      "destroy_round (k_eintr k) (i, pool_of ps) = Some (j, pool)"
      "ps' = (on_pool (\<lambda>_. pool) ps)\<lparr>ps_pc := Pc_drain j, ps_eintr := ps_eintr ps + (if k_eintr k then 1 else 0)\<rparr>"
  | (drained) i where "ps_pc ps = Pc_drain i" "\<not> i < unat (cn_max_connections (pl_c (pool_of ps)))" "ps' = ps\<lparr>ps_pc := Pc_close 0\<rparr>"
  | (close) i where "ps_pc ps = Pc_close i" "i < length (sv_listeners (ps_srv ps))"
      "ps' = (close_fd (ls_fd (sv_listeners (ps_srv ps) ! i)) ps)\<lparr>ps_pc := Pc_close (Suc i)\<rparr>"
  | (closed) i where "ps_pc ps = Pc_close i" "\<not> i < length (sv_listeners (ps_srv ps))" "ps' = ps\<lparr>ps_pc := Pc_end\<rparr>"
proof -
  note step = assms [unfolded main_step_def server_run_step_def server_destroy_step_def Let_def]
  show ?thesis
  proof (cases "ps_pc ps")
    case Pc_loop
    with step show ?thesis by (intro loop) simp_all
  next
    case Pc_select
    with step show ?thesis by (intro selected) simp_all
  next
    case (Pc_accept i fds)
    with step accepted [of i fds] skipped [of i fds] round [of i fds] show ?thesis by (simp split: if_splits)
  next
    case Pc_exit
    with step show ?thesis by (intro left) simp_all
  next
    case (Pc_stop i)
    with step stop [of i] stopped [of i] show ?thesis by (simp split: if_splits)
  next
    case (Pc_drain i)
    with step wait [of i] drained [of i] show ?thesis by (simp split: if_splits option.splits prod.splits)
  next
    case (Pc_close i)
    with step close [of i] closed [of i] show ?thesis by (simp split: if_splits)
  next
    case Pc_end
    with step show ?thesis by simp
  qed
qed

lemma own_inv_pc: "own_inv ps \<Longrightarrow> left_open pc (sv_listeners (ps_srv ps)) = open_listeners ps \<Longrightarrow> own_inv (ps\<lparr>ps_pc := pc\<rparr>)"
  by (rule own_inv_cong) (simp_all add: open_listeners_def)

lemma main_step_own:
  assumes "own_inv ps" and "wait_inv ps" and "kernel_ok k ps" and "main_step ntop6 k ps = Some ps'"
  shows "own_inv ps'"
  using assms(4)
proof (cases rule: main_stepE)
  case selected
  then show ?thesis
    using select_step_pc [of "k_select k" ps] assms(1)
    by (intro own_inv_cong [OF assms(1)]) (auto simp: open_listeners_def)
next
  case (accepted i fds)
  then show ?thesis
    using accept_one_own [OF assms(1,3)] by (simp add: own_inv_pc open_listeners_def)
next
  case (stop i)
  then show ?thesis by (intro own_inv_cong [OF assms(1)]) (simp_all add: open_listeners_def)
next
  case (wait i j pool)
  from assms(2) obtain k' where "pool_ok k' (pool_of ps)" by (auto simp: wait_inv_def)
  from destroy_round_ok(5) [OF this wait(3)] wait show ?thesis
    by (intro own_inv_cong [OF assms(1)]) (simp_all add: open_listeners_def)
next
  case (close i)
  let ?ls = "sv_listeners (ps_srv ps)"
  have "drop i ?ls = ?ls ! i # drop (Suc i) ?ls" using close(2) by (simp add: Cons_nth_drop_Suc)
  then have "mset_set (ps_open ps) = add_mset (ls_fd (?ls ! i)) (mset (map ls_fd (drop (Suc i) ?ls)) + job_fds (jobs (pool_of ps)))"
    using assms(1) close(1) by (simp add: own_inv_def held_def open_listeners_def)
  from mset_set_remove [OF _ this] assms(1) close show ?thesis
    by (simp add: own_inv_def held_def open_listeners_def)
qed (use assms(1) in \<open>auto intro!: own_inv_pc simp: open_listeners_def\<close>)

lemma main_step_wait:
  assumes "wait_inv ps" and "main_step ntop6 k ps = Some ps'"
  shows "wait_inv ps'" "cn_max_connections (pl_c (pool_of ps')) = cn_max_connections (pl_c (pool_of ps))"
proof -
  from assms(1) obtain n where n: "pool_ok n (pool_of ps)"
    "wait_ok (unat (cn_max_connections (pl_c (pool_of ps)))) (ps_pc ps) (ps_eintr ps) n" by (auto simp: wait_inv_def)
  from assms(2) have "wait_inv ps' \<and> cn_max_connections (pl_c (pool_of ps')) = cn_max_connections (pl_c (pool_of ps))"
  proof (cases rule: main_stepE)
    case selected
    then show ?thesis using n select_step_pc [of "k_select k" ps] by (auto simp: wait_inv_def)
  next
    case (accepted i fds)
    with n accept_one_wait [OF n(1)] show ?thesis by (auto simp: wait_inv_def)
  next
    case (wait i j pool)
    note r = destroy_round_ok [OF n(1) wait(3)]
    have "wait_ok (unat (cn_max_connections (pl_c pool))) (Pc_drain j) (ps_eintr ps + (if k_eintr k then 1 else 0))
       (n + (if k_eintr k then 0 else 1))" using n(2) wait r by auto
    with r wait show ?thesis by (auto simp: wait_inv_def simp del: wait_ok.simps)
  next
    case (drained i)
    with n show ?thesis by (auto simp: wait_inv_def)
  qed (use n in \<open>auto simp: wait_inv_def\<close>)
  then show "wait_inv ps'" "cn_max_connections (pl_c (pool_of ps')) = cn_max_connections (pl_c (pool_of ps))" by blast+
qed

section \<open>Stopping the sessions\<close>

fun stop_count :: "nat \<Rightarrow> main_pc \<Rightarrow> nat" where
  "stop_count n (Pc_stop i) = min i n"
| "stop_count n (Pc_drain i) = n"
| "stop_count n (Pc_close i) = n"
| "stop_count n Pc_end = n"
| "stop_count n pc = 0"

definition downs :: "'db sqlite \<Rightarrow> 'db listener list \<Rightarrow> nat \<Rightarrow> 'db proc \<Rightarrow> bool" where
  "downs sq ls n p \<longleftrightarrow> (\<forall>l \<in> set (take n ls).
     (ls_proto l = telnet_protocol sq \<longrightarrow> rg_down (pr_telnet p)) \<and> (ls_proto l = http_protocol sq \<longrightarrow> rg_down (pr_http p)))"

definition stop_inv :: "'db sqlite \<Rightarrow> 'db process \<Rightarrow> bool" where
  "stop_inv sq ps \<longleftrightarrow>
     flagged (pr_telnet (ps_shared ps)) \<and> flagged (pr_http (ps_shared ps))
     \<and> (\<forall>l \<in> set (sv_listeners (ps_srv ps)). ls_proto l \<in> {telnet_protocol sq, http_protocol sq})
     \<and> downs sq (sv_listeners (ps_srv ps)) (stop_count (length (sv_listeners (ps_srv ps))) (ps_pc ps)) (ps_shared ps)"

lemma protocols_differ: "telnet_protocol sq \<noteq> http_protocol sq"
  by (simp add: telnet_protocol_def http_protocol_def)

lemma stop_sessions_shared:
  assumes "ls_proto l \<in> {telnet_protocol sq, http_protocol sq}"
  shows "ps_shared (stop_sessions l ps) =
    (if ls_proto l = telnet_protocol sq then (ps_shared ps)\<lparr>pr_telnet := telnet_shutdown_all (pr_telnet (ps_shared ps))\<rparr>
     else (ps_shared ps)\<lparr>pr_http := http_shutdown_all (pr_http (ps_shared ps))\<rparr>)"
  using assms protocols_differ [of sq] by (auto simp: stop_sessions_def telnet_protocol_def http_protocol_def)

lemma stop_inv_step:
  assumes "stop_inv sq ps" and "ps_pc ps = Pc_stop i" and "i < length (sv_listeners (ps_srv ps))"
  shows "stop_inv sq ((stop_sessions (sv_listeners (ps_srv ps) ! i) ps)\<lparr>ps_pc := Pc_stop (Suc i)\<rparr>)"
proof -
  let ?ls = "sv_listeners (ps_srv ps)"
  have l: "ls_proto (?ls ! i) \<in> {telnet_protocol sq, http_protocol sq}" using assms by (simp add: stop_inv_def)
  have "set (take (Suc i) ?ls) = insert (?ls ! i) (set (take i ?ls))" using assms(3) by (simp add: take_Suc_conv_app_nth)
  moreover note stop_sessions_shared [OF l, of ps] telnet_reg.flagged_op [of "pr_telnet (ps_shared ps)" Op_shutdown]
    http_reg.flagged_op [of "pr_http (ps_shared ps)" Op_shutdown] telnet_reg.shutdown_members(2) http_reg.shutdown_members(2)
  ultimately show ?thesis using assms l protocols_differ [of sq]
    by (auto simp: stop_inv_def downs_def min_def split: if_splits)
qed

lemma stop_inv_main:
  assumes "stop_inv sq ps" and "main_step ntop6 k ps = Some ps'"
  shows "stop_inv sq ps'"
  using assms(2)
proof (cases rule: main_stepE)
  case (stop i)
  then show ?thesis using stop_inv_step [OF assms(1)] by simp
next
  case selected
  then show ?thesis using assms(1) select_step_pc [of "k_select k" ps] by (auto simp: stop_inv_def downs_def)
qed (use assms(1) in \<open>auto simp: stop_inv_def downs_def\<close>)

lemma stop_inv_idle:
  assumes "stop_inv sq ps" and "idle_step ps ps'"
  shows "stop_inv sq ps'"
  using assms(2)
proof cases
  case (idle_signal sig)
  with assms(1) show ?thesis by (simp add: stop_inv_def sig_handler_def)
next
  case (idle_telnet op)
  with assms(1) telnet_reg.flagged_op telnet_reg.down_op show ?thesis by (auto simp: stop_inv_def downs_def)
next
  case (idle_http op)
  with assms(1) http_reg.flagged_op http_reg.down_op show ?thesis by (auto simp: stop_inv_def downs_def)
qed

section \<open>Reachable states\<close>

definition server_ready :: "'db sqlite \<Rightarrow> 'db process \<Rightarrow> bool" where
  "server_ready sq ps \<longleftrightarrow>
     distinct (map ls_fd (sv_listeners (ps_srv ps))) \<and> ps_open ps = ls_fd ` set (sv_listeners (ps_srv ps))
     \<and> pool_ok 0 (pool_of ps) \<and> pl_threads (pool_of ps) = [] \<and> sv_active_connections (ps_srv ps) = 0
     \<and> ps_pc ps = Pc_loop \<and> ps_eintr ps = 0
     \<and> flagged (pr_telnet (ps_shared ps)) \<and> flagged (pr_http (ps_shared ps))
     \<and> (\<forall>l \<in> set (sv_listeners (ps_srv ps)). ls_proto l \<in> {telnet_protocol sq, http_protocol sq})"

definition proc_inv :: "'db sqlite \<Rightarrow> 'db listener list \<Rightarrow> 32 word \<Rightarrow> 'db process \<Rightarrow> bool" where
  "proc_inv sq ls m ps \<longleftrightarrow> own_inv ps \<and> wait_inv ps \<and> stop_inv sq ps
     \<and> sv_listeners (ps_srv ps) = ls \<and> cn_max_connections (pl_c (pool_of ps)) = m"

lemma proc_inv_ready:
  "server_ready sq ps \<Longrightarrow> proc_inv sq (sv_listeners (ps_srv ps)) (cn_max_connections (pl_c (pool_of ps))) ps"
  by (auto simp: server_ready_def proc_inv_def own_inv_def held_def open_listeners_def job_fds_def jobs_def wait_inv_def
      stop_inv_def downs_def mset_set_set simp flip: set_map)

lemma main_step_listeners:
  "main_step ntop6 k ps = Some ps' \<Longrightarrow> sv_listeners (ps_srv ps') = sv_listeners (ps_srv ps)"
  by (cases rule: main_stepE) auto

lemma work_step_inv:
  assumes "proc_inv sq ls m ps" and "work_step ntop6 ps ps'"
  shows "proc_inv sq ls m ps'"
  using assms(2)
proof cases
  case (work_main k)
  with assms(1) show ?thesis
    using main_step_own [of ps k ntop6 ps'] main_step_wait [of ps ntop6 k ps'] stop_inv_main [of sq ps ntop6 k ps']
      main_step_listeners [of ntop6 k ps ps'] by (simp add: proc_inv_def)
next
  case (work_job i created)
  note f = job_step_frame [OF work_job]
  from assms(1) job_step_own [OF _ _ work_job] f show ?thesis by (auto simp: proc_inv_def stop_inv_def)
next
  case (work_thread i)
  note f = thread_step_frame [OF work_thread]
  from assms(1) thread_step_own [OF _ work_thread] thread_step_wait [OF _ work_thread] f show ?thesis
    by (auto simp: proc_inv_def stop_inv_def)
qed

lemma idle_step_frame:
  assumes "idle_step ps ps'"
  shows "ps_srv ps' = ps_srv ps" "ps_open ps' = ps_open ps" "ps_pc ps' = ps_pc ps" "ps_eintr ps' = ps_eintr ps"
    "ps_shutdown ps \<Longrightarrow> ps_shutdown ps'"
  using assms by (cases rule: idle_step.cases; simp add: sig_handler_def)+

lemma idle_step_inv:
  assumes "proc_inv sq ls m ps" and "idle_step ps ps'"
  shows "proc_inv sq ls m ps'"
  using assms(1) idle_step_frame [OF assms(2)] stop_inv_idle [OF _ assms(2)]
  by (auto simp: proc_inv_def own_inv_def held_def open_listeners_def wait_inv_def)

lemma reach_inv:
  assumes "(proc_step ntop6)\<^sup>*\<^sup>* ps0 ps" and "server_ready sq ps0"
  shows "proc_inv sq (sv_listeners (ps_srv ps0)) (cn_max_connections (pl_c (pool_of ps0))) ps"
  using assms(1) by (induction rule: rtranclp_induct)
    (auto simp: proc_step_def proc_inv_ready [OF assms(2)] intro: work_step_inv idle_step_inv)

section \<open>Properties\<close>

text \<open>C15: Every socket has exactly one owner. In every reachable state of the server, whatever the
  interleaving of the accept loop, the connection threads and the signals, and whatever
  allocation or call fails, the open sockets are exactly the open listeners and the
  sockets of the connections that have not closed theirs yet, each once; there are never
  more connections than \<^verbatim>\<open>max_connections\<close>; and \<^verbatim>\<open>active_connections\<close> is the number of
  threads between their two updates of it.\<close>

theorem server_owns_sockets:
  assumes "server_ready sq ps0" and "(proc_step ntop6)\<^sup>*\<^sup>* ps0 ps"
  shows "finite (ps_open ps)
    \<and> mset_set (ps_open ps) = mset (map ls_fd (open_listeners ps)) + image_mset job_fd (filter_mset open_job (jobs (sv_pool (ps_srv ps))))
    \<and> size (jobs (sv_pool (ps_srv ps))) \<le> unat (cn_max_connections (pl_c (sv_pool (ps_srv ps0))))
    \<and> unat (sv_active_connections (ps_srv ps)) = size (filter_mset counted_job (jobs (sv_pool (ps_srv ps))))"
  using reach_inv [OF assms(2,1)] wait_inv_size [of ps] by (auto simp: proc_inv_def own_inv_def held_def job_fds_def)

text \<open>When \<^verbatim>\<open>server_destroy\<close> has returned, and no signal cut one of its waits short, no
  connection thread is left, every socket the server ever opened or accepted is closed,
  and the count of active connections is 0.\<close>

lemma server_end_state:
  assumes "proc_inv sq ls m ps" and "ps_pc ps = Pc_end" and "ps_eintr ps = 0"
  shows "pl_threads (pool_of ps) = []" "ps_open ps = {}" "sv_active_connections (ps_srv ps) = 0"
proof -
  show t: "pl_threads (pool_of ps) = []" using assms by (auto simp: proc_inv_def wait_inv_def pool_ok_def)
  then have "mset_set (ps_open ps) = {#}" "unat (sv_active_connections (ps_srv ps)) = 0" "finite (ps_open ps)"
    using assms by (simp_all add: proc_inv_def own_inv_def held_def open_listeners_def jobs_def job_fds_def)
  then show "ps_open ps = {}" "sv_active_connections (ps_srv ps) = 0" by (simp_all add: mset_set_empty_iff unat_eq_zero)
qed

text \<open>C34: Before the server waits for its threads it has told every session to stop. From the
  moment the wait begins, every session in the registry of a protocol that has a listener
  carries the stop flag, also one that registers during the wait.\<close>

theorem server_stops_sessions:
  assumes "server_ready sq ps0" and "(proc_step ntop6)\<^sup>*\<^sup>* ps0 ps" and "ps_pc ps = Pc_drain i" and "l \<in> set (sv_listeners (ps_srv ps0))"
  shows "(ls_proto l = telnet_protocol sq \<longrightarrow> list_all (rg_stop (pr_telnet (ps_shared ps))) (rg_head (pr_telnet (ps_shared ps))))
    \<and> (ls_proto l = http_protocol sq \<longrightarrow> list_all (rg_stop (pr_http (ps_shared ps))) (rg_head (pr_http (ps_shared ps))))"
  using reach_inv [OF assms(2,1)] assms(3,4) by (auto simp: proc_inv_def stop_inv_def downs_def flagged_def)

text \<open>A reload that is requested while the main thread is outside \<^verbatim>\<open>select\<close> waits for the next
  interrupted \<^verbatim>\<open>select\<close>: nothing else looks at the flag.\<close>

lemma reload_needs_interrupt:
  assumes "main_step ntop6 k ps = Some ps'" and "k_select k \<noteq> Sel_eintr"
  shows "ps_reload ps' = ps_reload ps" "ps_reloads ps' = ps_reloads ps"
  using assms(1)
  by (cases rule: main_stepE; use assms(2) in \<open>auto simp: select_step_def stop_sessions_def split: select_res.splits option.splits\<close>)+

section \<open>The shutdown ends\<close>

fun pc_weight :: "nat \<Rightarrow> nat \<Rightarrow> main_pc \<Rightarrow> nat" where
  "pc_weight n m Pc_end = 0"
| "pc_weight n m (Pc_close i) = (n - i) + 1"
| "pc_weight n m (Pc_drain i) = (m - i) + n + 2"
| "pc_weight n m (Pc_stop i) = (n - i) + m + n + 3"
| "pc_weight n m Pc_exit = m + 2 * n + 4"
| "pc_weight n m Pc_loop = m + 2 * n + 5"
| "pc_weight n m (Pc_accept i fds) = 7 * (n - i) + m + 2 * n + 6"
| "pc_weight n m Pc_select = 9 * n + m + 7"

fun stage_weight :: "run_stage \<Rightarrow> nat" where
  "stage_weight Run_new = 5"
| "stage_weight Run_session = 4"
| "stage_weight Run_closed = 3"
| "stage_weight Run_done = 2"

definition thread_weight :: "'db job conn_wrap \<Rightarrow> nat" where
  "thread_weight w = (case cw_phase w of Ph_start \<Rightarrow> 6 | Ph_work \<Rightarrow> stage_weight (jb_stage (cw_arg w)) | Ph_leave \<Rightarrow> 1)"

text \<open>The steps the process has left once the shutdown flag is up.\<close>

definition work_left :: "'db process \<Rightarrow> nat" where
  "work_left ps =
     pc_weight (length (sv_listeners (ps_srv ps))) (unat (cn_max_connections (pl_c (pool_of ps)))) (ps_pc ps)
     + sum_list (map thread_weight (pl_threads (pool_of ps)))"

lemma accept_one_left:
  "sum_list (map thread_weight (pl_threads (pool_of (accept_one ntop6 k l ps)))) \<le> sum_list (map thread_weight (pl_threads (pool_of ps))) + 6"
proof (cases rule: accept_one_pool [of ntop6 k l ps])
  case (2 job)
  then have "pl_threads (pool_of (accept_one ntop6 k l ps)) = pl_threads (pool_of ps) @ [\<lparr>cw_phase = Ph_start, cw_arg = job\<rparr>]"
    using arg_cong [of _ _ "pl_threads \<circ> snd"] by (fastforce simp: connector_spawn_result ns_err_defs split: if_splits)
  then show ?thesis by (simp add: thread_weight_def)
qed simp

lemma main_step_left:
  assumes "wait_inv ps" and "ps_shutdown ps" and "main_step ntop6 k ps = Some ps'"
  shows "work_left ps' < work_left ps"
proof -
  from assms(1) obtain n where n: "pool_ok n (pool_of ps)" by (auto simp: wait_inv_def)
  from assms(3) show ?thesis
  proof (cases rule: main_stepE)
    case selected
    then show ?thesis using select_step_pc [of "k_select k" ps] by (auto simp: work_left_def)
  next
    case (accepted i fds)
    with accept_one_left [of ntop6 k "sv_listeners (ps_srv ps) ! i" ps] accept_one_wait(2) [OF n, of ntop6 k "sv_listeners (ps_srv ps) ! i"]
    show ?thesis by (simp add: work_left_def)
  next
    case (wait i j pool)
    with destroy_round_ok [OF n wait(3)] show ?thesis by (simp add: work_left_def)
  qed (use assms(2) in \<open>auto simp: work_left_def\<close>)
qed

lemma sum_update_less:
  "i < length xs \<Longrightarrow> f y < f (xs ! i) \<Longrightarrow> sum_list (map f (xs[i := y])) < sum_list (map f xs)" for f :: "'a \<Rightarrow> nat"
  using sum_list_remove_nth [of i xs f] sum_list_remove_nth [of i "xs[i := y]" f] by (simp add: remove_nth_update)

lemma job_step_left:
  assumes "job_step i created ps = Some ps'"
  shows "work_left ps' < work_left ps"
proof -
  let ?p = "pool_of ps"
  have less: "sum_list (map thread_weight (pl_threads (set_stage i st ?p))) < sum_list (map thread_weight (pl_threads ?p))"
    if "i < length (pl_threads ?p)" "cw_phase (pl_threads ?p ! i) = Ph_work"
      "stage_weight st < stage_weight (jb_stage (cw_arg (pl_threads ?p ! i)))" for st
    unfolding set_stage_def Let_def using that by (auto intro!: sum_update_less simp: thread_weight_def)
  from assms show ?thesis
    by (cases rule: job_stepE) (use less job_step_frame [OF assms] in \<open>auto simp: work_left_def\<close>)
qed

lemma thread_step_left:
  assumes "own_inv ps" and "wait_inv ps" and "thread_step i ps = Some ps'"
  shows "work_left ps' < work_left ps"
proof -
  let ?p = "pool_of ps" let ?w = "pl_threads ?p ! i"
  from assms(3) obtain p where p: "thread_entry i ?p = Some p" "ps' = on_pool (\<lambda>_. p) ps"
    and done_or: "cw_phase ?w = Ph_work \<Longrightarrow> i < length (pl_threads ?p) \<Longrightarrow> jb_stage (cw_arg ?w) = Run_done"
    by (auto simp: thread_step_def Let_def split: if_splits)
  have i: "i < length (pl_threads ?p)" using p(1) by (simp add: thread_entry_def split: if_splits)
  have "stage_ok ?w" using assms(1) i by (simp add: own_inv_def list_all_length)
  have "sum_list (map thread_weight (pl_threads p)) < sum_list (map thread_weight (pl_threads ?p))"
  proof (cases "cw_phase ?w")
    case Ph_start
    then have "pl_threads p = (pl_threads ?p)[i := ?w\<lparr>cw_phase := Ph_work\<rparr>]" using p(1) i by (auto simp: thread_entry_def Let_def)
    with Ph_start i \<open>stage_ok ?w\<close> show ?thesis by (auto intro!: sum_update_less simp: thread_weight_def)
  next
    case Ph_work
    then have "pl_threads p = (pl_threads ?p)[i := ?w\<lparr>cw_phase := Ph_leave\<rparr>]" using p(1) i by (auto simp: thread_entry_def Let_def)
    with Ph_work i done_or show ?thesis by (auto intro!: sum_update_less simp: thread_weight_def)
  next
    case Ph_leave
    then have "pl_threads p = remove_nth i (pl_threads ?p)" using p(1) i by (auto simp: thread_entry_def Let_def)
    with Ph_leave sum_list_remove_nth [OF i, of thread_weight] show ?thesis by (simp add: thread_weight_def)
  qed
  with thread_step_wait(2) [OF assms(2,3)] thread_step_frame(1,5) [OF assms(3)] show ?thesis
    by (simp add: work_left_def p(2))
qed

lemma work_step_left:
  assumes "proc_inv sq ls m ps" and "ps_shutdown ps" and "work_step ntop6 ps ps'"
  shows "work_left ps' < work_left ps \<and> ps_shutdown ps'"
  using assms(3)
proof cases
  case (work_main k)
  have "ps_shutdown ps'" using work_main(2) by (cases rule: main_stepE) (use assms(2) in auto)
  with main_step_left [OF _ assms(2) work_main(2)] assms(1) show ?thesis by (simp add: proc_inv_def)
next
  case (work_job i created)
  with job_step_left job_step_frame assms(2) show ?thesis by blast
next
  case (work_thread i)
  with thread_step_left thread_step_frame assms(1,2) show ?thesis by (metis proc_inv_def)
qed

lemma never_stuck:
  assumes "proc_inv sq ls m ps" and "ps_pc ps \<noteq> Pc_end"
  shows "\<exists>ps'. work_step ntop6 ps ps'"
proof -
  define k where "k = \<lparr>k_select = Sel_eintr, k_accept = Acc_error, k_conn_mem = True, k_wrap_mem = True,
     k_thread = True, k_now = 0, k_eintr = False\<rparr>"
  have k: "kernel_ok k ps" by (simp add: kernel_ok_def k_def)
  show ?thesis
  proof (cases "\<exists>i. ps_pc ps = Pc_drain i \<and> i < unat (cn_max_connections (pl_c (pool_of ps))) \<and> pl_threads (pool_of ps) \<noteq> []")
    case True
    let ?w = "pl_threads (pool_of ps) ! 0"
    from True have z: "0 < length (pl_threads (pool_of ps))" by auto
    show ?thesis
    proof (cases "cw_phase ?w = Ph_work \<and> jb_stage (cw_arg ?w) \<noteq> Run_done")
      case True
      then have "job_step 0 True ps \<noteq> None" using z by (auto simp: job_step_def Let_def split: run_stage.split)
      then show ?thesis using work_job by blast
    next
      case False
      then have "thread_step 0 ps \<noteq> None" using z by (auto simp: thread_step_def thread_entry_def Let_def)
      then show ?thesis using work_thread by blast
    qed
  next
    case False
    from assms(1) obtain n where n: "pool_ok n (pool_of ps)" "wait_ok (unat (cn_max_connections (pl_c (pool_of ps)))) (ps_pc ps) (ps_eintr ps) n"
      by (auto simp: proc_inv_def wait_inv_def)
    have "main_step ntop6 k ps \<noteq> None"
    proof (cases "ps_pc ps")
      case (Pc_drain i)
      then show ?thesis using False n
        by (auto simp: main_step_def server_run_step_def server_destroy_step_def destroy_round_def sem_trywait_def pool_ok_def k_def Let_def)
    qed (use assms(2) in \<open>simp_all add: main_step_def server_run_step_def server_destroy_step_def Let_def\<close>)
    then show ?thesis using k work_main by blast
  qed
qed

text \<open>Runs with their number of steps; what comes from outside is not counted.\<close>

inductive counted_run :: "(byte list \<Rightarrow> string) \<Rightarrow> nat \<Rightarrow> 'db process \<Rightarrow> 'db process \<Rightarrow> bool" for ntop6 where
  cr_start: "counted_run ntop6 0 ps ps"
| cr_work: "counted_run ntop6 n ps ps' \<Longrightarrow> work_step ntop6 ps' ps'' \<Longrightarrow> counted_run ntop6 (Suc n) ps ps''"
| cr_idle: "counted_run ntop6 n ps ps' \<Longrightarrow> idle_step ps' ps'' \<Longrightarrow> counted_run ntop6 n ps ps''"

lemma counted_run_left:
  "counted_run ntop6 n ps ps' \<Longrightarrow> proc_inv sq ls m ps \<Longrightarrow> ps_shutdown ps \<Longrightarrow>
   proc_inv sq ls m ps' \<and> ps_shutdown ps' \<and> n + work_left ps' \<le> work_left ps"
proof (induction rule: counted_run.induct)
  case (cr_work n ps ps' ps'')
  with work_step_inv [of sq ls m ps' ntop6 ps''] work_step_left [of sq ls m ps' ntop6 ps''] show ?case by fastforce
next
  case (cr_idle n ps ps' ps'')
  with idle_step_inv [of sq ls m ps' ps''] idle_step_frame [of ps' ps''] show ?case by (simp add: work_left_def)
qed simp

text \<open>A shutdown signal ends the process, provided every session returns. From any reachable
  state with the shutdown flag up, every run makes at most a fixed number of steps of the
  program (counted from the listeners, the slots and the live threads), whatever further
  signals arrive; and as long as \<^verbatim>\<open>server_destroy\<close> has not returned some step of the program
  is possible, so the main thread gets there.\<close>

theorem server_shutdown_terminates:
  assumes "server_ready sq ps0" and "(proc_step ntop6)\<^sup>*\<^sup>* ps0 ps" and "ps_shutdown ps"
    and "counted_run ntop6 n ps ps'"
  shows "n \<le> work_left ps \<and> (ps_pc ps' = Pc_end \<or> (\<exists>ps''. work_step ntop6 ps' ps''))"
proof -
  note inv = reach_inv [OF assms(2,1)]
  from counted_run_left [OF assms(4) inv assms(3)] never_stuck [of sq _ _ ps' ntop6] show ?thesis by fastforce
qed

section \<open>Listeners\<close>

text \<open>Adding a listener succeeds whole or changes nothing. The answer is NS_OK exactly when the
  table has room and socket, bind and listen all succeed; then one entry with the port,
  the protocol and the socket is appended and the table stays within 8 entries. Every
  failure has its own code, leaves the table as it was and leaves no socket open.\<close>

theorem add_listener_all_or_nothing:
  assumes "server_add_listener sock bound lstn port proto (srv, fds) = (rc, srv', fds')"
    and "\<And>fd. sock = Some fd \<Longrightarrow> fd \<notin> fds"
  shows "if rc = NS_OK
    then length (sv_listeners srv) < SERVER_MAX_LISTENERS \<and> bound \<and> lstn
      \<and> (\<exists>fd. sock = Some fd \<and> fds' = insert fd fds
          \<and> srv' = srv\<lparr>sv_listeners := sv_listeners srv @ [\<lparr>ls_port = port, ls_proto = proto, ls_fd = fd\<rparr>]\<rparr>)
    else srv' = srv \<and> fds' = fds \<and> rc =
      (if SERVER_MAX_LISTENERS \<le> length (sv_listeners srv) then NS_ERR_INVALID_STATE
       else if sock = None \<or> \<not> bound then NS_ERR_BIND_FAILED else NS_ERR_LISTEN_FAILED)"
  using assms
  by (auto simp: server_add_listener_def ns_err_defs Let_def split: if_splits option.splits)

section \<open>Examples\<close>

text \<open>One telnet listener, one slot; the process gets SIGTERM and shuts down.\<close>

definition demo_server :: "chat_tables server" where
  "demo_server = \<lparr>sv_listeners = [\<lparr>ls_port = 23, ls_proto = telnet_protocol ref_sqlite, ls_fd = 3\<rparr>],
     sv_pool = \<lparr>pl_c = demo_connector\<lparr>cn_max_connections := 1, cn_slots := 1\<rparr>, pl_threads = []\<rparr>,
     sv_max_connections = 1, sv_active_connections = 0\<rparr>"

definition demo_process :: "chat_tables process" where
  "demo_process = \<lparr>ps_srv = demo_server, ps_signals = server_install_signals (\<lambda>_. Sig_default), ps_shutdown = False,
     ps_reload = False, ps_reloads = 0, ps_open = {3}, ps_pc = Pc_loop, ps_eintr = 0, ps_shared = demo_proc\<rparr>"

definition demo_kernel :: kernel where
  "demo_kernel = \<lparr>k_select = Sel_ready [], k_accept = Acc_error, k_conn_mem = True, k_wrap_mem = True,
     k_thread = True, k_now = 1000, k_eintr = False\<rparr>"

fun main_steps :: "kernel \<Rightarrow> nat \<Rightarrow> 'db process \<Rightarrow> 'db process option" where
  "main_steps k 0 ps = Some ps"
| "main_steps k (Suc n) ps = (case main_step (\<lambda>_. []) k ps of None \<Rightarrow> None | Some ps \<Rightarrow> main_steps k n ps)"

lemma main_steps_reach:
  "main_steps demo_kernel n ps = Some ps' \<Longrightarrow> (proc_step (\<lambda>_. []))\<^sup>*\<^sup>* ps ps'"
proof (induction n arbitrary: ps)
  case (Suc n)
  then obtain ps1 where ps1: "main_step (\<lambda>_. []) demo_kernel ps = Some ps1" "main_steps demo_kernel n ps1 = Some ps'"
    by (auto split: option.splits)
  have "proc_step (\<lambda>_. []) ps ps1"
    using ps1(1) work_main [of demo_kernel ps "\<lambda>_. []" ps1] by (simp add: proc_step_def kernel_ok_def demo_kernel_def)
  with Suc.IH [OF ps1(2)] show ?case by (simp add: converse_rtranclp_into_rtranclp)
qed simp

lemma demo_ready: "server_ready ref_sqlite demo_process"
  by (simp add: server_ready_def demo_process_def demo_server_def pool_ok_def working_def demo_connector_def flagged_def
      demo_proc_def demo_reg_def)

lemma demo_sigterm: "proc_step (\<lambda>_. []) demo_process (demo_process\<lparr>ps_shutdown := True\<rparr>)"
  using idle_signal [of demo_process SIGTERM]
  by (simp add: proc_step_def sig_handler_def demo_process_def server_install_signals_def)

lemma demo_process_simps:
  "sv_listeners (ps_srv demo_process) = [\<lparr>ls_port = 23, ls_proto = telnet_protocol ref_sqlite, ls_fd = 3\<rparr>]"
  "cn_max_connections (pl_c (pool_of demo_process)) = 1" "cn_slots (pl_c (pool_of demo_process)) = 1"
  "ps_eintr demo_process = 0" "ps_pc demo_process = Pc_loop"
  by (simp_all add: demo_process_def demo_server_def)

lemma main_step_simps:
  "ps_pc ps = Pc_loop \<Longrightarrow> main_step ntop6 k ps = Some (ps\<lparr>ps_pc := if ps_shutdown ps then Pc_exit else Pc_select\<rparr>)"
  "ps_pc ps = Pc_exit \<Longrightarrow> main_step ntop6 k ps = Some (ps\<lparr>ps_pc := Pc_stop 0\<rparr>)"
  "ps_pc ps = Pc_stop i \<Longrightarrow> main_step ntop6 k ps = Some (if i < length (sv_listeners (ps_srv ps))
     then (stop_sessions (sv_listeners (ps_srv ps) ! i) ps)\<lparr>ps_pc := Pc_stop (Suc i)\<rparr> else ps\<lparr>ps_pc := Pc_drain 0\<rparr>)"
  "ps_pc ps = Pc_drain i \<Longrightarrow> \<not> i < unat (cn_max_connections (pl_c (pool_of ps))) \<Longrightarrow>
     main_step ntop6 k ps = Some (ps\<lparr>ps_pc := Pc_close 0\<rparr>)"
  "ps_pc ps = Pc_drain i \<Longrightarrow> i < unat (cn_max_connections (pl_c (pool_of ps))) \<Longrightarrow> \<not> k_eintr k \<Longrightarrow> cn_slots (pl_c (pool_of ps)) = Suc v \<Longrightarrow>
     main_step ntop6 k ps = Some ((on_pool (\<lambda>p. p\<lparr>pl_c := (pl_c p)\<lparr>cn_slots := v\<rparr>\<rparr>) ps)\<lparr>ps_pc := Pc_drain (Suc i)\<rparr>)"
  "ps_pc ps = Pc_close i \<Longrightarrow> main_step ntop6 k ps = Some (if i < length (sv_listeners (ps_srv ps))
     then (close_fd (ls_fd (sv_listeners (ps_srv ps) ! i)) ps)\<lparr>ps_pc := Pc_close (Suc i)\<rparr> else ps\<lparr>ps_pc := Pc_end\<rparr>)"
  by (simp_all add: main_step_def server_run_step_def server_destroy_step_def destroy_round_def sem_trywait_def on_pool_def Let_def)

lemma demo_main_steps:
  "\<exists>ps. main_steps demo_kernel 4 (demo_process\<lparr>ps_shutdown := True\<rparr>) = Some ps \<and> ps_pc ps = Pc_drain 0"
  "\<exists>ps. main_steps demo_kernel 8 (demo_process\<lparr>ps_shutdown := True\<rparr>) = Some ps \<and> ps_pc ps = Pc_end \<and> ps_open ps = {}"
proof -
  have k: "\<not> k_eintr demo_kernel" by (simp add: demo_kernel_def)
  show "\<exists>ps. main_steps demo_kernel 4 (demo_process\<lparr>ps_shutdown := True\<rparr>) = Some ps \<and> ps_pc ps = Pc_drain 0"
    by (simp add: eval_nat_numeral main_step_simps demo_process_simps)
  have "ps_open demo_process = {3}" by (simp add: demo_process_def)
  then show "\<exists>ps. main_steps demo_kernel 8 (demo_process\<lparr>ps_shutdown := True\<rparr>) = Some ps \<and> ps_pc ps = Pc_end \<and> ps_open ps = {}"
    using k by (simp add: eval_nat_numeral main_step_simps demo_process_simps)
qed

lemma demo_reach:
  "main_steps demo_kernel n (demo_process\<lparr>ps_shutdown := True\<rparr>) = Some ps \<Longrightarrow> (proc_step (\<lambda>_. []))\<^sup>*\<^sup>* demo_process ps"
  using main_steps_reach demo_sigterm by (blast intro: converse_rtranclp_into_rtranclp)

theorem server_owns_sockets_witness:
  "\<exists>ps. main_steps demo_kernel 4 (demo_process\<lparr>ps_shutdown := True\<rparr>) = Some ps \<and> ps_pc ps = Pc_drain 0
    \<and> size (jobs (sv_pool (ps_srv ps))) \<le> 1"
proof -
  obtain ps where ps: "main_steps demo_kernel 4 (demo_process\<lparr>ps_shutdown := True\<rparr>) = Some ps" "ps_pc ps = Pc_drain 0"
    using demo_main_steps(1) by blast
  from server_owns_sockets [OF demo_ready demo_reach [OF ps(1)]] ps show ?thesis
    by (simp add: demo_process_def demo_server_def)
qed

theorem server_stops_sessions_witness:
  "\<exists>ps. main_steps demo_kernel 4 (demo_process\<lparr>ps_shutdown := True\<rparr>) = Some ps
    \<and> list_all (rg_stop (pr_telnet (ps_shared ps))) (rg_head (pr_telnet (ps_shared ps)))"
proof -
  obtain ps where ps: "main_steps demo_kernel 4 (demo_process\<lparr>ps_shutdown := True\<rparr>) = Some ps" "ps_pc ps = Pc_drain 0"
    using demo_main_steps(1) by blast
  from server_stops_sessions [OF demo_ready demo_reach [OF ps(1)] ps(2),
      of "\<lparr>ls_port = 23, ls_proto = telnet_protocol ref_sqlite, ls_fd = 3\<rparr>"] ps(1)
  show ?thesis by (simp add: demo_process_def demo_server_def)
qed

theorem server_shutdown_terminates_witness:
  "\<exists>ps. work_step (\<lambda>_. []) (demo_process\<lparr>ps_shutdown := True\<rparr>) ps"
proof -
  let ?ps = "demo_process\<lparr>ps_shutdown := True\<rparr>"
  have "(proc_step (\<lambda>_. []))\<^sup>*\<^sup>* demo_process ?ps" using demo_sigterm by simp
  from server_shutdown_terminates [OF demo_ready this _ cr_start] show ?thesis by (simp add: demo_process_def)
qed

theorem add_listener_all_or_nothing_witness:
  "server_add_listener (Some 4) True False 8080 (http_protocol ref_sqlite) (demo_server, {3}) =
     (NS_ERR_LISTEN_FAILED, demo_server, {3})"
proof -
  obtain rc srv fds where r: "server_add_listener (Some 4) True False 8080 (http_protocol ref_sqlite) (demo_server, {3}) = (rc, srv, fds)"
    by (metis prod.collapse)
  from add_listener_all_or_nothing [OF r] show ?thesis
    unfolding r by (auto simp: demo_server_def SERVER_MAX_LISTENERS_def split: if_splits)
qed

end
