(* ===== verification/Startup.thy ===== *)
theory Startup
  imports Server
begin

text \<open>
  The start of the process: \<^verbatim>\<open>core/args.c\<close>, \<^verbatim>\<open>core/priv.c\<close> and \<^verbatim>\<open>main.c\<close>. GNU argp is the
  sequence of calls it makes of \<^verbatim>\<open>parse_opt\<close>; the operating system's user database and its
  credential calls are an \<open>os\<close> record of functions, with what the manual pages promise as
  the predicate \<open>posix_ids\<close>. \<open>main_start\<close> is \<^verbatim>\<open>main\<close> up to the call of \<^verbatim>\<open>server_run\<close>; its result
  is a state from which the steps of the server start.
\<close>

section \<open>Command line\<close>

record server_args =
  ar_port :: "16 word"
  ar_http_port :: "16 word"
  ar_max_conn :: "32 word"
  ar_stack_kb :: "32 word"
  ar_drop_user :: "string option"
  ar_foreground :: bool

text \<open>\<^verbatim>\<open>argp_error\<close> prints a message and ends the process.\<close>

datatype opt_result = Opt_ok server_args | Opt_unknown | Opt_exit

datatype opt_key = Key_option char | Key_end | Key_other

text \<open>The option table: \<open>op_arg\<close> is the name of the argument in the help text, \<open>None\<close> for an option
  without one.\<close>

record argp_option =
  op_name :: string
  op_key :: char
  op_arg :: "string option"
  op_doc :: string

definition options :: "argp_option list" where
  "options =
     [\<lparr>op_name = ''port'', op_key = CHR ''p'', op_arg = Some ''PORT'', op_doc = ''Telnet listen port (default: 23)''\<rparr>,
      \<lparr>op_name = ''http-port'', op_key = CHR ''H'', op_arg = Some ''PORT'', op_doc = ''HTTP API port, 0 disables (default: 8080)''\<rparr>,
      \<lparr>op_name = ''max-conn'', op_key = CHR ''n'', op_arg = Some ''N'', op_doc = ''Max concurrent connections (default: 2000)''\<rparr>,
      \<lparr>op_name = ''stack'', op_key = CHR ''s'', op_arg = Some ''KB'', op_doc = ''Per-connection stack size in KB (default: 256)''\<rparr>,
      \<lparr>op_name = ''user'', op_key = CHR ''u'', op_arg = Some ''USER'', op_doc = ''Drop privileges to USER after bind''\<rparr>,
      \<lparr>op_name = ''foreground'', op_key = CHR ''f'', op_arg = None, op_doc = ''Run in foreground (default: yes)''\<rparr>]"

definition parse_opt :: "opt_key \<Rightarrow> string \<Rightarrow> server_args \<Rightarrow> opt_result" where
  "parse_opt key arg a =
     (case key of
        Key_option c \<Rightarrow>
          if c = CHR ''p'' then
            let v = fst (strtol arg)
            in if v \<le> 0 \<or> v > 65535 then Opt_exit else Opt_ok (a\<lparr>ar_port := of_int v\<rparr>)
          else if c = CHR ''H'' then
            let v = fst (strtol arg)
            in if v < 0 \<or> v > 65535 then Opt_exit else Opt_ok (a\<lparr>ar_http_port := of_int v\<rparr>)
          else if c = CHR ''n'' then
            let v = fst (strtol arg)
            in if v \<le> 0 \<or> v > 100000 then Opt_exit else Opt_ok (a\<lparr>ar_max_conn := of_int v\<rparr>)
          else if c = CHR ''s'' then
            let v = fst (strtol arg)
            in if v < 64 \<or> v > 8192 then Opt_exit else Opt_ok (a\<lparr>ar_stack_kb := of_int v\<rparr>)
          else if c = CHR ''u'' then Opt_ok (a\<lparr>ar_drop_user := Some arg\<rparr>)
          else if c = CHR ''f'' then Opt_ok (a\<lparr>ar_foreground := True\<rparr>)
          else Opt_unknown
      | Key_end \<Rightarrow> Opt_ok a
      | Key_other \<Rightarrow> Opt_unknown)"

text \<open>What argp does in one call: an option with its argument, a positional argument (which no
  parser takes, so argp ends the process), the end, one of its other keys, or an internal
  failure that makes it return an error code.\<close>

datatype argp_call = Call_option char string | Call_positional string | Call_end | Call_key | Call_failure

datatype argp_result = Argp_exit | Argp_rc bool server_args

primrec argp_parse :: "argp_call list \<Rightarrow> server_args \<Rightarrow> argp_result" where
  "argp_parse [] a = Argp_rc True a"
| "argp_parse (c # cs) a =
     (case c of
        Call_option opt arg \<Rightarrow>
          (case parse_opt (Key_option opt) arg a of
             Opt_ok a \<Rightarrow> argp_parse cs a | Opt_unknown \<Rightarrow> Argp_exit | Opt_exit \<Rightarrow> Argp_exit)
      | Call_positional arg \<Rightarrow>
          (case parse_opt Key_other arg a of Opt_ok a \<Rightarrow> argp_parse cs a | _ \<Rightarrow> Argp_exit)
      | Call_end \<Rightarrow> (case parse_opt Key_end [] a of Opt_ok a \<Rightarrow> argp_parse cs a | _ \<Rightarrow> argp_parse cs a)
      | Call_key \<Rightarrow> (case parse_opt Key_other [] a of Opt_ok a \<Rightarrow> argp_parse cs a | _ \<Rightarrow> argp_parse cs a)
      | Call_failure \<Rightarrow> Argp_rc False a)"

definition default_args :: server_args where
  "default_args = \<lparr>ar_port = 23, ar_http_port = 8080, ar_max_conn = 2000, ar_stack_kb = 256,
     ar_drop_user = None, ar_foreground = True\<rparr>"

text \<open>\<open>None\<close>: the process ended in argp.\<close>

definition args_parse :: "argp_call list \<Rightarrow> (ns_err \<times> server_args) option" where
  "args_parse calls =
     (case argp_parse calls default_args of
        Argp_exit \<Rightarrow> None
      | Argp_rc ok a \<Rightarrow> Some (if ok then NS_OK else NS_ERR_INVALID_ARG, a))"

section \<open>Privileges\<close>

record creds =
  cr_uid :: nat
  cr_euid :: nat
  cr_gid :: nat
  cr_groups :: "nat list"

text \<open>\<open>os_bind\<close>: whether a process with these credentials may bind the port.\<close>

record os =
  os_getpwnam :: "string \<Rightarrow> (nat \<times> nat) option"
  os_initgroups :: "string \<Rightarrow> nat \<Rightarrow> creds \<Rightarrow> creds option"
  os_setgid :: "nat \<Rightarrow> creds \<Rightarrow> creds option"
  os_setuid :: "nat \<Rightarrow> creds \<Rightarrow> creds option"
  os_bind :: "creds \<Rightarrow> 16 word \<Rightarrow> bool"

definition drop_privileges :: "os \<Rightarrow> string \<Rightarrow> creds \<Rightarrow> ns_err \<times> creds" where
  "drop_privileges os username cr =
     (case os_getpwnam os username of
        None \<Rightarrow> (NS_ERR_PRIV_DROP, cr)
      | Some (uid, gid) \<Rightarrow>
          (case os_initgroups os username gid cr of
             None \<Rightarrow> (NS_ERR_PRIV_DROP, cr)
           | Some cr \<Rightarrow>
               (case os_setgid os gid cr of
                  None \<Rightarrow> (NS_ERR_PRIV_DROP, cr)
                | Some cr \<Rightarrow>
                    (case os_setuid os uid cr of
                       None \<Rightarrow> (NS_ERR_PRIV_DROP, cr)
                     | Some cr \<Rightarrow> if cr_uid cr = 0 then (NS_ERR_PRIV_DROP, cr) else (NS_OK, cr)))))"

section \<open>The entry point\<close>

definition empty_registry :: reg_state where
  "empty_registry = \<lparr>rg_head = [], rg_down = False, rg_stop = (\<lambda>_. False), rg_wfd = (\<lambda>_. 0), rg_pipes = Map.empty\<rparr>"

definition initial_process :: "'db chat_world \<Rightarrow> 'db server \<Rightarrow> fd set \<Rightarrow> 'db process" where
  "initial_process w srv fds =
     \<lparr>ps_srv = srv, ps_signals = server_install_signals (\<lambda>_. Sig_default), ps_shutdown = False, ps_reload = False,
      ps_reloads = 0, ps_open = fds, ps_pc = Pc_loop, ps_eintr = 0,
      ps_shared = \<lparr>pr_w = w, pr_online = 0, pr_telnet = empty_registry, pr_http = empty_registry\<rparr>\<rparr>"

text \<open>\<open>s1\<close> and \<open>s2\<close>: the sockets for the two listeners, and whether \<^verbatim>\<open>listen\<close> succeeds on them.\<close>

definition main_start ::
  "'db sqlite \<Rightarrow> os \<Rightarrow> 'db chat_world \<Rightarrow> argp_call list \<Rightarrow> fd option \<times> bool \<Rightarrow> fd option \<times> bool \<Rightarrow> creds \<Rightarrow>
   ('db process \<times> creds) outcome option" where
  "main_start sq os w calls s1 s2 cr =
     (case args_parse calls of
        None \<Rightarrow> None
      | Some (rc, a) \<Rightarrow> Some (NS_ERROR_CHECK rc (
          case server_init (ar_max_conn a) (unat (ar_stack_kb a) * 1024) of (rc, srv) \<Rightarrow> NS_ERROR_CHECK rc (
          case server_add_listener (fst s1) (os_bind os cr (ar_port a)) (snd s1) (ar_port a) (telnet_protocol sq) (srv, {}) of
            (rc, srv, fds) \<Rightarrow> NS_ERROR_CHECK rc (
          case (if ar_http_port a \<noteq> 0
                then server_add_listener (fst s2) (os_bind os cr (ar_http_port a)) (snd s2) (ar_http_port a) (http_protocol sq) (srv, fds)
                else (NS_OK, srv, fds)) of
            (rc, srv, fds) \<Rightarrow> NS_ERROR_CHECK rc (
          case (case ar_drop_user a of None \<Rightarrow> (NS_OK, cr) | Some user \<Rightarrow> drop_privileges os user cr) of
            (rc, cr) \<Rightarrow> NS_ERROR_CHECK rc (Done (initial_process w srv fds, cr))))))))"

section \<open>The command line is checked\<close>

definition args_ok :: "server_args \<Rightarrow> bool" where
  "args_ok a \<longleftrightarrow> 0 < unat (ar_port a) \<and> 0 < unat (ar_max_conn a) \<and> unat (ar_max_conn a) \<le> 100000
     \<and> 64 \<le> unat (ar_stack_kb a) \<and> unat (ar_stack_kb a) \<le> 8192"

lemma unat_of_int: "0 \<le> v \<Longrightarrow> v < 2 ^ LENGTH('a) \<Longrightarrow> unat (of_int v :: 'a::len word) = nat v"
  by (simp add: unat_eq_nat_uint uint_word_of_int_eq take_bit_int_eq_self)

lemma parse_opt_ok: "args_ok a \<Longrightarrow> parse_opt key arg a = Opt_ok a' \<Longrightarrow> args_ok a'"
  by (auto simp: parse_opt_def args_ok_def unat_of_int Let_def split: opt_key.splits if_splits)

lemma argp_parse_ok: "args_ok a \<Longrightarrow> argp_parse calls a = Argp_rc ok a' \<Longrightarrow> args_ok a'"
proof (induction calls arbitrary: a)
  case (Cons c cs)
  then show ?case by (cases c) (auto split: opt_result.splits dest: parse_opt_ok)
qed simp

lemma args_parse_ok: "args_parse calls = Some (rc, a) \<Longrightarrow> args_ok a"
  using argp_parse_ok [of default_args calls]
  by (auto simp: args_parse_def args_ok_def default_args_def split: argp_result.splits)

lemma strtol_number: "fst (strtol (show_nat n)) = clamp_long (int n)"
  using strtol_digits [OF show_nat_nonempty show_nat_digits, of "[]" n] by simp

text \<open>C35: Every command line gives arguments in their documented ranges, or ends the process. In
  whatever order and however often the options occur, a parse that returns gives a port
  of 1 to 65535, 1 to 100000 connections and a stack of 64 to 8192 KB, and a decimal
  number given to an option is stored exactly when it is in the range of the option.\<close>

theorem args_in_range:
  "(case args_parse calls of
      None \<Rightarrow> True
    | Some (rc, a) \<Rightarrow> rc \<in> {NS_OK, NS_ERR_INVALID_ARG} \<and> 0 < unat (ar_port a)
        \<and> 0 < unat (ar_max_conn a) \<and> unat (ar_max_conn a) \<le> 100000 \<and> 64 \<le> unat (ar_stack_kb a) \<and> unat (ar_stack_kb a) \<le> 8192)
   \<and> parse_opt (Key_option CHR ''p'') (show_nat n) a0 =
       (if 1 \<le> n \<and> n \<le> 65535 then Opt_ok (a0\<lparr>ar_port := of_nat n\<rparr>) else Opt_exit)
   \<and> parse_opt (Key_option CHR ''H'') (show_nat n) a0 =
       (if n \<le> 65535 then Opt_ok (a0\<lparr>ar_http_port := of_nat n\<rparr>) else Opt_exit)
   \<and> parse_opt (Key_option CHR ''n'') (show_nat n) a0 =
       (if 1 \<le> n \<and> n \<le> 100000 then Opt_ok (a0\<lparr>ar_max_conn := of_nat n\<rparr>) else Opt_exit)
   \<and> parse_opt (Key_option CHR ''s'') (show_nat n) a0 =
       (if 64 \<le> n \<and> n \<le> 8192 then Opt_ok (a0\<lparr>ar_stack_kb := of_nat n\<rparr>) else Opt_exit)"
proof -
  have "rc \<in> {NS_OK, NS_ERR_INVALID_ARG} \<and> args_ok a" if "args_parse calls = Some (rc, a)" for rc a
    using that args_parse_ok [OF that] by (auto simp: args_parse_def split: argp_result.splits)
  then have "case args_parse calls of None \<Rightarrow> True | Some (rc, a) \<Rightarrow> rc \<in> {NS_OK, NS_ERR_INVALID_ARG} \<and> args_ok a"
    by (auto split: option.split)
  then show ?thesis
    by (auto simp: args_ok_def parse_opt_def strtol_number clamp_long_def LONG_MIN_def LONG_MAX_def Let_def split: option.splits)
qed

text \<open>The option table, the parser and the defaults agree: an option key is handled exactly when it is in
  the table, no two rows share a key or a name, and the defaults in the help text are the
  defaults.\<close>

definition doc_default :: "char \<Rightarrow> server_args \<Rightarrow> string option" where
  "doc_default key a =
     (if key = CHR ''p'' then Some (show_nat (unat (ar_port a)))
      else if key = CHR ''H'' then Some (show_nat (unat (ar_http_port a)))
      else if key = CHR ''n'' then Some (show_nat (unat (ar_max_conn a)))
      else if key = CHR ''s'' then Some (show_nat (unat (ar_stack_kb a)))
      else if key = CHR ''f'' then Some (if ar_foreground a then ''yes'' else ''no'')
      else None)"

lemma options_agree:
  "parse_opt (Key_option key) arg a = Opt_unknown \<longleftrightarrow> key \<notin> op_key ` set options"
  "distinct (map op_key options)" "distinct (map op_name options)"
  "list_all (\<lambda>d. case doc_default (op_key d) default_args of None \<Rightarrow> True
     | Some v \<Rightarrow> op_doc d = takeWhile (\<lambda>c. c \<noteq> CHR ''('') (op_doc d) @ ''(default: '' @ v @ '')'') options"
proof -
  have num: "show_nat 23 = ''23''" "show_nat 8080 = ''8080''" "show_nat 2000 = ''2000''" "show_nat 256 = ''256''"
    by (simp_all add: show_nat.simps digit_char_def char_of_def bit_simps)
  show "parse_opt (Key_option key) arg a = Opt_unknown \<longleftrightarrow> key \<notin> op_key ` set options"
    by (simp add: parse_opt_def options_def Let_def)
  show "distinct (map op_key options)" "distinct (map op_name options)" by (simp_all add: options_def)
  show "list_all (\<lambda>d. case doc_default (op_key d) default_args of None \<Rightarrow> True
     | Some v \<Rightarrow> op_doc d = takeWhile (\<lambda>c. c \<noteq> CHR ''('') (op_doc d) @ ''(default: '' @ v @ '')'') options"
    by (simp add: options_def doc_default_def default_args_def num)
qed

text \<open>Text without a number is read as 0: it is refused for a telnet port, but as the HTTP port it
  turns the HTTP interface off.\<close>

lemma http_port_without_number:
  "parse_opt (Key_option CHR ''H'') ''abc'' a = Opt_ok (a\<lparr>ar_http_port := 0\<rparr>)"
  "parse_opt (Key_option CHR ''p'') ''abc'' a = Opt_exit"
  by (simp_all add: parse_opt_def strtol_def Let_def is_space_def is_digit_def)

section \<open>The privilege drop\<close>

text \<open>What the manual pages say of the three calls: each changes its own part of the credentials,
  and \<^verbatim>\<open>setuid\<close> by a privileged process sets the real and the effective user.\<close>

definition posix_ids :: "os \<Rightarrow> bool" where
  "posix_ids os \<longleftrightarrow>
     (\<forall>user g cr cr'. os_initgroups os user g cr = Some cr' \<longrightarrow>
        cr_uid cr' = cr_uid cr \<and> cr_euid cr' = cr_euid cr \<and> cr_gid cr' = cr_gid cr)
     \<and> (\<forall>g cr cr'. os_setgid os g cr = Some cr' \<longrightarrow>
        cr_gid cr' = g \<and> cr_uid cr' = cr_uid cr \<and> cr_euid cr' = cr_euid cr \<and> cr_groups cr' = cr_groups cr)
     \<and> (\<forall>u cr cr'. os_setuid os u cr = Some cr' \<longrightarrow> cr_euid cr = 0 \<longrightarrow>
        cr_uid cr' = u \<and> cr_euid cr' = u \<and> cr_gid cr' = cr_gid cr \<and> cr_groups cr' = cr_groups cr)"

text \<open>C31: A privilege drop that reports success is complete. When the process starts with root
  rights and the calls behave as documented, NS_OK means that the user exists and is not
  root, that the real and the effective user and the group are those of the user, and that
  the supplementary groups are the ones \<^verbatim>\<open>initgroups\<close> set, before the rights were gone.
  Every other outcome is NS_ERR_PRIV_DROP.\<close>

theorem drop_privileges_complete:
  assumes "posix_ids os" and "cr_euid cr = 0" and "drop_privileges os user cr = (rc, cr')"
  shows "if rc = NS_OK
    then \<exists>uid gid cr1. os_getpwnam os user = Some (uid, gid) \<and> uid \<noteq> 0 \<and> cr_uid cr' = uid \<and> cr_euid cr' = uid \<and> cr_gid cr' = gid
      \<and> os_initgroups os user gid cr = Some cr1 \<and> cr_groups cr' = cr_groups cr1
    else rc = NS_ERR_PRIV_DROP"
proof (cases "rc = NS_OK")
  case True
  with assms(3) obtain uid gid cr1 cr2 where pw: "os_getpwnam os user = Some (uid, gid)"
    "os_initgroups os user gid cr = Some cr1" "os_setgid os gid cr1 = Some cr2" "os_setuid os uid cr2 = Some cr'" "cr_uid cr' \<noteq> 0"
    by (auto simp: drop_privileges_def ns_err_defs split: option.splits if_splits)
  from pw(2,3) assms(1,2) have "cr_euid cr2 = 0" "cr_gid cr2 = gid" "cr_groups cr2 = cr_groups cr1"
    unfolding posix_ids_def by metis+
  moreover from pw(4) this(1) assms(1) have "cr_uid cr' = uid \<and> cr_euid cr' = uid \<and> cr_gid cr' = cr_gid cr2 \<and> cr_groups cr' = cr_groups cr2"
    unfolding posix_ids_def by blast
  ultimately show ?thesis using pw True by auto
next
  case False
  with assms(3) show ?thesis by (auto simp: drop_privileges_def split: option.splits if_splits)
qed

text \<open>A kernel with the documented behaviour, for one user besides root.\<close>

definition demo_os :: os where
  "demo_os =
     \<lparr>os_getpwnam = (\<lambda>u. if u = ''nobody'' then Some (65534, 65534) else if u = ''root'' then Some (0, 0) else None),
      os_initgroups = (\<lambda>u g cr. if cr_euid cr = 0 then Some (cr\<lparr>cr_groups := [g]\<rparr>) else None),
      os_setgid = (\<lambda>g cr. if cr_euid cr = 0 then Some (cr\<lparr>cr_gid := g\<rparr>) else None),
      os_setuid = (\<lambda>u cr. if cr_euid cr = 0 then Some (cr\<lparr>cr_uid := u, cr_euid := u\<rparr>) else None),
      os_bind = (\<lambda>cr port. 1024 \<le> unat port \<or> cr_euid cr = 0)\<rparr>"

lemma demo_posix: "posix_ids demo_os"
  by (auto simp: posix_ids_def demo_os_def split: if_splits)

section \<open>Properties of the start\<close>

lemma server_init_ready:
  assumes "args_ok a"
  shows "fst (server_init (ar_max_conn a) sz :: ns_err \<times> 'db server) = NS_OK"
    "pool_ok 0 (sv_pool (snd (server_init (ar_max_conn a) sz :: ns_err \<times> 'db server)))"
    "cn_max_connections (pl_c (sv_pool (snd (server_init (ar_max_conn a) sz :: ns_err \<times> 'db server)))) = ar_max_conn a"
    "cn_stack_size (pl_c (sv_pool (snd (server_init (ar_max_conn a) sz :: ns_err \<times> 'db server)))) = sz"
    "sv_listeners (snd (server_init (ar_max_conn a) sz :: ns_err \<times> 'db server)) = []"
    "sv_active_connections (snd (server_init (ar_max_conn a) sz :: ns_err \<times> 'db server)) = 0"
    "pl_threads (sv_pool (snd (server_init (ar_max_conn a) sz :: ns_err \<times> 'db server))) = []"
  using assms
  by (simp_all add: server_init_def connector_init_def sem_init_def SEM_VALUE_MAX_def args_ok_def NS_RETURN_ON_ERROR_def
      pool_ok_def working_def Let_def)

text \<open>The listener table \<^verbatim>\<open>main\<close> builds.\<close>

definition listeners_of :: "'db sqlite \<Rightarrow> server_args \<Rightarrow> fd \<Rightarrow> fd \<Rightarrow> 'db listener list" where
  "listeners_of sq a fd1 fd2 =
     \<lparr>ls_port = ar_port a, ls_proto = telnet_protocol sq, ls_fd = fd1\<rparr> #
     (if ar_http_port a \<noteq> 0 then [\<lparr>ls_port = ar_http_port a, ls_proto = http_protocol sq, ls_fd = fd2\<rparr>] else [])"

text \<open>A run of \<^verbatim>\<open>main\<close> that gets to \<^verbatim>\<open>server_run\<close>, step by step.\<close>

lemma main_startE:
  assumes "main_start sq os w calls s1 s2 cr = Some (Done (ps, cr'))"
  obtains a fd1 fd2 fds srv where "args_parse calls = Some (NS_OK, a)" and "args_ok a"
    and "fst s1 = Some fd1" and "os_bind os cr (ar_port a)"
    and "ar_http_port a \<noteq> 0 \<Longrightarrow> fst s2 = Some fd2 \<and> os_bind os cr (ar_http_port a)"
    and "fds = (if ar_http_port a \<noteq> 0 then {fd1, fd2} else {fd1})"
    and "srv = (snd (server_init (ar_max_conn a) (unat (ar_stack_kb a) * 1024)))\<lparr>sv_listeners := listeners_of sq a fd1 fd2\<rparr>"
    and "ps = initial_process w srv fds"
    and "case ar_drop_user a of None \<Rightarrow> cr' = cr | Some u \<Rightarrow> drop_privileges os u cr = (NS_OK, cr')"
proof -
  from assms obtain rc a where a: "args_parse calls = Some (rc, a)"
    by (auto simp: main_start_def split: option.splits)
  with assms have rc: "rc = NS_OK" by (auto simp: main_start_def NS_ERROR_CHECK_Done)
  have ok: "args_ok a" using a by (rule args_parse_ok)
  obtain srv0 :: "'a server" where srv0: "server_init (ar_max_conn a) (unat (ar_stack_kb a) * 1024) = (NS_OK, srv0)"
    using server_init_ready(1) [OF ok] by (metis prod.collapse)
  then have none: "sv_listeners srv0 = []" using server_init_ready(5) [OF ok] by (metis snd_conv)
  obtain rc1 srv1 fds1 where l1: "server_add_listener (fst s1) (os_bind os cr (ar_port a)) (snd s1) (ar_port a) (telnet_protocol sq) (srv0, {}) = (rc1, srv1, fds1)"
    by (metis prod.collapse)
  obtain rc2 srv2 fds2 where l2: "(if ar_http_port a \<noteq> 0
      then server_add_listener (fst s2) (os_bind os cr (ar_http_port a)) (snd s2) (ar_http_port a) (http_protocol sq) (srv1, fds1)
      else (NS_OK, srv1, fds1)) = (rc2, srv2, fds2)" by (metis prod.collapse)
  obtain rc3 cr3 where d: "(case ar_drop_user a of None \<Rightarrow> (NS_OK, cr) | Some user \<Rightarrow> drop_privileges os user cr) = (rc3, cr3)" by fastforce
  from assms a rc srv0 l1 l2 d have ok3: "rc1 = NS_OK" "rc2 = NS_OK" "rc3 = NS_OK" "ps = initial_process w srv2 fds2" "cr' = cr3"
    by (simp_all add: main_start_def NS_ERROR_CHECK_Done)
  from l1 ok3(1) none obtain fd1 where fd1: "fst s1 = Some fd1" "os_bind os cr (ar_port a)" "fds1 = {fd1}"
    "srv1 = srv0\<lparr>sv_listeners := [\<lparr>ls_port = ar_port a, ls_proto = telnet_protocol sq, ls_fd = fd1\<rparr>]\<rparr>"
    by (auto simp: server_add_listener_def ns_err_defs SERVER_MAX_LISTENERS_def Let_def split: option.splits if_splits)
  have drop: "case ar_drop_user a of None \<Rightarrow> cr' = cr | Some u \<Rightarrow> drop_privileges os u cr = (NS_OK, cr')"
    using d ok3 by (auto split: option.splits)
  show ?thesis
  proof (cases "ar_http_port a = 0")
    case True
    with l2 have "srv2 = srv1" "fds2 = fds1" by simp_all
    with that [of a fd1] a rc ok fd1 True ok3(4) srv0 drop show ?thesis by (simp add: listeners_of_def)
  next
    case False
    with l2 ok3(2) fd1 obtain fd2 where "fst s2 = Some fd2" "os_bind os cr (ar_http_port a)" "fds2 = {fd1, fd2}"
      "srv2 = srv0\<lparr>sv_listeners := listeners_of sq a fd1 fd2\<rparr>"
      by (auto simp: server_add_listener_def listeners_of_def ns_err_defs SERVER_MAX_LISTENERS_def Let_def split: option.splits if_splits)
    with that [of a fd1 fd2] a rc ok fd1 False ok3(4) srv0 drop show ?thesis by simp
  qed
qed

lemma main_start_ready:
  assumes "main_start sq os w calls s1 s2 cr = Some (Done (ps, cr'))" and "fst s1 \<noteq> fst s2"
  shows "server_ready sq ps"
  using assms(1)
proof (cases rule: main_startE)
  case (1 a fd1 fd2 fds srv)
  have ls: "sv_listeners (ps_srv ps) = listeners_of sq a fd1 fd2" "pool_of ps = sv_pool (snd (server_init (ar_max_conn a) (unat (ar_stack_kb a) * 1024)))"
    using 1(7,8) by (simp_all add: initial_process_def)
  have "fd1 \<noteq> fd2" if "ar_http_port a \<noteq> 0" using 1(3,5) assms(2) that by auto
  then show ?thesis
    using ls server_init_ready [OF 1(2), of "unat (ar_stack_kb a) * 1024"] 1(6,7,8)
    by (auto simp: server_ready_def initial_process_def listeners_of_def flagged_def empty_registry_def)
qed

text \<open>C21: The server starts only when everything succeeded, and never with the rights of root when a
  user was given. When \<^verbatim>\<open>main\<close> gets to \<^verbatim>\<open>server_run\<close> the state is one from which the server
  runs; the table has the telnet listener and, unless the port is 0, the HTTP listener,
  both bound with the credentials the process was started with; the slots and the stack
  are those of the command line and satisfy the assertions of the core; and with a user
  given the process is not root any more.\<close>

theorem main_ready:
  assumes "main_start sq os w calls s1 s2 cr = Some (Done (ps, cr'))" and "fst s1 \<noteq> fst s2"
  shows "server_ready sq ps \<and> sv_listeners (ps_srv ps) \<noteq> []
    \<and> (\<exists>a fd1 fd2. args_parse calls = Some (NS_OK, a) \<and> sv_listeners (ps_srv ps) = listeners_of sq a fd1 fd2
      \<and> (\<forall>l \<in> set (sv_listeners (ps_srv ps)). ls_port l \<noteq> 0 \<and> os_bind os cr (ls_port l))
      \<and> cn_max_connections (pl_c (sv_pool (ps_srv ps))) = ar_max_conn a \<and> 0 < unat (ar_max_conn a)
      \<and> cn_stack_size (pl_c (sv_pool (ps_srv ps))) = unat (ar_stack_kb a) * 1024 \<and> 65536 \<le> cn_stack_size (pl_c (sv_pool (ps_srv ps)))
      \<and> (if ar_drop_user a = None then cr' = cr else cr_uid cr' \<noteq> 0))"
  using assms(1)
proof (cases rule: main_startE)
  case (1 a fd1 fd2 fds srv)
  note init = server_init_ready [OF 1(2), of "unat (ar_stack_kb a) * 1024"]
  have ls: "sv_listeners (ps_srv ps) = listeners_of sq a fd1 fd2" "pool_of ps = sv_pool (snd (server_init (ar_max_conn a) (unat (ar_stack_kb a) * 1024)))"
    using 1(7,8) by (simp_all add: initial_process_def)
  have ready: "server_ready sq ps" using assms by (rule main_start_ready)
  have bound: "\<forall>l \<in> set (sv_listeners (ps_srv ps)). ls_port l \<noteq> 0 \<and> os_bind os cr (ls_port l)"
    using 1(2,4,5) ls(1) by (auto simp: listeners_of_def args_ok_def split: if_splits)
  have drop: "if ar_drop_user a = None then cr' = cr else cr_uid cr' \<noteq> 0"
    using 1(9) by (auto simp: drop_privileges_def ns_err_defs split: option.splits if_splits)
  have "65536 \<le> unat (ar_stack_kb a) * 1024" using 1(2) by (simp add: args_ok_def)
  then show ?thesis using 1(1,2) ready bound drop ls init
    by (intro conjI exI [of _ a] exI [of _ fd1] exI [of _ fd2]) (auto simp: args_ok_def listeners_of_def)
qed

text \<open>C39: A start that fails aborts with the code of what failed: a bad argument list, a socket
  that cannot be bound or listened on, or a refused privilege drop. The semaphore and the
  listener table never fail, since the command line bounds the connections and there are
  at most two listeners.\<close>

theorem main_abort_codes:
  assumes "main_start sq os w calls s1 s2 cr = Some (Abort rc)"
  shows "rc \<in> {NS_ERR_INVALID_ARG, NS_ERR_BIND_FAILED, NS_ERR_LISTEN_FAILED, NS_ERR_PRIV_DROP}"
proof -
  from assms obtain rc0 a where a: "args_parse calls = Some (rc0, a)"
    by (auto simp: main_start_def split: option.splits)
  have ok: "args_ok a" using a by (rule args_parse_ok)
  obtain srv0 :: "'a server" where srv0: "server_init (ar_max_conn a) (unat (ar_stack_kb a) * 1024) = (NS_OK, srv0)"
    using server_init_ready(1) [OF ok] by (metis prod.collapse)
  then have none: "sv_listeners srv0 = []" using server_init_ready(5) [OF ok] by (metis snd_conv)
  have codes: "rc0 \<in> {NS_OK, NS_ERR_INVALID_ARG}" using a by (auto simp: args_parse_def split: argp_result.splits)
  have drop: "fst (drop_privileges os u cr) \<in> {NS_OK, NS_ERR_PRIV_DROP}" for u
    by (auto simp: drop_privileges_def split: option.split)
  have add: "fst (server_add_listener s b l p pr (srv, fds)) \<in> {NS_OK, NS_ERR_BIND_FAILED, NS_ERR_LISTEN_FAILED}
      \<and> length (sv_listeners (fst (snd (server_add_listener s b l p pr (srv, fds))))) \<le> Suc (length (sv_listeners srv))"
    if "length (sv_listeners srv) \<le> 1" for s b l p pr fds and srv :: "'a server"
    using that by (auto simp: server_add_listener_def SERVER_MAX_LISTENERS_def Let_def split: option.split)
  obtain rc1 srv1 fds1 where l1: "server_add_listener (fst s1) (os_bind os cr (ar_port a)) (snd s1) (ar_port a) (telnet_protocol sq) (srv0, {}) = (rc1, srv1, fds1)"
    by (metis prod.collapse)
  have rc1: "rc1 \<in> {NS_OK, NS_ERR_BIND_FAILED, NS_ERR_LISTEN_FAILED}" "length (sv_listeners srv1) \<le> 1"
    using add [of srv0 "fst s1"] l1 none by (metis fst_conv list.size(3) zero_le, metis fst_conv snd_conv list.size(3) One_nat_def zero_le)
  obtain rc2 srv2 fds2 where l2: "(if ar_http_port a \<noteq> 0
      then server_add_listener (fst s2) (os_bind os cr (ar_http_port a)) (snd s2) (ar_http_port a) (http_protocol sq) (srv1, fds1)
      else (NS_OK, srv1, fds1)) = (rc2, srv2, fds2)" by (metis prod.collapse)
  have rc2: "rc2 \<in> {NS_OK, NS_ERR_BIND_FAILED, NS_ERR_LISTEN_FAILED}"
    using add [OF rc1(2)] l2 by (metis fst_conv insertI1)
  obtain rc3 cr3 where d: "(case ar_drop_user a of None \<Rightarrow> (NS_OK, cr) | Some user \<Rightarrow> drop_privileges os user cr) = (rc3, cr3)" by fastforce
  have rc3: "rc3 \<in> {NS_OK, NS_ERR_PRIV_DROP}" using d drop by (metis fst_conv insertI1 option.case_eq_if)
  from assms a srv0 l1 l2 d have "NS_ERROR_CHECK rc0 (NS_ERROR_CHECK rc1 (NS_ERROR_CHECK rc2 (NS_ERROR_CHECK rc3
      (Done (initial_process w srv2 fds2, cr3))))) = Abort rc" by (simp add: main_start_def NS_ERROR_CHECK_def [of NS_OK])
  with codes rc1 rc2 rc3 show ?thesis by (auto simp: NS_ERROR_CHECK_def split: if_splits)
qed

section \<open>Examples\<close>

definition root_creds :: creds where
  "root_creds = \<lparr>cr_uid = 0, cr_euid = 0, cr_gid = 0, cr_groups = [0]\<rparr>"

definition demo_start :: "creds \<Rightarrow> (chat_tables process \<times> creds) outcome option" where
  "demo_start cr = main_start ref_sqlite demo_os demo_boot [Call_option CHR ''u'' ''nobody'', Call_end] (Some 3, True) (Some 4, True) cr"

lemmas start_defs = main_start_def args_parse_def parse_opt_def default_args_def server_init_def connector_init_def
  sem_init_def SEM_VALUE_MAX_def NS_RETURN_ON_ERROR_def NS_ERROR_CHECK_def server_add_listener_def SERVER_MAX_LISTENERS_def
  drop_privileges_def demo_os_def root_creds_def Let_def

lemma demo_start_runs: "\<exists>ps cr. demo_start root_creds = Some (Done (ps, cr))"
  by (simp add: demo_start_def start_defs)

theorem drop_privileges_complete_witness:
  "\<exists>cr. drop_privileges demo_os ''nobody'' root_creds = (NS_OK, cr) \<and> cr_uid cr = 65534 \<and> cr_groups cr = [65534]"
proof -
  obtain rc cr where d: "drop_privileges demo_os ''nobody'' root_creds = (rc, cr)" by fastforce
  moreover from d have "rc = NS_OK" by (auto simp: drop_privileges_def demo_os_def root_creds_def)
  moreover have "cr_euid root_creds = 0" by (simp add: root_creds_def)
  ultimately show ?thesis using drop_privileges_complete [OF demo_posix _ d]
    by (auto simp: demo_os_def split: if_splits)
qed

theorem main_ready_witness:
  "\<exists>ps cr. demo_start root_creds = Some (Done (ps, cr)) \<and> server_ready ref_sqlite ps \<and> cr_uid cr \<noteq> 0"
proof -
  obtain ps cr where run: "demo_start root_creds = Some (Done (ps, cr))" using demo_start_runs by blast
  have "fst (Some (3 :: int), True) \<noteq> fst (Some (4 :: int), True)" by simp
  from main_ready [OF run [unfolded demo_start_def] this] run show ?thesis
    by (auto simp: args_parse_def parse_opt_def default_args_def split: if_splits)
qed

theorem main_abort_codes_witness:
  "demo_start (root_creds\<lparr>cr_uid := 1000, cr_euid := 1000\<rparr>) = Some (Abort NS_ERR_BIND_FAILED)
   \<and> NS_ERR_BIND_FAILED \<in> {NS_ERR_INVALID_ARG, NS_ERR_BIND_FAILED, NS_ERR_LISTEN_FAILED, NS_ERR_PRIV_DROP}"
proof -
  have run: "demo_start (root_creds\<lparr>cr_uid := 1000, cr_euid := 1000\<rparr>) = Some (Abort NS_ERR_BIND_FAILED)"
    by (simp add: demo_start_def start_defs ns_err_defs)
  from main_abort_codes [OF run [unfolded demo_start_def]] run show ?thesis by blast
qed

end
