(* ===== verification/System.thy ===== *)
theory System
  imports Threads
begin

text \<open>
  The whole chat server: any number of telnet sessions, event streams and plain HTTP
  requests over one chat service. A client is a thread of \<^verbatim>\<open>core/connection.c\<close> between two
  blocking calls; one step of the system is one turn of one thread (the code between two
  waits, for an event stream also the two halves of its opening), the clock, or a stop
  flag set by the shutdown calls. The invariant of the reachable states needs no assumption on
  the other threads: each of them is one of the clients.
\<close>

section \<open>The model\<close>

record telnet_client =
  tc_s :: telnet_session
  tc_deadline :: int
  tc_overread :: bool
  tc_left :: bool

text \<open>An HTTP connection reads its request, is answered at once (\<open>H_done\<close>), or opens an event
  stream: \<open>H_tail\<close> has its cursor, \<open>H_stream\<close> is in the loop.\<close>

datatype http_phase = H_read | H_tail nat int http_request | H_stream nat int http_request | H_done

text \<open>\<open>hl_healthy\<close> records whether the socket takes all output, for the statements on what a
  client receives.\<close>

record http_client =
  hl_c :: http_conn
  hl_phase :: http_phase
  hl_healthy :: bool

datatype client = Telnet telnet_client | Http http_client

record 'db system =
  sy_w :: "'db chat_world"
  sy_online :: "32 word"
  sy_clients :: "nat \<Rightarrow> client option"

fun client_wfd :: "client \<Rightarrow> fd" where
  "client_wfd (Telnet c) = ts_notify_wfd (tc_s c)"
| "client_wfd (Http c) = hc_notify_wfd (hl_c c)"

definition tctx_of :: "'db system \<Rightarrow> tm \<Rightarrow> bool \<Rightarrow> telnet_client \<Rightarrow> 'db tctx" where
  "tctx_of sy tm mem c = \<lparr>cx_s = tc_s c, cx_w = sy_w sy, cx_online = sy_online sy, cx_tm = tm, cx_mem = mem,
     cx_overread = tc_overread c\<rparr>"

definition hctx_of :: "'db system \<Rightarrow> http_conn \<Rightarrow> 'db hctx" where
  "hctx_of sy c = \<lparr>hx_c = c, hx_w = sy_w sy\<rparr>"

text \<open>A thread's context back into the system.\<close>

definition put_telnet :: "nat \<Rightarrow> int \<Rightarrow> bool \<Rightarrow> 'db tctx \<Rightarrow> 'db system \<Rightarrow> 'db system" where
  "put_telnet k dl lft cx sy = sy\<lparr>sy_w := cx_w cx, sy_online := cx_online cx, sy_clients := (sy_clients sy)(k \<mapsto>
     Telnet \<lparr>tc_s = cx_s cx, tc_deadline = dl, tc_overread = cx_overread cx, tc_left = lft\<rparr>)\<rparr>"

definition put_http :: "nat \<Rightarrow> http_phase \<Rightarrow> bool \<Rightarrow> 'db hctx \<Rightarrow> 'db system \<Rightarrow> 'db system" where
  "put_http k ph ok hx sy = sy\<lparr>sy_w := hx_w hx, sy_clients := (sy_clients sy)(k \<mapsto>
     Http \<lparr>hl_c = hx_c hx, hl_phase = ph, hl_healthy = ok\<rparr>)\<rparr>"

definition drop_client :: "nat \<Rightarrow> 'db system \<Rightarrow> 'db system" where
  "drop_client k sy = sy\<lparr>sy_clients := (sy_clients sy)(k := None)\<rparr>"

text \<open>The loop condition of \<^verbatim>\<open>telnet_run_session\<close>.\<close>

definition telnet_over :: "telnet_client \<Rightarrow> bool" where
  "telnet_over c \<longleftrightarrow> tc_left c \<or> ts_fsm (tc_s c) = TSTATE_CLOSED \<or> ts_shutdown_requested (tc_s c)"

text \<open>\<^verbatim>\<open>pipe2\<close> returns descriptors no one has, or fails.\<close>

definition pipe_fresh :: "'db system \<Rightarrow> (fd \<times> fd) option \<Rightarrow> bool" where
  "pipe_fresh sy pipe2 = (case pipe2 of None \<Rightarrow> True
     | Some (r, w) \<Rightarrow> 0 \<le> r \<and> 0 \<le> w \<and> (\<forall>k c. sy_clients sy k = Some c \<longrightarrow> client_wfd c \<noteq> w))"

definition open_pipe :: "(fd \<times> fd) option \<Rightarrow> 'db chat_world \<Rightarrow> 'db chat_world" where
  "open_pipe pipe2 w = (case pipe2 of None \<Rightarrow> w | Some (r, wfd) \<Rightarrow> w\<lparr>w_pipes := (w_pipes w)(wfd \<mapsto> 0)\<rparr>)"

text \<open>The lines after the call of \<^verbatim>\<open>http_dispatch\<close>.\<close>

definition http_fallback :: "'db hctx \<Rightarrow> 'db hctx" where
  "http_fallback hx = (if \<not> hc_responded (hx_c hx)
     then hx\<lparr>hx_c := http_respond_text 404 (''Not Found'' @ [LF]) (hx_c hx)\<rparr> else hx)"

definition here :: "wait_event \<Rightarrow> 'db hturn" where
  "here ev = \<lparr>ht_env = (\<lambda>hx. hx), ht_event = ev\<rparr>"

text \<open>The label is the client that moves.\<close>

inductive sys_step :: "'db sqlite \<Rightarrow> nat option \<Rightarrow> 'db system \<Rightarrow> 'db system \<Rightarrow> bool" for sq where
  sys_clock: "sys_step sq None sy (sy\<lparr>sy_w := (sy_w sy)\<lparr>w_now := now\<rparr>\<rparr>)"
| sys_telnet_accept:
    "telnet_create_session sq sk peer mem pipe2 = Some s \<Longrightarrow> pipe_fresh sy pipe2 \<Longrightarrow> sy_clients sy k = None \<Longrightarrow>
     cx = telnet_begin sq \<lparr>cx_s = s\<lparr>ts_shutdown_requested := down\<rparr>, cx_w = open_pipe pipe2 (sy_w sy),
       cx_online = sy_online sy, cx_tm = tm, cx_mem = mem', cx_overread = False\<rparr> \<Longrightarrow>
     sys_step sq (Some k) sy (put_telnet k dl False cx sy)"
| sys_telnet_turn:
    "sy_clients sy k = Some (Telnet c) \<Longrightarrow> \<not> telnet_over c \<Longrightarrow>
     telnet_loop_iter sq ev (tc_deadline c) (tctx_of sy tm mem c) = r \<Longrightarrow>
     sys_step sq (Some k) sy (case r of Continue (cx, dl) \<Rightarrow> put_telnet k dl False cx sy | Break (cx, dl) \<Rightarrow> put_telnet k dl True cx sy)"
| sys_telnet_finish:
    "sy_clients sy k = Some (Telnet c) \<Longrightarrow> telnet_over c \<Longrightarrow>
     cx = telnet_close (telnet_end_game sq (tctx_of sy tm mem c)) \<Longrightarrow>
     sys_step sq (Some k) sy (drop_client k (put_telnet k (tc_deadline c) True cx sy))"
| sys_telnet_stop:
    "sy_clients sy k = Some (Telnet c) \<Longrightarrow>
     sys_step sq (Some k) sy (sy\<lparr>sy_w := (sy_w sy)\<lparr>w_pipes := pipe_write (ts_notify_wfd (tc_s c)) (w_pipes (sy_w sy))\<rparr>,
       sy_clients := (sy_clients sy)(k \<mapsto> Telnet (c\<lparr>tc_s := (tc_s c)\<lparr>ts_shutdown_requested := True\<rparr>\<rparr>))\<rparr>)"
| sys_http_accept:
    "http_create_session sk mem pipe2 = Some c \<Longrightarrow> pipe_fresh sy pipe2 \<Longrightarrow> sy_clients sy k = None \<Longrightarrow>
     sys_step sq (Some k) sy (put_http k H_read (open_conn c) \<lparr>hx_c = c\<lparr>hc_shutdown_requested := down\<rparr>, hx_w = open_pipe pipe2 (sy_w sy)\<rparr> sy)"
| sys_http_unread:
    "sy_clients sy k = Some (Http \<lparr>hl_c = c, hl_phase = H_read, hl_healthy = ok\<rparr>) \<Longrightarrow>
     read_request evs c buf0 0 no_request = Some (c', tot, req) \<Longrightarrow> tot \<le> 0 \<Longrightarrow>
     sys_step sq (Some k) sy (put_http k H_done ok (hctx_of sy c') sy)"
| sys_http_answer:
    "sy_clients sy k = Some (Http \<lparr>hl_c = c, hl_phase = H_read, hl_healthy = ok\<rparr>) \<Longrightarrow>
     read_request evs c buf0 0 no_request = Some (c', tot, req) \<Longrightarrow> 0 < tot \<Longrightarrow>
     http_dispatch sq (alone env) (hctx_of sy c') req = Some hx \<Longrightarrow>
     sys_step sq (Some k) sy (put_http k H_done ok (http_fallback hx) sy)"
| sys_http_open:
    "sy_clients sy k = Some (Http \<lparr>hl_c = c, hl_phase = H_read, hl_healthy = ok\<rparr>) \<Longrightarrow>
     read_request evs c buf0 0 no_request = Some (c', tot, req) \<Longrightarrow> 0 < tot \<Longrightarrow>
     http_dispatch sq (alone env) (hctx_of sy c') req = None \<Longrightarrow> events_room sq req (sy_w sy) = Some room \<Longrightarrow>
     sse_tail sq room \<lparr>hx_c = c', hx_w = chat_service_init sq (sy_w sy)\<rparr> = (cur, hx) \<Longrightarrow>
     sys_step sq (Some k) sy (put_http k (H_tail room cur req) ok hx sy)"
| sys_http_subscribe:
    "sy_clients sy k = Some (Http \<lparr>hl_c = c, hl_phase = H_tail room cur req, hl_healthy = ok\<rparr>) \<Longrightarrow>
     sys_step sq (Some k) sy (put_http k (H_stream room cur req) ok (sse_subscribe sq room req (hctx_of sy c)) sy)"
| sys_http_turn:
    "sy_clients sy k = Some (Http \<lparr>hl_c = c, hl_phase = H_stream room cur req, hl_healthy = ok\<rparr>) \<Longrightarrow>
     sse_turn sq room (sse_user req) (here ev) cur (hctx_of sy c) = r \<Longrightarrow>
     sys_step sq (Some k) sy (case r of Sse_go cur' hx \<Rightarrow> put_http k (H_stream room cur' req) ok hx sy
       | Sse_stop cur' hx \<Rightarrow> put_http k H_done ok (sse_close sq room req hx) sy)"
| sys_http_finish:
    "sy_clients sy k = Some (Http \<lparr>hl_c = c, hl_phase = H_done, hl_healthy = ok\<rparr>) \<Longrightarrow>
     sys_step sq (Some k) sy (drop_client k (put_http k H_done ok (conn_close drain (hctx_of sy c)) sy))"
| sys_http_stop:
    "sy_clients sy k = Some (Http c) \<Longrightarrow>
     sys_step sq (Some k) sy (sy\<lparr>sy_w := (sy_w sy)\<lparr>w_pipes := pipe_write (hc_notify_wfd (hl_c c)) (w_pipes (sy_w sy))\<rparr>,
       sy_clients := (sy_clients sy)(k \<mapsto> Http (c\<lparr>hl_c := (hl_c c)\<lparr>hc_shutdown_requested := True\<rparr>\<rparr>))\<rparr>)"

definition sys_boot :: "int \<Rightarrow> string option \<Rightarrow> pipes \<Rightarrow> 'db system" where
  "sys_boot now sd ps = \<lparr>sy_w = boot_world now sd ps, sy_online = 0, sy_clients = Map.empty\<rparr>"

section \<open>The invariant\<close>

text \<open>A stream that had sent \<open>pre\<close> when the log of its room was \<open>base\<close> has since sent, frame by
  frame and in order, exactly the messages after \<open>base\<close> up to where its cursor is now.\<close>

definition told_from ::
  "('db \<Rightarrow> chat_tables) \<Rightarrow> chat_msg list \<Rightarrow> string \<Rightarrow> 'db chat_world \<Rightarrow> nat \<Rightarrow> int \<Rightarrow> http_conn \<Rightarrow> bool" where
  "told_from tables base pre w room cur c \<longleftrightarrow> (\<exists>fs dels.
     on_stream tables room (r_id (room_at w room)) base cur dels \<lparr>hx_c = c, hx_w = w\<rparr>
     \<and> conn_sent c = pre @ concat (map sse_frame fs) \<and> list_all frame_ok fs \<and> data_of fs = map msg_text dels)"

definition told :: "('db \<Rightarrow> chat_tables) \<Rightarrow> 'db chat_world \<Rightarrow> nat \<Rightarrow> int \<Rightarrow> http_conn \<Rightarrow> bool" where
  "told tables w room cur c \<longleftrightarrow> (\<exists>base pre. told_from tables base pre w room cur c)"

definition readable :: "'db sqlite \<Rightarrow> bool" where
  "readable sq \<longleftrightarrow> (\<forall>s. db_readable sq s)"

definition phase_inv :: "'db sqlite \<Rightarrow> ('db \<Rightarrow> chat_tables) \<Rightarrow> 'db chat_world \<Rightarrow> http_client \<Rightarrow> bool" where
  "phase_inv sq tables w c \<longleftrightarrow> (hl_healthy c \<longrightarrow> open_conn (hl_c c)) \<and>
     (case hl_phase c of
        H_tail room cur req \<Rightarrow> sub_only (hc_notify_wfd (hl_c c)) None w \<and> w_once w \<and> room < length (w_rooms w)
          \<and> (readable sq \<and> hl_healthy c \<longrightarrow> told tables w room cur (hl_c c))
      | H_stream room cur req \<Rightarrow> sub_only (hc_notify_wfd (hl_c c)) (Some room) w \<and> w_once w \<and> room < length (w_rooms w)
          \<and> (readable sq \<and> hl_healthy c \<longrightarrow> told tables w room cur (hl_c c))
      | _ \<Rightarrow> sub_only (hc_notify_wfd (hl_c c)) None w)"

fun client_inv :: "'db sqlite \<Rightarrow> ('db \<Rightarrow> chat_tables) \<Rightarrow> 'db chat_world \<Rightarrow> client \<Rightarrow> bool" where
  "client_inv sq tables w (Telnet c) =
     (\<forall>n tm mem. sess_inv \<lparr>cx_s = tc_s c, cx_w = w, cx_online = n, cx_tm = tm, cx_mem = mem, cx_overread = tc_overread c\<rparr>)"
| "client_inv sq tables w (Http c) = phase_inv sq tables w c"

definition pipe_open :: "'db chat_world \<Rightarrow> client \<Rightarrow> bool" where
  "pipe_open w c \<longleftrightarrow> 0 \<le> client_wfd c \<longrightarrow> client_wfd c \<in> dom (w_pipes w)"

definition sys_inv :: "'db sqlite \<Rightarrow> ('db \<Rightarrow> chat_tables) \<Rightarrow> 'db system \<Rightarrow> bool" where
  "sys_inv sq tables sy \<longleftrightarrow> app_inv tables (sy_w sy)
     \<and> (\<forall>k c. sy_clients sy k = Some c \<longrightarrow> client_inv sq tables (sy_w sy) c \<and> pipe_open (sy_w sy) c)
     \<and> (\<forall>k k' c c'. sy_clients sy k = Some c \<longrightarrow> sy_clients sy k' = Some c' \<longrightarrow> k \<noteq> k' \<longrightarrow> 0 \<le> client_wfd c \<longrightarrow>
          client_wfd c \<noteq> client_wfd c')
     \<and> (\<forall>fd. (\<forall>k c. sy_clients sy k = Some c \<longrightarrow> client_wfd c \<noteq> fd) \<longrightarrow> sub_only fd None (sy_w sy))"

lemma sess_inv_any:
  assumes "sess_inv cx"
  shows "sess_inv \<lparr>cx_s = cx_s cx, cx_w = cx_w cx, cx_online = n, cx_tm = t, cx_mem = m, cx_overread = cx_overread cx\<rparr>"
  by (rule env_step_inv [OF assms]) (rule env_stepI [where stop = False], simp_all)

lemma telnet_client_invI:
  "sess_inv cx \<Longrightarrow> tc_s c = cx_s cx \<Longrightarrow> tc_overread c = cx_overread cx \<Longrightarrow> client_inv sq tables (cx_w cx) (Telnet c)"
  using sess_inv_any by auto

text \<open>What the other threads do keeps the invariant of a client.\<close>

lemma told_from_rely:
  assumes "sqlite_chat sq tables" "rely tables (hc_notify_wfd c) w w'" "app_inv tables w" "told_from tables base pre w room cur c"
  shows "told_from tables base pre w' room cur c"
proof -
  obtain fs dels where t: "on_stream tables room (r_id (room_at w room)) base cur dels \<lparr>hx_c = c, hx_w = w\<rparr>"
    "conn_sent c = pre @ concat (map sse_frame fs)" "list_all frame_ok fs" "data_of fs = map msg_text dels"
    using assms(4) by (auto simp: told_from_def)
  note r = relyD [OF assms(2,3)]
  have o: "others_step tables \<lparr>hx_c = c, hx_w = w\<rparr> \<lparr>hx_c = c, hx_w = w'\<rparr>"
    by (rule others_stepI [where stop = False]) (use r in simp_all)
  from sqlite_chat.others_stream [OF assms(1) o t(1)]
  have s: "on_stream tables room (r_id (room_at w room)) base cur dels \<lparr>hx_c = c, hx_w = w'\<rparr>" by blast
  moreover from this have "r_id (room_at w' room) = r_id (room_at w room)" by (simp add: on_stream_def)
  ultimately show ?thesis using t(2-4) by (auto simp: told_from_def)
qed

lemma told_rely:
  assumes "sqlite_chat sq tables" "rely tables (hc_notify_wfd c) w w'" "app_inv tables w" "told tables w room cur c"
  shows "told tables w' room cur c"
  using assms(4) told_from_rely [OF assms(1-3)] unfolding told_def by blast

lemma client_rely:
  assumes "sqlite_chat sq tables" "app_inv tables w" "rely tables (client_wfd c) w w'" "client_inv sq tables w c"
  shows "client_inv sq tables w' c"
proof (cases c)
  case (Telnet t)
  note r = relyD(1) [OF assms(3,2)]
  show ?thesis unfolding Telnet client_inv.simps
  proof (intro allI)
    fix n tm mem
    let ?cx = "\<lambda>w. \<lparr>cx_s = tc_s t, cx_w = w, cx_online = n, cx_tm = tm, cx_mem = mem, cx_overread = tc_overread t\<rparr>"
    have "env_step (?cx w) (?cx w')"
      using env_stepI [of "?cx w" w' "tc_s t" False n tm mem] r Telnet by simp
    then show "sess_inv (?cx w')" using assms(4) Telnet by (auto intro: env_step_inv)
  qed
next
  case (Http h)
  have r: "world_env (hc_notify_wfd (hl_c h)) w w'" using relyD(1) [OF assms(3,2)] Http by simp
  note e = world_env_ok [OF r]
  have ok: "w_once w \<Longrightarrow> world_ok w" "w_once w \<Longrightarrow> w_once w' \<and> length (w_rooms w') = length (w_rooms w)"
    using assms(2) r by (auto simp: app_inv_world_ok world_env_def)
  have t: "rely tables (hc_notify_wfd (hl_c h)) w w'" using assms(3) Http by simp
  show ?thesis
    using assms(4) Http e(3,4) ok told_rely [OF assms(1) t assms(2)]
    by (auto simp: phase_inv_def split: http_phase.splits)
qed

section \<open>Every step keeps the invariant\<close>

lemma pipe_open_rely: "app_inv tables w \<Longrightarrow> rely tables (client_wfd c) w w' \<Longrightarrow> pipe_open w c \<Longrightarrow> pipe_open w' c"
  using relyD(5) unfolding pipe_open_def by blast

text \<open>The client \<open>k\<close> moves, arrives or leaves: whoever has another descriptor sees a rely
  step, and the new client satisfies its invariant.\<close>

definition moved :: "'db sqlite \<Rightarrow> ('db \<Rightarrow> chat_tables) \<Rightarrow> nat \<Rightarrow> 'db system \<Rightarrow> 'db system \<Rightarrow> bool" where
  "moved sq tables k sy sy' \<longleftrightarrow> (\<exists>wfd mc. sy_clients sy' = (sy_clients sy)(k := mc)
     \<and> (\<forall>fd. (0 \<le> fd \<longrightarrow> fd \<noteq> wfd) \<longrightarrow> rely tables fd (sy_w sy) (sy_w sy'))
     \<and> (\<forall>c. sy_clients sy k = Some c \<longrightarrow> client_wfd c = wfd)
     \<and> (sy_clients sy k = None \<longrightarrow> 0 \<le> wfd \<longrightarrow> (\<forall>k c. sy_clients sy k = Some c \<longrightarrow> client_wfd c \<noteq> wfd))
     \<and> (case mc of None \<Rightarrow> sub_only wfd None (sy_w sy')
        | Some c' \<Rightarrow> client_wfd c' = wfd \<and> client_inv sq tables (sy_w sy') c' \<and> pipe_open (sy_w sy') c'))"

lemma movedI:
  assumes "\<And>fd. (0 \<le> fd \<Longrightarrow> fd \<noteq> wfd) \<Longrightarrow> rely tables fd (sy_w sy) w'"
    and "\<And>c. sy_clients sy k = Some c \<Longrightarrow> client_wfd c = wfd"
    and "sy_clients sy k = None \<Longrightarrow> 0 \<le> wfd \<Longrightarrow> (\<forall>k c. sy_clients sy k = Some c \<longrightarrow> client_wfd c \<noteq> wfd)"
    and "case mc of None \<Rightarrow> sub_only wfd None w' | Some c' \<Rightarrow> client_wfd c' = wfd \<and> client_inv sq tables w' c' \<and> pipe_open w' c'"
  shows "moved sq tables k sy \<lparr>sy_w = w', sy_online = n, sy_clients = (sy_clients sy)(k := mc)\<rparr>"
  unfolding moved_def using assms by (intro exI [of _ wfd] exI [of _ mc]) (cases mc; simp)

lemma movedE:
  assumes "moved sq tables k sy sy'"
  obtains wfd mc where "sy_clients sy' = (sy_clients sy)(k := mc)"
    "\<And>fd. (0 \<le> fd \<Longrightarrow> fd \<noteq> wfd) \<Longrightarrow> rely tables fd (sy_w sy) (sy_w sy')"
    "\<And>c. sy_clients sy k = Some c \<Longrightarrow> client_wfd c = wfd"
    "sy_clients sy k = None \<Longrightarrow> 0 \<le> wfd \<Longrightarrow> (\<forall>k c. sy_clients sy k = Some c \<longrightarrow> client_wfd c \<noteq> wfd)"
    "case mc of None \<Rightarrow> sub_only wfd None (sy_w sy')
      | Some c' \<Rightarrow> client_wfd c' = wfd \<and> client_inv sq tables (sy_w sy') c' \<and> pipe_open (sy_w sy') c'"
proof -
  from assms obtain wfd mc where m: "sy_clients sy' = (sy_clients sy)(k := mc)"
    "\<forall>fd. (0 \<le> fd \<longrightarrow> fd \<noteq> wfd) \<longrightarrow> rely tables fd (sy_w sy) (sy_w sy')"
    "\<forall>c. sy_clients sy k = Some c \<longrightarrow> client_wfd c = wfd"
    "sy_clients sy k = None \<longrightarrow> 0 \<le> wfd \<longrightarrow> (\<forall>k c. sy_clients sy k = Some c \<longrightarrow> client_wfd c \<noteq> wfd)"
    "case mc of None \<Rightarrow> sub_only wfd None (sy_w sy')
      | Some c' \<Rightarrow> client_wfd c' = wfd \<and> client_inv sq tables (sy_w sy') c' \<and> pipe_open (sy_w sy') c'"
    unfolding moved_def by (elim exE conjE)
  show ?thesis by (rule that [OF m(1) _ _ _ m(5)]) (use m(2-4) in blast)+
qed

text \<open>The other clients are as they were.\<close>

lemma moved_apart:
  assumes "sys_inv sq tables sy" "\<And>c. sy_clients sy k = Some c \<Longrightarrow> client_wfd c = wfd"
    "sy_clients sy k = None \<Longrightarrow> 0 \<le> wfd \<Longrightarrow> (\<forall>k c. sy_clients sy k = Some c \<longrightarrow> client_wfd c \<noteq> wfd)"
    "sy_clients sy j = Some c" "j \<noteq> k" "0 \<le> client_wfd c"
  shows "client_wfd c \<noteq> wfd"
proof (cases "sy_clients sy k")
  case None
  with assms show ?thesis by metis
next
  case (Some d)
  with assms show ?thesis unfolding sys_inv_def by metis
qed

lemma moved_other:
  assumes "sys_inv sq tables sy" "moved sq tables k sy sy'" "j \<noteq> k" "sy_clients sy j = Some c"
  shows "sy_clients sy' j = Some c \<and> rely tables (client_wfd c) (sy_w sy) (sy_w sy')"
  using assms(2)
proof (rule movedE)
  fix wfd mc
  assume m: "sy_clients sy' = (sy_clients sy)(k := mc)"
    "\<And>fd. (0 \<le> fd \<Longrightarrow> fd \<noteq> wfd) \<Longrightarrow> rely tables fd (sy_w sy) (sy_w sy')"
    "\<And>c. sy_clients sy k = Some c \<Longrightarrow> client_wfd c = wfd"
    "sy_clients sy k = None \<Longrightarrow> 0 \<le> wfd \<Longrightarrow> (\<forall>k c. sy_clients sy k = Some c \<longrightarrow> client_wfd c \<noteq> wfd)"
  have "rely tables (client_wfd c) (sy_w sy) (sy_w sy')"
    by (rule m(2)) (rule moved_apart [OF assms(1) m(3,4) assms(4,3)])
  with m(1) assms(3,4) show ?thesis by simp
qed

lemma sys_inv_move:
  assumes "sqlite_chat sq tables" "sys_inv sq tables sy" "moved sq tables k sy sy'"
  shows "sys_inv sq tables sy'"
  using assms(3)
proof (rule movedE)
  fix wfd mc
  assume cl: "sy_clients sy' = (sy_clients sy)(k := mc)"
    and others: "\<And>fd. (0 \<le> fd \<Longrightarrow> fd \<noteq> wfd) \<Longrightarrow> rely tables fd (sy_w sy) (sy_w sy')"
    and own: "\<And>c. sy_clients sy k = Some c \<Longrightarrow> client_wfd c = wfd"
    and fresh: "sy_clients sy k = None \<Longrightarrow> 0 \<le> wfd \<Longrightarrow> (\<forall>k c. sy_clients sy k = Some c \<longrightarrow> client_wfd c \<noteq> wfd)"
    and new: "case mc of None \<Rightarrow> sub_only wfd None (sy_w sy')
      | Some c' \<Rightarrow> client_wfd c' = wfd \<and> client_inv sq tables (sy_w sy') c' \<and> pipe_open (sy_w sy') c'"
  note inv = assms(2) [unfolded sys_inv_def]
  have app: "app_inv tables (sy_w sy)" using inv by blast
  have app': "app_inv tables (sy_w sy')" using relyD(3) [OF others [of "-1"] app] by simp
  have apart: "client_wfd c \<noteq> wfd" if "sy_clients sy j = Some c" "j \<noteq> k" "0 \<le> client_wfd c" for j c
    using own fresh that by (rule moved_apart [OF assms(2)])
  have other: "client_inv sq tables (sy_w sy') c \<and> pipe_open (sy_w sy') c" if "sy_clients sy j = Some c" "j \<noteq> k" for j c
  proof -
    have "rely tables (client_wfd c) (sy_w sy) (sy_w sy')" by (rule others) (use apart that in blast)
    with inv that client_rely [OF assms(1) app] pipe_open_rely [OF app] show ?thesis by blast
  qed
  have free: "sub_only fd None (sy_w sy')" if un: "\<forall>j c. ((sy_clients sy)(k := mc)) j = Some c \<longrightarrow> client_wfd c \<noteq> fd" for fd
  proof (cases "fd = wfd")
    case True
    with un [THEN spec, of k] new show ?thesis by (cases mc) auto
  next
    case False
    have "client_wfd c \<noteq> fd" if "sy_clients sy j = Some c" for j c
      using un [THEN spec, of j] that own False by (cases "j = k") auto
    then have "sub_only fd None (sy_w sy)" using inv by blast
    moreover have "rely tables fd (sy_w sy) (sy_w sy')" by (rule others) (use False in simp)
    ultimately show ?thesis using relyD(1) [OF _ app] world_env_ok(3) by blast
  qed
  have dist: "client_wfd c \<noteq> client_wfd c'"
    if "((sy_clients sy)(k := mc)) j = Some c" "((sy_clients sy)(k := mc)) j' = Some c'" "j \<noteq> j'" "0 \<le> client_wfd c" for j j' c c'
  proof (cases "j = k \<or> j' = k")
    case True
    with that new apart [of j c] apart [of j' c'] show ?thesis by (cases mc) (auto split: if_splits)
  next
    case False
    with that inv show ?thesis by auto
  qed
  have all: "client_inv sq tables (sy_w sy') c \<and> pipe_open (sy_w sy') c" if "((sy_clients sy)(k := mc)) j = Some c" for j c
    using that other new by (cases "j = k") auto
  show ?thesis
    unfolding sys_inv_def cl using app' all dist free by auto
qed

text \<open>A turn that keeps its guarantee.\<close>

lemma turn_moved:
  assumes "sqlite_chat sq tables" "opened_ok sq tables" "sys_inv sq tables sy" "sy_clients sy k = Some c"
    and "(client_step sq (client_wfd c))\<^sup>*\<^sup>* (sy_w sy) w'"
    and "case mc of None \<Rightarrow> sub_only (client_wfd c) None w'
       | Some c' \<Rightarrow> client_wfd c' = client_wfd c \<and> client_inv sq tables w' c'"
  shows "moved sq tables k sy \<lparr>sy_w = w', sy_online = n, sy_clients = (sy_clients sy)(k := mc)\<rparr>"
proof (rule movedI [where wfd = "client_wfd c"])
  have app: "app_inv tables (sy_w sy)" using assms(3) by (simp add: sys_inv_def)
  show "rely tables fd (sy_w sy) w'" if "0 \<le> fd \<Longrightarrow> fd \<noteq> client_wfd c" for fd
    using assms(1,2) app assms(5) that by (rule guarantee_rely)
  have "pipe_open (sy_w sy) c" using assms(3,4) by (simp add: sys_inv_def)
  with assms(6) client_steps_dom [OF assms(5)]
  show "case mc of None \<Rightarrow> sub_only (client_wfd c) None w'
    | Some c' \<Rightarrow> client_wfd c' = client_wfd c \<and> client_inv sq tables w' c' \<and> pipe_open w' c'"
    by (auto simp: pipe_open_def split: option.splits)
qed (use assms(4) in simp_all)

lemma put_telnet_eq:
  "put_telnet k dl lft cx sy = \<lparr>sy_w = cx_w cx, sy_online = cx_online cx, sy_clients = (sy_clients sy)(k := Some
     (Telnet \<lparr>tc_s = cx_s cx, tc_deadline = dl, tc_overread = cx_overread cx, tc_left = lft\<rparr>))\<rparr>"
  by (simp add: put_telnet_def)

lemma put_http_eq:
  "put_http k ph ok hx sy = \<lparr>sy_w = hx_w hx, sy_online = sy_online sy, sy_clients = (sy_clients sy)(k := Some
     (Http \<lparr>hl_c = hx_c hx, hl_phase = ph, hl_healthy = ok\<rparr>))\<rparr>"
  by (simp add: put_http_def)

lemma telnet_ctx_inv:
  "sys_inv sq tables sy \<Longrightarrow> sy_clients sy k = Some (Telnet c) \<Longrightarrow> sess_inv (tctx_of sy tm mem c)"
  by (force simp: sys_inv_def tctx_of_def)

lemma telnet_turn_moved:
  assumes "sqlite_chat sq tables" "opened_ok sq tables" "sys_inv sq tables sy" "sy_clients sy k = Some (Telnet c)"
    and "guar sq (tctx_of sy tm mem c) cx" "sess_inv cx"
  shows "moved sq tables k sy (put_telnet k dl lft cx sy)"
  unfolding put_telnet_eq
proof (rule turn_moved [OF assms(1-4)])
  show "(client_step sq (client_wfd (Telnet c)))\<^sup>*\<^sup>* (sy_w sy) (cx_w cx)"
    using assms(5) by (simp add: guar_def tctx_of_def)
  have "ts_notify_wfd (cx_s cx) = ts_notify_wfd (tc_s c)" using assms(5) by (simp add: guar_def tctx_of_def)
  moreover have "client_inv sq tables (cx_w cx) (Telnet \<lparr>tc_s = cx_s cx, tc_deadline = dl,
      tc_overread = cx_overread cx, tc_left = lft\<rparr>)"
    by (rule telnet_client_invI [OF assms(6)]) simp_all
  ultimately show "case Some (Telnet \<lparr>tc_s = cx_s cx, tc_deadline = dl,
      tc_overread = cx_overread cx, tc_left = lft\<rparr>) of None \<Rightarrow> sub_only (client_wfd (Telnet c)) None (cx_w cx)
    | Some c' \<Rightarrow> client_wfd c' = client_wfd (Telnet c) \<and> client_inv sq tables (cx_w cx) c'"
    by (simp del: client_inv.simps)
qed

text \<open>A thread that has given up its room closes its pipe and is gone.\<close>

lemma client_gone_moved:
  assumes "sqlite_chat sq tables" "opened_ok sq tables" "sys_inv sq tables sy" "sy_clients sy k = Some c"
    and "(client_step sq (client_wfd c))\<^sup>*\<^sup>* (sy_w sy) w1" "sub_only (client_wfd c) None w1"
    and w': "w' = (if 0 \<le> client_wfd c then w1\<lparr>w_pipes := (w_pipes w1)(client_wfd c := None)\<rparr> else w1)"
  shows "moved sq tables k sy \<lparr>sy_w = w', sy_online = n, sy_clients = (sy_clients sy)(k := None)\<rparr>"
proof (rule movedI [where wfd = "client_wfd c"])
  have app: "app_inv tables (sy_w sy)" using assms(3) by (simp add: sys_inv_def)
  show "rely tables fd (sy_w sy) w'" if "0 \<le> fd \<Longrightarrow> fd \<noteq> client_wfd c" for fd
  proof (rule rely_trans [OF app])
    show "rely tables fd (sy_w sy) w1" using assms(1,2) app assms(5) that by (rule guarantee_rely)
    have "rely tables fd w1 (w1\<lparr>w_pipes := (w_pipes w1)(client_wfd c := None)\<rparr>)" using that by (rule rely_close)
    moreover have "rely tables fd w1 w1" by (rule rely_frame) simp_all
    ultimately show "rely tables fd w1 w'" unfolding w' by presburger
  qed
  show "case None of None \<Rightarrow> sub_only (client_wfd c) None w' | Some c' \<Rightarrow> client_wfd c' = client_wfd c
      \<and> client_inv sq tables w' c' \<and> pipe_open w' c'"
    using assms(6) by (simp add: w')
qed (use assms(4) in simp_all)

lemma telnet_finish_moved:
  assumes "sqlite_chat sq tables" "opened_ok sq tables" "sys_inv sq tables sy" "sy_clients sy k = Some (Telnet c)"
    and cx: "cx = telnet_close (telnet_end_game sq (tctx_of sy tm mem c))"
  shows "moved sq tables k sy (drop_client k (put_telnet k dl lft cx sy))"
proof -
  let ?cx0 = "tctx_of sy tm mem c" and ?w1 = "cx_w (telnet_end_game sq (tctx_of sy tm mem c))"
  have g: "guar sq ?cx0 (telnet_end_game sq ?cx0)" by (rule guar_telnet_end_game)
  note e = telnet_end_game_clean [OF telnet_ctx_inv [OF assms(3,4)], of sq tm mem]
  have wfd: "ts_notify_wfd (cx_s (telnet_end_game sq ?cx0)) = ts_notify_wfd (tc_s c)"
    using e(2) by (simp add: tctx_of_def)
  have "drop_client k (put_telnet k dl lft cx sy) = \<lparr>sy_w = cx_w cx, sy_online = cx_online cx,
      sy_clients = (sy_clients sy)(k := None)\<rparr>"
    by (simp add: drop_client_def put_telnet_eq)
  moreover have "moved sq tables k sy \<lparr>sy_w = cx_w cx, sy_online = cx_online cx, sy_clients = (sy_clients sy)(k := None)\<rparr>"
  proof (rule client_gone_moved [OF assms(1-4)])
    show "(client_step sq (client_wfd (Telnet c)))\<^sup>*\<^sup>* (sy_w sy) ?w1" using g by (simp add: guar_def tctx_of_def)
    show "sub_only (client_wfd (Telnet c)) None ?w1" using e(1) wfd by (simp add: menu_ok_def)
    show "cx_w cx = (if 0 \<le> client_wfd (Telnet c)
        then ?w1\<lparr>w_pipes := (w_pipes ?w1)(client_wfd (Telnet c) := None)\<rparr> else ?w1)"
      using wfd by (simp add: cx telnet_close_def Let_def)
  qed
  ultimately show ?thesis by simp
qed

lemma telnet_stop_moved:
  assumes "sqlite_chat sq tables" "sys_inv sq tables sy" "sy_clients sy k = Some (Telnet c)"
  shows "moved sq tables k sy (sy\<lparr>sy_w := (sy_w sy)\<lparr>w_pipes := pipe_write (ts_notify_wfd (tc_s c)) (w_pipes (sy_w sy))\<rparr>,
       sy_clients := (sy_clients sy)(k \<mapsto> Telnet (c\<lparr>tc_s := (tc_s c)\<lparr>ts_shutdown_requested := True\<rparr>\<rparr>))\<rparr>)"
proof -
  let ?w = "(sy_w sy)\<lparr>w_pipes := pipe_write (ts_notify_wfd (tc_s c)) (w_pipes (sy_w sy))\<rparr>"
  let ?c = "c\<lparr>tc_s := (tc_s c)\<lparr>ts_shutdown_requested := True\<rparr>\<rparr>"
  let ?cx = "tctx_of sy undefined True c"
  have app: "app_inv tables (sy_w sy)" using assms(2) by (simp add: sys_inv_def)
  have "env_step ?cx \<lparr>cx_s = tc_s ?c, cx_w = ?w, cx_online = 0, cx_tm = undefined, cx_mem = True, cx_overread = cx_overread ?cx\<rparr>"
    by (rule env_stepI [where stop = True]) (use relyD(1) [OF rely_wake app] in \<open>simp_all add: tctx_of_def\<close>)
  from env_step_inv [OF telnet_ctx_inv [OF assms(2,3)] this]
  have "client_inv sq tables ?w (Telnet ?c)"
    using telnet_client_invI [of "\<lparr>cx_s = tc_s ?c, cx_w = ?w, cx_online = 0, cx_tm = undefined, cx_mem = True, cx_overread = cx_overread ?cx\<rparr>" ?c]
    by (simp add: tctx_of_def del: client_inv.simps)
  moreover have "pipe_open (sy_w sy) (Telnet c)" using assms(2,3) by (simp add: sys_inv_def)
  then have "pipe_open ?w (Telnet ?c)" by (auto simp: pipe_open_def simp flip: domIff)
  ultimately have "moved sq tables k sy \<lparr>sy_w = ?w, sy_online = sy_online sy, sy_clients = (sy_clients sy)(k := Some (Telnet ?c))\<rparr>"
    using rely_wake by (intro movedI [where wfd = "ts_notify_wfd (tc_s c)"])
      (use assms(3) in \<open>auto simp del: client_inv.simps\<close>)
  then show ?thesis by (cases sy) simp
qed

text \<open>An arrival: the new thread starts with a descriptor nobody has.\<close>

lemma open_pipe_facts:
  "w_rooms (open_pipe p w) = w_rooms w" "w_once (open_pipe p w) = w_once w" "w_db (open_pipe p w) = w_db w"
  "sub_only fd r (open_pipe p w) = sub_only fd r w" "app_inv tables (open_pipe p w) = app_inv tables w"
  "0 \<le> pipe_wfd p \<Longrightarrow> pipe_wfd p \<in> dom (w_pipes (open_pipe p w))"
  by (auto simp: open_pipe_def pipe_wfd_def split: option.split)

lemma rely_open_pipe: "(0 \<le> fd \<Longrightarrow> fd \<noteq> pipe_wfd p) \<Longrightarrow> rely tables fd w (open_pipe p w)"
  using rely_open [of fd "pipe_wfd p" tables w] rely_frame [of w w fd tables]
  by (cases p) (auto simp: open_pipe_def pipe_wfd_def)

lemma fresh_sub_only:
  assumes "sys_inv sq tables sy" "pipe_fresh sy p"
  shows "sub_only (pipe_wfd p) None (sy_w sy)"
    "0 \<le> pipe_wfd p \<Longrightarrow> (\<forall>k c. sy_clients sy k = Some c \<longrightarrow> client_wfd c \<noteq> pipe_wfd p)"
proof -
  show un: "0 \<le> pipe_wfd p \<Longrightarrow> (\<forall>k c. sy_clients sy k = Some c \<longrightarrow> client_wfd c \<noteq> pipe_wfd p)"
    using assms(2) by (cases p) (auto simp: pipe_fresh_def pipe_wfd_def)
  show "sub_only (pipe_wfd p) None (sy_w sy)"
  proof (cases "0 \<le> pipe_wfd p")
    case True
    with un assms(1) show ?thesis by (simp add: sys_inv_def)
  qed (simp add: sub_only_def)
qed

lemma arrival_moved:
  assumes "sqlite_chat sq tables" "opened_ok sq tables" "sys_inv sq tables sy" "sy_clients sy k = None" "pipe_fresh sy p"
    and "client_wfd c = pipe_wfd p" "(client_step sq (pipe_wfd p))\<^sup>*\<^sup>* (open_pipe p (sy_w sy)) w'" "client_inv sq tables w' c"
  shows "moved sq tables k sy \<lparr>sy_w = w', sy_online = n, sy_clients = (sy_clients sy)(k := Some c)\<rparr>"
proof (rule movedI [where wfd = "pipe_wfd p"])
  have app: "app_inv tables (sy_w sy)" using assms(3) by (simp add: sys_inv_def)
  then have app0: "app_inv tables (open_pipe p (sy_w sy))" by (simp add: open_pipe_facts)
  show "rely tables fd (sy_w sy) w'" if "0 \<le> fd \<Longrightarrow> fd \<noteq> pipe_wfd p" for fd
    using rely_trans [OF app rely_open_pipe [OF that] guarantee_rely [OF assms(1,2) app0 assms(7) that]] .
  show "0 \<le> pipe_wfd p \<Longrightarrow> \<forall>k c. sy_clients sy k = Some c \<longrightarrow> client_wfd c \<noteq> pipe_wfd p"
    using fresh_sub_only(2) [OF assms(3,5)] .
  have "pipe_open w' c"
    using open_pipe_facts(6) [of p "sy_w sy"] client_steps_dom [OF assms(7)] assms(6) by (simp add: pipe_open_def)
  with assms(6,8) show "case Some c of None \<Rightarrow> sub_only (pipe_wfd p) None w'
    | Some c' \<Rightarrow> client_wfd c' = pipe_wfd p \<and> client_inv sq tables w' c' \<and> pipe_open w' c'" by simp
qed (use assms(4) in simp)

lemma telnet_accept_moved:
  assumes "sqlite_chat sq tables" "opened_ok sq tables" "sys_inv sq tables sy" "sy_clients sy k = None" "pipe_fresh sy p"
    and cr: "telnet_create_session sq sk peer mem p = Some s"
    and cx: "cx = telnet_begin sq \<lparr>cx_s = s\<lparr>ts_shutdown_requested := down\<rparr>, cx_w = open_pipe p (sy_w sy),
       cx_online = sy_online sy, cx_tm = tm, cx_mem = mem', cx_overread = False\<rparr>"
  shows "moved sq tables k sy (put_telnet k dl False cx sy)"
proof -
  let ?cx0 = "\<lparr>cx_s = s, cx_w = open_pipe p (sy_w sy), cx_online = sy_online sy, cx_tm = tm, cx_mem = mem', cx_overread = False\<rparr>"
  let ?cx1 = "\<lparr>cx_s = s\<lparr>ts_shutdown_requested := down\<rparr>, cx_w = open_pipe p (sy_w sy),
       cx_online = sy_online sy, cx_tm = tm, cx_mem = mem', cx_overread = False\<rparr>"
  have wfd: "ts_notify_wfd s = pipe_wfd p"
    using cr by (auto simp: telnet_create_session_def pipe_wfd_def Let_def split: if_splits option.splits)
  have app: "app_inv tables (open_pipe p (sy_w sy))" using assms(3) by (simp add: sys_inv_def open_pipe_facts)
  have "sess_inv ?cx0"
    by (rule fresh_session_inv) (use cr fresh_sub_only(1) [OF assms(3,5)] app_inv_pre [OF app] in \<open>simp_all add: wfd open_pipe_facts\<close>)
  then have "sess_inv ?cx1"
    by (rule env_step_inv) (use env_stepI [of ?cx0 "open_pipe p (sy_w sy)" _ down] fresh_fields(13) [OF cr] in simp)
  then have i: "sess_inv cx" unfolding cx by (rule telnet_begin_inv)
  have g: "guar sq ?cx1 cx" unfolding cx by (rule guar_telnet_begin)
  show ?thesis unfolding put_telnet_eq
  proof (rule arrival_moved [OF assms(1-5)])
    show "(client_step sq (pipe_wfd p))\<^sup>*\<^sup>* (open_pipe p (sy_w sy)) (cx_w cx)" using g by (simp add: guar_def wfd)
    show "client_inv sq tables (cx_w cx) (Telnet \<lparr>tc_s = cx_s cx, tc_deadline = dl, tc_overread = cx_overread cx, tc_left = False\<rparr>)"
      by (rule telnet_client_invI [OF i]) simp_all
    show "client_wfd (Telnet \<lparr>tc_s = cx_s cx, tc_deadline = dl, tc_overread = cx_overread cx, tc_left = False\<rparr>) = pipe_wfd p"
      using g by (simp add: guar_def wfd)
  qed
qed

lemma http_accept_moved:
  assumes "sqlite_chat sq tables" "opened_ok sq tables" "sys_inv sq tables sy" "sy_clients sy k = None" "pipe_fresh sy p"
    and cr: "http_create_session sk mem p = Some c"
  shows "moved sq tables k sy (put_http k H_read (open_conn c) \<lparr>hx_c = c\<lparr>hc_shutdown_requested := down\<rparr>, hx_w = open_pipe p (sy_w sy)\<rparr> sy)"
proof -
  have wfd: "hc_notify_wfd c = pipe_wfd p"
    using cr by (auto simp: http_create_session_def pipe_wfd_def Let_def split: if_splits option.splits)
  show ?thesis unfolding put_http_eq
    by (rule arrival_moved [OF assms(1-5)])
       (use fresh_sub_only(1) [OF assms(3,5)] in \<open>simp_all add: wfd phase_inv_def open_pipe_facts\<close>)
qed

lemma http_turn_moved:
  assumes "sqlite_chat sq tables" "opened_ok sq tables" "sys_inv sq tables sy"
    "sy_clients sy k = Some (Http \<lparr>hl_c = c, hl_phase = ph0, hl_healthy = ok\<rparr>)"
    and "hguar sq (hctx_of sy c) hx" "phase_inv sq tables (hx_w hx) \<lparr>hl_c = hx_c hx, hl_phase = ph, hl_healthy = ok\<rparr>"
  shows "moved sq tables k sy (put_http k ph ok hx sy)"
  unfolding put_http_eq
  by (rule turn_moved [OF assms(1-4)]) (use assms(5,6) in \<open>simp_all add: hguar_def hctx_of_def\<close>)

lemma http_phase_inv:
  "sys_inv sq tables sy \<Longrightarrow> sy_clients sy k = Some (Http c) \<Longrightarrow> phase_inv sq tables (sy_w sy) c"
  by (force simp: sys_inv_def)

lemma http_unread_moved:
  assumes "sqlite_chat sq tables" "opened_ok sq tables" "sys_inv sq tables sy"
    and cl: "sy_clients sy k = Some (Http \<lparr>hl_c = c, hl_phase = H_read, hl_healthy = ok\<rparr>)"
    and rd: "read_request evs c buf0 0 no_request = Some (c', tot, req)"
  shows "moved sq tables k sy (put_http k H_done ok (hctx_of sy c') sy)"
proof (rule http_turn_moved [OF assms(1-4)])
  have a: "c' = c \<or> answered c c'" using read_request_outcome [OF rd] by auto
  then have wfd: "hc_notify_wfd c' = hc_notify_wfd c" by (auto simp: answered_def)
  then show "hguar sq (hctx_of sy c) (hctx_of sy c')" by (simp add: hguar_def hctx_of_def)
  show "phase_inv sq tables (hx_w (hctx_of sy c')) \<lparr>hl_c = hx_c (hctx_of sy c'), hl_phase = H_done, hl_healthy = ok\<rparr>"
    using http_phase_inv [OF assms(3) cl] a wfd by (auto simp: phase_inv_def hctx_of_def answered_def)
qed

lemma http_answer_moved:
  assumes "sqlite_chat sq tables" "opened_ok sq tables" "sys_inv sq tables sy"
    and cl: "sy_clients sy k = Some (Http \<lparr>hl_c = c, hl_phase = H_read, hl_healthy = ok\<rparr>)"
    and d: "http_dispatch sq (alone env) (hctx_of sy c) req = Some hx"
  shows "moved sq tables k sy (put_http k H_done ok (http_fallback hx) sy)"
proof (rule http_turn_moved [OF assms(1-4)])
  have app: "app_inv tables (hx_w (hctx_of sy c))" using assms(3) by (simp add: sys_inv_def hctx_of_def)
  have s: "served tables (hctx_of sy c) hx"
    by (rule http_world.http_dispatch_served [OF http_world_alone [OF assms(1,2)] app d])
  then have f: "http_fallback hx = hx" by (simp add: served_def answered_def http_fallback_def)
  show "hguar sq (hctx_of sy c) (http_fallback hx)" unfolding f using d by (rule hguar_http_dispatch)
  show "phase_inv sq tables (hx_w (http_fallback hx)) \<lparr>hl_c = hx_c (http_fallback hx), hl_phase = H_done, hl_healthy = ok\<rparr>"
    using http_phase_inv [OF assms(3) cl] s by (auto simp: f phase_inv_def served_def hctx_of_def answered_def)
qed

text \<open>The event stream step by step.\<close>

lemma told_fromI:
  assumes "on_stream tables room rid base cur dels hx" "conn_sent (hx_c hx) = pre @ concat (map sse_frame fs)"
    "list_all frame_ok fs" "data_of fs = map msg_text dels"
  shows "told_from tables base pre (hx_w hx) room cur (hx_c hx)"
proof -
  have "\<lparr>hx_c = hx_c hx, hx_w = hx_w hx\<rparr> = hx" by simp
  moreover have "r_id (room_at (hx_w hx) room) = rid" using assms(1) by (simp add: on_stream_def)
  ultimately show ?thesis unfolding told_from_def using assms by metis
qed

context sqlite_chat
begin

lemma sse_tail_told:
  assumes "readable sq" "app_inv tables w" "w_once w" "room < length (w_rooms w)" "open_conn c"
    and t: "sse_tail sq room \<lparr>hx_c = c, hx_w = w\<rparr> = (cur, hx)"
  shows "told_from tables (wlog tables w (r_id (room_at w room))) (conn_sent c @ sse_head) (hx_w hx) room cur (hx_c hx)"
    and "conn_sent (hx_c hx) = conn_sent c @ sse_head" and "hx_w hx = w"
proof -
  let ?log = "wlog tables w (r_id (room_at w room))"
  have wf: "db_wf tables (w_db w)" using assms(2) by (simp add: app_inv_def service_inv_def)
  have rd: "db_readable sq (w_db w)" using assms(1) by (simp add: readable_def)
  have hx: "hx = \<lparr>hx_c = http_sse_begin c, hx_w = w\<rparr>" "cur = chat_room_tail sq w room"
    using t by (auto simp: sse_tail_def with_conn_def Let_def)
  show sent: "conn_sent (hx_c hx) = conn_sent c @ sse_head" and "hx_w hx = w"
    using begin_conn(6) [OF assms(5)] by (simp_all add: hx)
  have "newer cur ?log = []"
    using chatlog.tail_nothing_new [OF wf rd, of "r_id (room_at w room)"] by (simp add: newer_def hx chat_room_tail_def)
  moreover have "at_cursor cur ?log"
    using chatlog.tail_eq [OF wf rd, of "r_id (room_at w room)"] by (simp add: at_cursor_def hx chat_room_tail_def)
  ultimately have "on_stream tables room (r_id (room_at w room)) ?log cur [] hx"
    using assms(2-5) begin_conn(5) by (simp add: on_stream_def stream_at_def hx)
  then show "told_from tables ?log (conn_sent c @ sse_head) (hx_w hx) room cur (hx_c hx)"
    by (rule told_fromI [where fs = "[]"]) (simp_all add: sent)
qed

lemma sse_subscribe_stream:
  assumes "on_stream tables room (r_id (room_at w room)) base cur dels \<lparr>hx_c = c, hx_w = w\<rparr>"
    and "hx = sse_subscribe sq room req \<lparr>hx_c = c, hx_w = w\<rparr>"
  shows "on_stream tables room (r_id (room_at w room)) base cur dels hx"
    "conn_sent (hx_c hx) = conn_sent c @ sse_frame (Sse_comment ''connected'')"
proof -
  let ?hx1 = "\<lparr>hx_c = c, hx_w = chat_room_subscribe w room (hc_notify_wfd c)\<rparr>"
  let ?hx2 = "sse_presence sq room (sse_user req) ?hx1"
  have "app_inv tables w" using assms(1) by (simp add: on_stream_def)
  then have "app_inv tables (chat_room_subscribe w room (hc_notify_wfd c))" by (rule app_inv_subs)
  then have "on_stream tables room (r_id (room_at w room)) base cur dels ?hx1"
    using assms(1) by (auto simp: on_stream_def chat_room_subscribe_def update_subs_def)
  note p = presence_stream [OF this, of room "sse_user req"]
  have hx: "hx = ?hx2\<lparr>hx_c := fst (http_sse_comment c ''connected'')\<rparr>"
    using p(2) by (simp add: assms(2) sse_subscribe_def http_conn_notify_wfd_def with_conn_def Let_def)
  have o: "open_conn c" using assms(1) by (simp add: on_stream_def)
  show "on_stream tables room (r_id (room_at w room)) base cur dels hx"
    using p(1) send_three_open(1) [OF o] by (simp add: on_stream_def hx http_sse_comment_def)
  show "conn_sent (hx_c hx) = conn_sent c @ sse_frame (Sse_comment ''connected'')"
    using send_three_open(2) [OF o] by (simp add: hx http_sse_comment_def)
qed

lemma sse_subscribe_told:
  assumes "told_from tables base pre w room cur c" "hx = sse_subscribe sq room req \<lparr>hx_c = c, hx_w = w\<rparr>"
  shows "told_from tables base pre (hx_w hx) room cur (hx_c hx)"
proof -
  obtain fs dels where t: "on_stream tables room (r_id (room_at w room)) base cur dels \<lparr>hx_c = c, hx_w = w\<rparr>"
    "conn_sent c = pre @ concat (map sse_frame fs)" "list_all frame_ok fs" "data_of fs = map msg_text dels"
    using assms(1) by (auto simp: told_from_def)
  from sse_subscribe_stream [OF t(1) assms(2)] t(2-4) show ?thesis
    by (intro told_fromI [where fs = "fs @ [Sse_comment ''connected'']"]) auto
qed

text \<open>The greeting of a stream that has sent nothing but its header.\<close>

lemma sse_subscribe_greets:
  assumes "told_from tables base pre w room cur c" "conn_sent c = pre" "hx = sse_subscribe sq room req \<lparr>hx_c = c, hx_w = w\<rparr>"
  shows "told_from tables base (pre @ sse_frame (Sse_comment ''connected'')) (hx_w hx) room cur (hx_c hx)"
proof -
  obtain fs dels where t: "on_stream tables room (r_id (room_at w room)) base cur dels \<lparr>hx_c = c, hx_w = w\<rparr>"
    "concat (map sse_frame fs) = []" "data_of fs = map msg_text dels"
    using assms(1,2) by (auto simp: told_from_def)
  have "sse_frame f \<noteq> []" for f by (cases f) simp_all
  with t(2) have "fs = []" by (cases fs) auto
  with t(3) have "dels = []" by simp
  with sse_subscribe_stream [OF t(1) assms(3)] assms(2) show ?thesis by (intro told_fromI [where fs = "[]"]) auto
qed

lemma sse_turn_told:
  assumes "readable sq" "told_from tables base pre w room cur c"
    and r: "r = sse_turn sq room user (here ev) cur \<lparr>hx_c = c, hx_w = w\<rparr>"
  shows "told_from tables base pre (hx_w (sse_hx r)) room (sse_cursor r) (hx_c (sse_hx r))"
proof -
  let ?hx = "\<lparr>hx_c = c, hx_w = w\<rparr>"
  obtain fs dels where t: "on_stream tables room (r_id (room_at w room)) base cur dels ?hx"
    "conn_sent c = pre @ concat (map sse_frame fs)" "list_all frame_ok fs" "data_of fs = map msg_text dels"
    using assms(2) by (auto simp: told_from_def)
  have o: "others_step tables ?hx (ht_env (here ev) ?hx)" by (simp add: here_def)
  have st: "sse_turn sq room user (here ev) cur ?hx = Sse_stop (sse_cursor r) (sse_hx r)
      \<or> sse_turn sq room user (here ev) cur ?hx = Sse_go (sse_cursor r) (sse_hx r)"
    unfolding r [symmetric] by (cases r) simp_all
  have rd: "\<And>s. db_readable sq s" using assms(1) by (simp add: readable_def)
  obtain fs' ms where n: "on_stream tables room (r_id (room_at w room)) base (sse_cursor r) (dels @ ms) (sse_hx r)"
    "conn_sent (hx_c (sse_hx r)) = conn_sent c @ concat (map sse_frame fs')" "data_of fs' = map msg_text ms" "list_all frame_ok fs'"
    using sse_turn_stream [OF o rd t(1) st] by auto
  from n(1) show ?thesis
    by (rule told_fromI [where fs = "fs @ fs'"]) (use t n in simp_all)
qed

end

lemma http_open_moved:
  assumes "sqlite_chat sq tables" "opened_ok sq tables" "sys_inv sq tables sy"
    and cl: "sy_clients sy k = Some (Http \<lparr>hl_c = c, hl_phase = H_read, hl_healthy = ok\<rparr>)"
    and room: "events_room sq req (sy_w sy) = Some room"
    and t: "sse_tail sq room \<lparr>hx_c = c, hx_w = chat_service_init sq (sy_w sy)\<rparr> = (cur, hx)"
  shows "moved sq tables k sy (put_http k (H_tail room cur req) ok hx sy)"
proof (rule http_turn_moved [OF assms(1-4)])
  let ?w = "chat_service_init sq (sy_w sy)"
  have hx: "hx = \<lparr>hx_c = http_sse_begin c, hx_w = ?w\<rparr>" using t by (auto simp: sse_tail_def with_conn_def Let_def)
  show "hguar sq (hctx_of sy c) hx" by (simp add: hguar_def hctx_of_def hx cl_init r_into_rtranclp)
  have app: "app_inv tables (sy_w sy)" using assms(3) by (simp add: sys_inv_def)
  have app': "app_inv tables ?w"
    using sqlite_chat.init_store_env [OF assms(1,2), of "sy_w sy"] app by (simp add: store_env_def)
  have i: "room < length (w_rooms ?w)"
    using find_room_Some [of "w_rooms ?w" _ 0 room] room by (auto simp: events_room_def chat_room_by_id_def Let_def)
  have "readable sq \<and> ok \<longrightarrow> told tables (hx_w hx) room cur (hx_c hx)"
    using sqlite_chat.sse_tail_told(1) [OF assms(1) _ app' init_once i _ t] http_phase_inv [OF assms(3) cl]
    by (auto simp: phase_inv_def told_def)
  with http_phase_inv [OF assms(3) cl] i sub_only_init [OF app_inv_pre [OF app]]
  show "phase_inv sq tables (hx_w hx) \<lparr>hl_c = hx_c hx, hl_phase = H_tail room cur req, hl_healthy = ok\<rparr>"
    by (simp add: phase_inv_def hx init_once begin_conn(5))
qed

lemma presence_hx [simp]:
  "hx_c (sse_presence sq room u hx) = hx_c hx" "w_once (hx_w (sse_presence sq room u hx)) = w_once (hx_w hx)"
  "w_rooms (hx_w (sse_presence sq room u hx)) = w_rooms (hx_w hx)"
  "sub_only fd r (hx_w (sse_presence sq room u hx)) = sub_only fd r (hx_w hx)"
  by (simp_all add: sse_presence_def split: option.split)

lemma http_subscribe_moved:
  assumes "sqlite_chat sq tables" "opened_ok sq tables" "sys_inv sq tables sy"
    and cl: "sy_clients sy k = Some (Http \<lparr>hl_c = c, hl_phase = H_tail room cur req, hl_healthy = ok\<rparr>)"
  shows "moved sq tables k sy (put_http k (H_stream room cur req) ok (sse_subscribe sq room req (hctx_of sy c)) sy)"
proof (rule http_turn_moved [OF assms(1-4) hguar_sse_subscribe])
  let ?hx = "sse_subscribe sq room req (hctx_of sy c)"
  have i: "sub_only (hc_notify_wfd c) None (sy_w sy)" "w_once (sy_w sy)" "room < length (w_rooms (sy_w sy))"
    and told: "readable sq \<and> ok \<longrightarrow> told tables (sy_w sy) room cur c"
    using http_phase_inv [OF assms(3) cl] by (simp_all add: phase_inv_def)
  have "sub_only (hc_notify_wfd c) (Some room) (hx_w ?hx)" "w_once (hx_w ?hx)" "room < length (w_rooms (hx_w ?hx))"
    using i sub_only_subscribe [OF i(1,3)]
    by (simp_all add: sse_subscribe_def with_conn_def hctx_of_def http_conn_notify_wfd_def Let_def)
       (simp add: chat_room_subscribe_def)
  moreover have "hc_notify_wfd (hx_c ?hx) = hc_notify_wfd c" "ok \<longrightarrow> open_conn (hx_c ?hx)"
    using http_phase_inv [OF assms(3) cl] send_three_open(1)
    by (auto simp: sse_subscribe_def with_conn_def hctx_of_def phase_inv_def http_sse_comment_def Let_def)
  moreover have "readable sq \<and> ok \<longrightarrow> told tables (hx_w ?hx) room cur (hx_c ?hx)"
    using told sqlite_chat.sse_subscribe_told [OF assms(1), of _ _ "sy_w sy" room cur c ?hx req]
    by (auto simp: hctx_of_def told_def)
  ultimately show "phase_inv sq tables (hx_w ?hx) \<lparr>hl_c = hx_c ?hx, hl_phase = H_stream room cur req, hl_healthy = ok\<rparr>"
    by (simp add: phase_inv_def)
qed

lemma stream_turn_moved:
  assumes "sqlite_chat sq tables" "opened_ok sq tables" "sys_inv sq tables sy"
    and cl: "sy_clients sy k = Some (Http \<lparr>hl_c = c, hl_phase = H_stream room cur req, hl_healthy = ok\<rparr>)"
    and r: "sse_turn sq room (sse_user req) (here ev) cur (hctx_of sy c) = r"
  shows "moved sq tables k sy (case r of Sse_go cur' hx \<Rightarrow> put_http k (H_stream room cur' req) ok hx sy
       | Sse_stop cur' hx \<Rightarrow> put_http k H_done ok (sse_close sq room req hx) sy)"
proof -
  have app: "app_inv tables (sy_w sy)" using assms(3) by (simp add: sys_inv_def)
  have i: "sub_only (hc_notify_wfd c) (Some room) (sy_w sy)" "w_once (sy_w sy)" "room < length (w_rooms (sy_w sy))"
    and told: "readable sq \<and> ok \<longrightarrow> told tables (sy_w sy) room cur c"
    using http_phase_inv [OF assms(3) cl] by (simp_all add: phase_inv_def)
  have o: "others_step tables (hctx_of sy c) (ht_env (here ev) (hctx_of sy c))" by (simp add: here_def)
  have si: "sse_inv tables True (hc_notify_wfd c) room (hctx_of sy c)"
    using app i by (simp add: sse_inv_def hctx_of_def)
  have st: "sse_turn sq room (sse_user req) (here ev) cur (hctx_of sy c) = Sse_stop (sse_cursor r) (sse_hx r)
      \<or> sse_turn sq room (sse_user req) (here ev) cur (hctx_of sy c) = Sse_go (sse_cursor r) (sse_hx r)"
    unfolding r by (cases r) simp_all
  have n: "sse_inv tables True (hc_notify_wfd c) room (sse_hx r)"
    using sqlite_chat.sse_turn_inv [OF assms(1) o si st] by blast
  have g: "hguar sq (hctx_of sy c) (sse_hx r)" unfolding r [symmetric] by (rule hguar_sse_turn) (simp add: here_def)
  have o_ok: "ok \<longrightarrow> open_conn (hx_c (sse_hx r))"
    using sqlite_chat.sse_turn_inv [OF assms(1) o si st] http_phase_inv [OF assms(3) cl]
    by (simp add: streamed_def hctx_of_def phase_inv_def)
  have t: "readable sq \<and> ok \<longrightarrow> told tables (hx_w (sse_hx r)) room (sse_cursor r) (hx_c (sse_hx r))"
    using told sqlite_chat.sse_turn_told [OF assms(1), of _ _ "sy_w sy" room cur c r "sse_user req" ev] r
    by (auto simp: hctx_of_def told_def)
  show ?thesis
  proof (cases r)
    case (Sse_go cur' hx)
    with n g t o_ok show ?thesis by (auto intro!: http_turn_moved [OF assms(1-4)] simp: phase_inv_def sse_inv_def)
  next
    case (Sse_stop cur' hx)
    have hx: "room < length (w_rooms (hx_w hx))" "sub_only (hc_notify_wfd c) (Some room) (hx_w hx)" "hc_notify_wfd (hx_c hx) = hc_notify_wfd c"
      using n Sse_stop by (simp_all add: sse_inv_def)
    have "hguar sq (hctx_of sy c) (sse_close sq room req hx)"
      using g Sse_stop by (auto intro: hguar_trans [OF _ hguar_sse_close])
    moreover have "sub_only (hc_notify_wfd c) None (hx_w (sse_close sq room req hx))"
      using sub_only_unsubscribe [OF hx(2,1)] hx(3)
      by (simp add: sse_close_def http_conn_notify_wfd_def Let_def split: option.split)
    moreover have "hx_c (sse_close sq room req hx) = hx_c hx" by (simp add: sse_close_def Let_def)
    ultimately show ?thesis
      using Sse_stop hx o_ok by (auto intro!: http_turn_moved [OF assms(1-4)] simp: phase_inv_def)
  qed
qed

lemma http_finish_moved:
  assumes "sqlite_chat sq tables" "opened_ok sq tables" "sys_inv sq tables sy"
    and cl: "sy_clients sy k = Some (Http \<lparr>hl_c = c, hl_phase = H_done, hl_healthy = ok\<rparr>)"
  shows "moved sq tables k sy (drop_client k (put_http k H_done ok (conn_close drain (hctx_of sy c)) sy))"
proof -
  let ?w = "if 0 \<le> hc_notify_wfd c then (sy_w sy)\<lparr>w_pipes := (w_pipes (sy_w sy))(hc_notify_wfd c := None)\<rparr> else sy_w sy"
  have "moved sq tables k sy \<lparr>sy_w = ?w, sy_online = sy_online sy, sy_clients = (sy_clients sy)(k := None)\<rparr>"
    by (rule client_gone_moved [OF assms(1-4), where ?w1.0 = "sy_w sy"])
       (use http_phase_inv [OF assms(3) cl] in \<open>simp_all add: phase_inv_def\<close>)
  moreover have "drop_client k (put_http k H_done ok (conn_close drain (hctx_of sy c)) sy)
      = \<lparr>sy_w = ?w, sy_online = sy_online sy, sy_clients = (sy_clients sy)(k := None)\<rparr>"
    by (simp add: drop_client_def put_http_eq conn_close_def hctx_of_def Let_def)
  ultimately show ?thesis by simp
qed

lemma told_flag:
  "told_from tables base pre w room cur (c\<lparr>hc_shutdown_requested := b\<rparr>) = told_from tables base pre w room cur c"
  "told tables w room cur (c\<lparr>hc_shutdown_requested := b\<rparr>) = told tables w room cur c"
  by (simp_all add: told_def told_from_def on_stream_def)

lemma http_stop_moved:
  assumes "sqlite_chat sq tables" "sys_inv sq tables sy" "sy_clients sy k = Some (Http c)"
  shows "moved sq tables k sy (sy\<lparr>sy_w := (sy_w sy)\<lparr>w_pipes := pipe_write (hc_notify_wfd (hl_c c)) (w_pipes (sy_w sy))\<rparr>,
       sy_clients := (sy_clients sy)(k \<mapsto> Http (c\<lparr>hl_c := (hl_c c)\<lparr>hc_shutdown_requested := True\<rparr>\<rparr>))\<rparr>)"
proof -
  let ?w = "(sy_w sy)\<lparr>w_pipes := pipe_write (hc_notify_wfd (hl_c c)) (w_pipes (sy_w sy))\<rparr>"
  let ?c = "c\<lparr>hl_c := (hl_c c)\<lparr>hc_shutdown_requested := True\<rparr>\<rparr>"
  have app: "app_inv tables (sy_w sy)" using assms(2) by (simp add: sys_inv_def)
  have "client_inv sq tables ?w (Http c)"
    by (rule client_rely [OF assms(1) app rely_wake]) (use http_phase_inv [OF assms(2,3)] in simp)
  then have "client_inv sq tables ?w (Http ?c)"
    by (cases "hl_phase c") (simp_all add: phase_inv_def told_flag)
  moreover have "pipe_open (sy_w sy) (Http c)" using assms(2,3) by (simp add: sys_inv_def)
  then have "pipe_open ?w (Http ?c)" by (auto simp: pipe_open_def simp flip: domIff)
  ultimately have "moved sq tables k sy \<lparr>sy_w = ?w, sy_online = sy_online sy, sy_clients = (sy_clients sy)(k := Some (Http ?c))\<rparr>"
    using rely_wake by (intro movedI [where wfd = "hc_notify_wfd (hl_c c)"])
      (use assms(3) in \<open>auto simp del: client_inv.simps\<close>)
  then show ?thesis by (cases sy) simp
qed

lemma clock_inv:
  assumes "sqlite_chat sq tables" "sys_inv sq tables sy"
  shows "sys_inv sq tables (sy\<lparr>sy_w := (sy_w sy)\<lparr>w_now := now\<rparr>\<rparr>)"
proof -
  have app: "app_inv tables (sy_w sy)" using assms(2) by (simp add: sys_inv_def)
  have r: "rely tables fd (sy_w sy) ((sy_w sy)\<lparr>w_now := now\<rparr>)" for fd by (rule rely_clock)
  show ?thesis
    using assms(2) relyD(3) [OF r app] client_rely [OF assms(1) app r] pipe_open_rely [OF app r]
      world_env_ok(3) [OF relyD(1) [OF r app]]
    by (simp add: sys_inv_def)
qed

lemma sys_step_moved:
  assumes "sqlite_chat sq tables" "opened_ok sq tables" "sys_step sq (Some k) sy sy'" "sys_inv sq tables sy"
  shows "moved sq tables k sy sy'"
  using assms(3)
proof cases
  case (sys_telnet_turn c ev tm mem r)
  let ?cx = "tctx_of sy tm mem c"
  have "guar sq ?cx (loop_cx r)" "sess_inv (loop_cx r)"
    using guar_telnet_loop_iter telnet_loop_iter_inv [OF telnet_ctx_inv [OF assms(4) sys_telnet_turn(2)]]
    by (simp_all flip: sys_telnet_turn(4))
  with telnet_turn_moved [OF assms(1,2,4) sys_telnet_turn(2)] show ?thesis
    unfolding sys_telnet_turn(1) by (cases r) (auto split: prod.split)
next
  case (sys_http_answer c ok evs buf0 c' tot req env hx)
  have "c' = c" using read_request_outcome [OF sys_http_answer(3)] sys_http_answer(4) by auto
  with http_answer_moved [OF assms(1,2,4)] sys_http_answer show ?thesis by simp
next
  case (sys_http_open c ok evs buf0 c' tot req env room cur hx)
  have "c' = c" using read_request_outcome [OF sys_http_open(3)] sys_http_open(4) by auto
  with http_open_moved [OF assms(1,2,4)] sys_http_open show ?thesis by simp
next
  case (sys_telnet_accept sk peer mem pipe2 s cx down tm mem' dl)
  then show ?thesis using telnet_accept_moved [OF assms(1,2,4)] by blast
next
  case (sys_telnet_finish c cx tm mem)
  then show ?thesis using telnet_finish_moved [OF assms(1,2,4)] by blast
next
  case (sys_http_turn c room cur req ok ev r)
  then show ?thesis using stream_turn_moved [OF assms(1,2,4)] by blast
next
  case (sys_telnet_stop c)
  then show ?thesis using telnet_stop_moved [OF assms(1,4)] by blast
next
  case (sys_http_stop c)
  then show ?thesis using http_stop_moved [OF assms(1,4)] by blast
next
  case (sys_http_accept sk mem pipe2 c down)
  then show ?thesis using http_accept_moved [OF assms(1,2,4)] by blast
next
  case (sys_http_unread c ok evs buf0 c' tot req)
  then show ?thesis using http_unread_moved [OF assms(1,2,4)] by blast
next
  case (sys_http_subscribe c room cur req ok)
  then show ?thesis using http_subscribe_moved [OF assms(1,2,4)] by blast
next
  case (sys_http_finish c ok drain)
  then show ?thesis using http_finish_moved [OF assms(1,2,4)] by blast
qed

lemma sys_step_inv:
  assumes "sqlite_chat sq tables" "opened_ok sq tables" "sys_step sq l sy sy'" "sys_inv sq tables sy"
  shows "sys_inv sq tables sy'"
proof (cases l)
  case None
  with assms(3) obtain now where "sy' = sy\<lparr>sy_w := (sy_w sy)\<lparr>w_now := now\<rparr>\<rparr>" by (auto elim: sys_step.cases)
  with clock_inv [OF assms(1,4)] show ?thesis by simp
next
  case (Some k)
  with assms(3) sys_step_moved [OF assms(1,2) _ assms(4)] sys_inv_move [OF assms(1,4)] show ?thesis by blast
qed

section \<open>The whole system\<close>

definition sys_reach :: "'db sqlite \<Rightarrow> 'db system \<Rightarrow> 'db system \<Rightarrow> bool" where
  "sys_reach sq = (\<lambda>sy sy'. \<exists>l. sys_step sq l sy sy')\<^sup>*\<^sup>*"

lemma boot_inv: "sys_inv sq tables (sys_boot now sd ps)"
  by (simp add: sys_inv_def sys_boot_def boot_world_def app_inv_def service_inv_def db_wf_def clean_log_def db_log_def
      sub_only_def)

lemma sys_reach_inv:
  assumes "sqlite_chat sq tables" "opened_ok sq tables" "sys_reach sq (sys_boot now sd ps) sy"
  shows "sys_inv sq tables sy"
  using assms(3) unfolding sys_reach_def
  by (induction rule: rtranclp_induct) (auto intro: boot_inv sys_step_inv [OF assms(1,2)])

lemma sys_invD:
  assumes "sys_inv sq tables sy"
  shows "app_inv tables (sy_w sy)"
    "sy_clients sy k = Some c \<Longrightarrow> client_inv sq tables (sy_w sy) c"
    "sy_clients sy k = Some c \<Longrightarrow> pipe_open (sy_w sy) c"
    "(\<And>k c. sy_clients sy k = Some c \<Longrightarrow> client_wfd c \<noteq> fd) \<Longrightarrow> sub_only fd None (sy_w sy)"
  using assms unfolding sys_inv_def by blast+

text \<open>The room a client is in.\<close>

fun client_room :: "client \<Rightarrow> nat option" where
  "client_room (Telnet c) = (case ts_game_state (tc_s c) of Some (Chat_state st) \<Rightarrow> cs_room st | _ \<Rightarrow> None)"
| "client_room (Http c) = (case hl_phase c of H_stream room cur req \<Rightarrow> Some room | _ \<Rightarrow> None)"

lemma client_sub: "client_inv sq tables w c \<Longrightarrow> sub_only (client_wfd c) (client_room c) w"
proof (cases c)
  case (Telnet t)
  let ?cx = "\<lparr>cx_s = tc_s t, cx_w = w, cx_online = 0, cx_tm = undefined, cx_mem = True, cx_overread = tc_overread t\<rparr>"
  assume "client_inv sq tables w c"
  with Telnet have "sess_inv ?cx" by simp
  then show ?thesis
    using Telnet by (auto simp: sess_inv_def minv_def game_inv_def menu_ok_def chat_inv_def
        split: option.splits if_splits game_state.splits)
next
  case (Http h)
  moreover assume "client_inv sq tables w c"
  ultimately show ?thesis by (auto simp: phase_inv_def split: http_phase.splits)
qed

section \<open>The life of a stream\<close>

text \<open>The client has begun an event stream and not ended it.\<close>

definition streaming :: "'db system \<Rightarrow> nat \<Rightarrow> bool" where
  "streaming sy k \<longleftrightarrow> (case sy_clients sy k of
     Some (Http h) \<Rightarrow> (case hl_phase h of H_tail room cur req \<Rightarrow> True | H_stream room cur req \<Rightarrow> True | _ \<Rightarrow> False)
   | _ \<Rightarrow> False)"

text \<open>A run of the system in which the client stays on its stream.\<close>

definition stream_run :: "'db sqlite \<Rightarrow> nat \<Rightarrow> 'db system \<Rightarrow> 'db system \<Rightarrow> bool" where
  "stream_run sq k = (\<lambda>sy sy'. (\<exists>l. sys_step sq l sy sy') \<and> streaming sy' k)\<^sup>*\<^sup>*"

text \<open>What a stream has sent that had sent \<open>pre\<close> when it took its cursor at the end of \<open>base\<close>:
  nothing before the greeting, then the messages after \<open>base\<close> up to its cursor.\<close>

definition stream_inv :: "('db \<Rightarrow> chat_tables) \<Rightarrow> chat_msg list \<Rightarrow> string \<Rightarrow> nat \<Rightarrow> 'db system \<Rightarrow> nat \<Rightarrow> bool" where
  "stream_inv tables base pre room sy k \<longleftrightarrow> (case sy_clients sy k of
     Some (Http h) \<Rightarrow> (case hl_phase h of
         H_tail room' cur req \<Rightarrow> room' = room \<and> told_from tables base pre (sy_w sy) room cur (hl_c h) \<and> conn_sent (hl_c h) = pre
       | H_stream room' cur req \<Rightarrow> room' = room
           \<and> told_from tables base (pre @ sse_frame (Sse_comment ''connected'')) (sy_w sy) room cur (hl_c h)
       | _ \<Rightarrow> False)
   | _ \<Rightarrow> False)"

lemma stream_opened:
  assumes "sqlite_chat sq tables" "opened_ok sq tables" "readable sq" "sys_inv sq tables sy"
    and cl: "sy_clients sy k = Some (Http \<lparr>hl_c = c, hl_phase = H_read, hl_healthy = True\<rparr>)"
    and step: "sys_step sq (Some k) sy sy'" and str: "streaming sy' k"
  shows "\<exists>room. stream_inv tables (wlog tables (sy_w sy') (r_id (room_at (sy_w sy') room))) (conn_sent c @ sse_head) room sy' k"
  using step
proof cases
  case (sys_http_open c1 ok evs buf0 c' tot req env room cur hx)
  have c: "c1 = c" "c' = c" using read_request_outcome [OF sys_http_open(3)] sys_http_open(2,4) cl by auto
  let ?w = "chat_service_init sq (sy_w sy)"
  have app: "app_inv tables (sy_w sy)" using assms(4) by (simp add: sys_inv_def)
  have app': "app_inv tables ?w"
    using sqlite_chat.init_store_env [OF assms(1,2), of "sy_w sy"] app by (simp add: store_env_def)
  have i: "room < length (w_rooms ?w)"
    using find_room_Some [of "w_rooms ?w" _ 0 room] sys_http_open(6) by (auto simp: events_room_def chat_room_by_id_def Let_def)
  have o: "open_conn c" using http_phase_inv [OF assms(4) cl] by (simp add: phase_inv_def)
  from sqlite_chat.sse_tail_told [OF assms(1,3) app' init_once i o] sys_http_open(7) c show ?thesis
    by (intro exI [of _ room]) (simp add: sys_http_open(1) stream_inv_def put_http_def)
qed (use cl str in \<open>auto simp: streaming_def put_http_def put_telnet_def drop_client_def\<close>)

lemma stream_inv_other:
  assumes "sqlite_chat sq tables" "app_inv tables (sy_w sy)" "stream_inv tables base pre room sy k"
    and "sy_clients sy k = Some d" "sy_clients sy' k = Some d" "rely tables (client_wfd d) (sy_w sy) (sy_w sy')"
  shows "stream_inv tables base pre room sy' k"
  using assms(3-6) told_from_rely [OF assms(1) _ assms(2)]
  by (auto simp: stream_inv_def split: client.splits http_phase.splits)

lemma stream_inv_step:
  assumes "sqlite_chat sq tables" "opened_ok sq tables" "readable sq" "sys_inv sq tables sy"
    and inv: "stream_inv tables base pre room sy k" and step: "sys_step sq l sy sy'" and str: "streaming sy' k"
  shows "stream_inv tables base pre room sy' k"
proof -
  have app: "app_inv tables (sy_w sy)" using assms(4) by (simp add: sys_inv_def)
  obtain h where h: "sy_clients sy k = Some (Http h)"
    using inv by (auto simp: stream_inv_def split: option.splits client.splits)
  consider "l = None" | j where "l = Some j" "j \<noteq> k" | "l = Some k" by (cases l) auto
  then show ?thesis
  proof cases
    case 1
    with step obtain now where "sy' = sy\<lparr>sy_w := (sy_w sy)\<lparr>w_now := now\<rparr>\<rparr>" by (auto elim: sys_step.cases)
    then show ?thesis using stream_inv_other [OF assms(1) app inv h] h by (simp add: rely_clock)
  next
    case 2
    then have "moved sq tables j sy sy'" using sys_step_moved [OF assms(1,2) _ assms(4)] step by blast
    with moved_other [OF assms(4) this _ h] 2 stream_inv_other [OF assms(1) app inv h] show ?thesis by blast
  next
    case 3
    with step have "sys_step sq (Some k) sy sy'" by simp
    then show ?thesis
    proof cases
      case (sys_http_subscribe c room' cur req ok)
      then have "told_from tables base pre (sy_w sy) room cur c" "conn_sent c = pre" "room' = room"
        using inv by (simp_all add: stream_inv_def)
      with sqlite_chat.sse_subscribe_greets [OF assms(1) this(1,2) refl, of req] show ?thesis
        by (simp add: sys_http_subscribe(1) stream_inv_def put_http_def hctx_of_def)
    next
      case (sys_http_turn c room' cur req ok ev r)
      then have t: "told_from tables base (pre @ sse_frame (Sse_comment ''connected'')) (sy_w sy) room cur c" "room' = room"
        using inv by (simp_all add: stream_inv_def)
      obtain cur' hx where r: "r = Sse_go cur' hx"
        using str sys_http_turn(1) by (cases r) (auto simp: streaming_def put_http_def)
      from sqlite_chat.sse_turn_told [OF assms(1,3) t(1), of r "sse_user req" ev] sys_http_turn(3) t(2) r show ?thesis
        by (simp add: sys_http_turn(1) stream_inv_def put_http_def hctx_of_def)
    next
      case (sys_http_stop c)
      have "stream_inv tables base pre room (sy\<lparr>sy_w := (sy_w sy)\<lparr>w_pipes :=
          pipe_write (hc_notify_wfd (hl_c c)) (w_pipes (sy_w sy))\<rparr>\<rparr>) k"
        by (rule stream_inv_other [OF assms(1) app inv h]) (simp_all add: h rely_wake)
      with sys_http_stop h show ?thesis
        by (auto simp: stream_inv_def told_flag split: http_phase.splits)
    qed (use inv h str in \<open>auto simp: stream_inv_def streaming_def put_http_def drop_client_def\<close>)
  qed
qed

lemma stream_run_inv:
  assumes "sqlite_chat sq tables" "opened_ok sq tables" "readable sq" "sys_inv sq tables sy"
    and "stream_inv tables base pre room sy k" and "stream_run sq k sy sy'"
  shows "stream_inv tables base pre room sy' k"
proof -
  from assms(6) have "sys_inv sq tables sy' \<and> stream_inv tables base pre room sy' k" unfolding stream_run_def
    by (induction rule: rtranclp_induct)
       (use assms(4,5) sys_step_inv [OF assms(1,2)] stream_inv_step [OF assms(1-3)] in blast)+
  then show ?thesis ..
qed

section \<open>Properties\<close>

text \<open>C9: The server with all its threads together, with no assumption on any of them: however many
  telnet sessions, event streams and requests arrive, whatever they send, in whatever
  order their turns interleave, with pipes, sockets and memory failing anywhere and the
  shutdown flags set at any moment, every reachable state has a consistent store with
  sanitized logs, and every telnet session in it is safe in the sense of its own theorem.\<close>

theorem system_sessions_safe:
  assumes "sqlite_chat sq tables" and "opened_ok sq tables"
    and "sys_reach sq (sys_boot now sd ps) sy"
  shows "service_inv tables (sy_w sy)
    \<and> (\<forall>k c tm mem. sy_clients sy k = Some (Telnet c) \<longrightarrow> session_safe (tctx_of sy tm mem c))"
proof -
  have inv: "sys_inv sq tables sy" using assms by (rule sys_reach_inv)
  have "service_inv tables (sy_w sy)" using sys_invD(1) [OF inv] by (simp add: app_inv_def)
  then show ?thesis using telnet_ctx_inv [OF inv] sess_inv_safe by blast
qed

text \<open>C8: No subscription ever dangles: in every reachable state every descriptor in the subscriber
  list of a room (the -1 of a failed \<^verbatim>\<open>pipe2\<close> aside) is listed there once, belongs to a client that is alive and is in that
  very room, and is the write end of an open pipe, so a post never writes into a closed
  or reused descriptor.\<close>

theorem system_subscriptions_live:
  assumes "sqlite_chat sq tables" and "opened_ok sq tables"
    and "sys_reach sq (sys_boot now sd ps) sy"
    and "i < length (w_rooms (sy_w sy))" and "fd \<in> set (sub_fds (room_at (sy_w sy) i))" and "0 \<le> fd"
  shows "count (mset (sub_fds (room_at (sy_w sy) i))) fd = 1 \<and> fd \<in> dom (w_pipes (sy_w sy))
    \<and> (\<exists>k c. sy_clients sy k = Some c \<and> client_wfd c = fd \<and> client_room c = Some i)"
proof -
  have inv: "sys_inv sq tables sy" using assms(1-3) by (rule sys_reach_inv)
  have pos: "0 < subs_of fd (sy_w sy) i" using assms(5) by (simp add: subs_of_def)
  then have "\<not> sub_only fd None (sy_w sy)" using assms(4,6) by (auto simp: sub_only_def)
  with sys_invD(4) [OF inv] obtain k c where c: "sy_clients sy k = Some c" "client_wfd c = fd" by blast
  have "client_inv sq tables (sy_w sy) c" and o: "pipe_open (sy_w sy) c" using sys_invD(2,3) [OF inv c(1)] .
  from client_sub [OF this(1)] c(2) have "sub_only fd (client_room c) (sy_w sy)" by simp
  then have "subs_of fd (sy_w sy) i \<le> (if client_room c = Some i then 1 else 0)"
    using assms(4,6) by (simp add: sub_only_def)
  then have "client_room c = Some i" "subs_of fd (sy_w sy) i = 1" using pos by (auto split: if_splits)
  with c o assms(6) show ?thesis by (auto simp: subs_of_def pipe_open_def)
qed

text \<open>C26: Every event stream of a running server is exact, with any number of other clients doing
  anything they can. A connection that takes its output gets its request read and is made
  an event stream (the step from \<open>sy0\<close> to \<open>sy1\<close>, when the log of the room is \<open>log1\<close>); in
  every later state \<open>sy2\<close> up to which it has gone on streaming, it has received the
  response header, the greeting, and then, among keepalive comments, one data frame,
  complete and in order, for each message of a prefix of the messages stored in the room
  since; the rest of those messages is exactly what is newer than the stream's cursor.\<close>

theorem system_streams_exact:
  assumes "sqlite_chat sq tables" and "opened_ok sq tables" and "readable sq"
    and "sys_reach sq (sys_boot now sd ps) sy0"
    and "sy_clients sy0 k = Some (Http \<lparr>hl_c = c0, hl_phase = H_read, hl_healthy = True\<rparr>)"
    and "sys_step sq (Some k) sy0 sy1" and "streaming sy1 k"
    and "log1 = wlog tables (sy_w sy1) (r_id (room_at (sy_w sy1) room))"
    and "stream_run sq k sy1 sy2"
    and "sy_clients sy2 k = Some (Http \<lparr>hl_c = c, hl_phase = H_stream room cur req, hl_healthy = ok\<rparr>)"
    and "log2 = wlog tables (sy_w sy2) (r_id (room_at (sy_w sy2) room))"
  shows "\<exists>fs ms. conn_sent c = conn_sent c0 @ sse_head @ concat (map sse_frame (Sse_comment ''connected'' # fs))
    \<and> list_all frame_ok fs \<and> data_of fs = map msg_text ms \<and> ms @ newer cur log2 = drop (length log1) log2"
proof -
  have inv0: "sys_inv sq tables sy0" using assms(1,2,4) by (rule sys_reach_inv)
  obtain room1 where i1: "stream_inv tables (wlog tables (sy_w sy1) (r_id (room_at (sy_w sy1) room1)))
      (conn_sent c0 @ sse_head) room1 sy1 k"
    using stream_opened [OF assms(1-3) inv0 assms(5-7)] by blast
  from stream_run_inv [OF assms(1-3) sys_step_inv [OF assms(1,2,6) inv0] i1 assms(9)]
  have i2: "stream_inv tables (wlog tables (sy_w sy1) (r_id (room_at (sy_w sy1) room1))) (conn_sent c0 @ sse_head) room1 sy2 k" .
  with assms(8,10) have "told_from tables log1 (conn_sent c0 @ sse_head @ sse_frame (Sse_comment ''connected'')) (sy_w sy2) room cur c"
    by (simp add: stream_inv_def)
  then obtain fs dels where t: "stream_at log1 cur dels log2"
    "conn_sent c = conn_sent c0 @ sse_head @ sse_frame (Sse_comment ''connected'') @ concat (map sse_frame fs)"
    "list_all frame_ok fs" "data_of fs = map msg_text dels"
    by (auto simp: told_from_def on_stream_def assms(11))
  from t(1) have "log2 = log1 @ dels @ newer cur log2" by (simp add: stream_at_def)
  then have "dels @ newer cur log2 = drop (length log1) log2" by (metis append_eq_conv_conj)
  with t(2-4) show ?thesis by (intro exI [of _ fs] exI [of _ dels]) simp
qed

section \<open>Examples\<close>

definition demo_path :: string where
  "demo_path = ''/api/events/rooms/1''"

definition demo_stream_req :: http_request where
  "demo_stream_req = request_of HTTP_M_GET demo_path None [] [] []"

definition demo_read_sys :: "chat_tables system" where
  "demo_read_sys = put_http 1 H_read True \<lparr>hx_c = demo_conn, hx_w = demo_boot\<rparr> (sys_boot 1000 None Map.empty)"

definition demo_tail_sys :: "chat_tables system" where
  "demo_tail_sys = put_http 1 (H_tail 0 0 demo_stream_req) True
     \<lparr>hx_c = http_sse_begin demo_conn, hx_w = chat_service_init ref_sqlite demo_boot\<rparr> demo_read_sys"

definition demo_stream_sys :: "chat_tables system" where
  "demo_stream_sys = put_http 1 (H_stream 0 0 demo_stream_req) True
     (sse_subscribe ref_sqlite 0 demo_stream_req (hctx_of demo_tail_sys (http_sse_begin demo_conn))) demo_tail_sys"

lemma demo_conn_facts:
  "http_create_session demo_sock True (Some (6, 7)) = Some demo_conn" "open_conn demo_conn"
  "demo_conn\<lparr>hc_shutdown_requested := False\<rparr> = demo_conn" "hc_notify_wfd demo_conn = 7"
  by (simp_all add: demo_conn_def http_create_session_def open_conn_def demo_sock_def Let_def)

lemma demo_stream_read:
  "\<exists>tot. 0 < tot \<and> read_request [Read_data (request_head HTTP_M_GET demo_path None None True [] True)] c demo_buf 0 no_request =
   Some (c, tot, demo_stream_req)"
proof -
  let ?text = "request_head HTTP_M_GET demo_path None None True [] True"
  have "sendable HTTP_M_GET demo_path None None [] []"
    by (simp add: demo_path_def sendable_def query_ok_def token_ok_def hdr_length_def HTTP_PATH_MAX_def)
  moreover have "?text = ?text @ []" by simp
  moreover have "0 < length ?text" "length ?text \<le> length demo_buf"
    by (simp_all add: demo_path_def request_head_def request_line_def target_text_def eol_def demo_buf_def HTTP_RECV_MAX_def
        url_encode_def url_plain_def char_class_defs)
  ultimately have "read_step (Read_data ?text) c demo_buf 0 no_request =
      Read_stop c (int (length ?text)) demo_stream_req"
    using read_step_fragment [of HTTP_M_GET demo_path None None "[]" "[]" ?text True True 0 demo_buf ?text "[]" c no_request]
    by (simp add: demo_stream_req_def)
  then have "read_request [Read_data ?text] c demo_buf 0 no_request = Some (c, int (length ?text), demo_stream_req)" by simp
  with \<open>0 < length ?text\<close> show ?thesis by (intro exI [of _ "int (length ?text)"]) simp
qed

lemma demo_events_room: "events_room ref_sqlite demo_stream_req demo_boot = Some 0"
proof -
  have "fst (strtol ''1'') = 1" by code_simp
  then show ?thesis
    by (simp add: events_room_def chat_room_by_id_def demo_stream_req_def request_of_def demo_path_def demo_init Let_def)
qed

lemma demo_dispatch_None:
  assumes "\<not> hc_shutdown_requested c"
  shows "http_dispatch ref_sqlite (alone demo_env) \<lparr>hx_c = c, hx_w = demo_boot\<rparr> demo_stream_req = None"
proof -
  have p: "cstr (rq_path demo_stream_req) = demo_path" "rq_method demo_stream_req = HTTP_M_GET"
    by (simp_all add: demo_stream_req_def request_of_def demo_path_def)
  have m: "match_room_sub demo_path = None" by code_simp
  have s: "starts_with ''/api/events/rooms/'' demo_path" "drop 18 demo_path = ''1''" by code_simp+
  have f: "demo_path \<noteq> ''/''" "demo_path \<noteq> ''/index.html''" "demo_path \<noteq> ''/app.js''" "demo_path \<noteq> ''/api/health''"
    "demo_path \<noteq> ''/api/rooms''" by (simp_all add: demo_path_def)
  have r: "find_room (w_rooms (chat_service_init ref_sqlite demo_boot)) (fst (strtol ''1'')) 0 = Some 0"
    using demo_events_room by (simp add: events_room_def chat_room_by_id_def Let_def p s)
  have h: "handle_sse ref_sqlite (\<lambda>hx. hx) [] 0 demo_stream_req \<lparr>hx_c = c, hx_w = w\<rparr> = None" for w
  proof -
    obtain cur hx where t: "sse_tail ref_sqlite 0 \<lparr>hx_c = c, hx_w = w\<rparr> = (cur, hx)" by fastforce
    have sa: "hc_shutdown_requested (fst (send_all d buf)) = hc_shutdown_requested d" for d buf
      using send_all_frame(1) [of d buf] by (simp add: conn_ctl_def)
    have st: "hc_shutdown_requested (fst (send_three x y z d)) = hc_shutdown_requested d" for x y z d
      using send_three_frame(1) [of x y z d] by (simp add: conn_ctl_def)
    have "\<not> hc_shutdown_requested (hx_c hx)"
      using t assms by (auto simp: sse_tail_def with_conn_def http_sse_begin_def sa Let_def)
    then have "\<not> hc_shutdown_requested (hx_c (sse_subscribe ref_sqlite 0 demo_stream_req hx))"
      by (simp add: sse_subscribe_def with_conn_def http_sse_comment_def st Let_def)
    with t show ?thesis by (simp add: handle_sse_def sse_open_split)
  qed
  show ?thesis
    using p m s f r h by (simp add: http_dispatch_def dispatch_events_def chat_room_by_id_def Let_def)
qed

lemma demo_tail: "sse_tail ref_sqlite 0 \<lparr>hx_c = demo_conn, hx_w = chat_service_init ref_sqlite demo_boot\<rparr> =
    (0, \<lparr>hx_c = http_sse_begin demo_conn, hx_w = chat_service_init ref_sqlite demo_boot\<rparr>)"
  by (simp add: sse_tail_def with_conn_def Let_def chat_room_tail_def chat_db_max_message_id_def demo_init demo_tables_def
      column_int_def q_max_def)

lemma demo_steps:
  "sys_step ref_sqlite (Some 1) (sys_boot 1000 None Map.empty) demo_read_sys"
  "sys_step ref_sqlite (Some 1) demo_read_sys demo_tail_sys" "sys_step ref_sqlite (Some 1) demo_tail_sys demo_stream_sys"
proof -
  let ?boot = "sys_boot 1000 None Map.empty :: chat_tables system"
  have w: "open_pipe (Some (6, 7)) (sy_w ?boot) = demo_boot"
    by (simp add: open_pipe_def sys_boot_def demo_boot_def boot_world_def)
  have "sys_step ref_sqlite (Some 1) ?boot (put_http 1 H_read (open_conn demo_conn)
      \<lparr>hx_c = demo_conn\<lparr>hc_shutdown_requested := False\<rparr>, hx_w = open_pipe (Some (6, 7)) (sy_w ?boot)\<rparr> ?boot)"
    by (rule sys_http_accept [OF demo_conn_facts(1)]) (simp_all add: pipe_fresh_def sys_boot_def)
  then have 1: "sys_step ref_sqlite (Some 1) ?boot demo_read_sys"
    by (simp add: w demo_read_sys_def demo_conn_facts)
  obtain tot where rd: "0 < tot" "read_request [Read_data (request_head HTTP_M_GET demo_path None None True [] True)] demo_conn
      demo_buf 0 no_request = Some (demo_conn, tot, demo_stream_req)"
    using demo_stream_read by blast
  have rs: "sy_clients demo_read_sys 1 = Some (Http \<lparr>hl_c = demo_conn, hl_phase = H_read, hl_healthy = True\<rparr>)"
    "sy_w demo_read_sys = demo_boot"
    by (simp_all add: demo_read_sys_def put_http_def)
  have "http_dispatch ref_sqlite (alone demo_env) (hctx_of demo_read_sys demo_conn) demo_stream_req = None"
    using demo_dispatch_None [of demo_conn] by (simp add: hctx_of_def rs demo_conn_def)
  from sys_http_open [OF rs(1) rd(2,1) this] demo_events_room demo_tail
  have 2: "sys_step ref_sqlite (Some 1) demo_read_sys demo_tail_sys"
    by (simp add: rs demo_tail_sys_def)
  have "sy_clients demo_tail_sys 1 = Some (Http \<lparr>hl_c = http_sse_begin demo_conn, hl_phase = H_tail 0 0 demo_stream_req, hl_healthy = True\<rparr>)"
    by (simp add: demo_tail_sys_def put_http_def)
  from sys_http_subscribe [OF this]
  have 3: "sys_step ref_sqlite (Some 1) demo_tail_sys demo_stream_sys" by (simp add: demo_stream_sys_def)
  show "sys_step ref_sqlite (Some 1) (sys_boot 1000 None Map.empty) demo_read_sys"
    "sys_step ref_sqlite (Some 1) demo_read_sys demo_tail_sys" "sys_step ref_sqlite (Some 1) demo_tail_sys demo_stream_sys"
    using 1 2 3 by blast+
qed

lemma demo_sys_reach: "sys_reach ref_sqlite (sys_boot 1000 None Map.empty) demo_stream_sys"
proof -
  let ?r = "\<lambda>sy sy'. \<exists>l. sys_step ref_sqlite l sy sy'"
  have "?r (sys_boot 1000 None Map.empty) demo_read_sys" "?r demo_read_sys demo_tail_sys" "?r demo_tail_sys demo_stream_sys"
    using demo_steps by blast+
  then show ?thesis unfolding sys_reach_def by (rule converse_rtranclp_into_rtranclp [OF _ converse_rtranclp_into_rtranclp [OF _ r_into_rtranclp [of ?r]]])
qed

lemma demo_opened: "opened_ok ref_sqlite (\<lambda>t. t)"
  by (rule demo_http.opened)

lemma demo_stream_state:
  "sy_clients demo_stream_sys 1 = Some (Http \<lparr>hl_c = hx_c (sse_subscribe ref_sqlite 0 demo_stream_req
     (hctx_of demo_tail_sys (http_sse_begin demo_conn))), hl_phase = H_stream 0 0 demo_stream_req, hl_healthy = True\<rparr>)"
  "map sub_fds (w_rooms (sy_w demo_stream_sys)) = [[7], [], []]"
proof -
  show "sy_clients demo_stream_sys 1 = Some (Http \<lparr>hl_c = hx_c (sse_subscribe ref_sqlite 0 demo_stream_req
     (hctx_of demo_tail_sys (http_sse_begin demo_conn))), hl_phase = H_stream 0 0 demo_stream_req, hl_healthy = True\<rparr>)"
    by (simp add: demo_stream_sys_def put_http_def)
  have "hc_notify_wfd (http_sse_begin demo_conn) = 7" by (simp add: demo_conn_facts)
  then show "map sub_fds (w_rooms (sy_w demo_stream_sys)) = [[7], [], []]"
    by (simp add: demo_stream_sys_def demo_tail_sys_def put_http_def hctx_of_def sse_subscribe_def with_conn_def
        http_conn_notify_wfd_def chat_room_subscribe_def update_subs_def demo_init sub_add_def CHAT_MAX_SUBSCRIBERS_def Let_def)
qed

theorem system_sessions_safe_witness: "service_inv (\<lambda>t. t) (sy_w demo_stream_sys)"
  using system_sessions_safe [OF ref_engine.sqlite_chat_axioms demo_opened demo_sys_reach] by blast

theorem system_subscriptions_live_witness:
  "7 \<in> dom (w_pipes (sy_w demo_stream_sys))
   \<and> (\<exists>k c. sy_clients demo_stream_sys k = Some c \<and> client_wfd c = 7 \<and> client_room c = Some 0)"
proof -
  have "0 < length (w_rooms (sy_w demo_stream_sys))" using arg_cong [OF demo_stream_state(2), of length] by simp
  moreover from this have "7 \<in> set (sub_fds (room_at (sy_w demo_stream_sys) 0))"
    using demo_stream_state(2) by (metis list.set_intros(1) nth_Cons_0 nth_map)
  ultimately show ?thesis
    using system_subscriptions_live [OF ref_engine.sqlite_chat_axioms demo_opened demo_sys_reach, of 0 7] by simp
qed

theorem system_streams_exact_witness:
  "\<exists>c fs ms. sy_clients demo_stream_sys 1 = Some (Http c)
     \<and> conn_sent (hl_c c) = sse_head @ concat (map sse_frame (Sse_comment ''connected'' # fs))
     \<and> list_all frame_ok fs \<and> data_of fs = map msg_text ms"
proof -
  have rd: "readable ref_sqlite" by (simp add: readable_def ref_readable)
  have rs: "sy_clients demo_read_sys 1 = Some (Http \<lparr>hl_c = demo_conn, hl_phase = H_read, hl_healthy = True\<rparr>)"
    by (simp add: demo_read_sys_def put_http_def)
  have str: "streaming demo_tail_sys 1" by (simp add: streaming_def demo_tail_sys_def put_http_def)
  have "streaming demo_stream_sys 1" using demo_stream_state(1) by (simp add: streaming_def)
  with demo_steps(3) have run: "stream_run ref_sqlite 1 demo_tail_sys demo_stream_sys"
    unfolding stream_run_def by blast
  have "sys_reach ref_sqlite (sys_boot 1000 None Map.empty) demo_read_sys"
    unfolding sys_reach_def using demo_steps(1) by blast
  from system_streams_exact [OF ref_engine.sqlite_chat_axioms demo_opened rd this rs demo_steps(2) str refl run demo_stream_state(1) refl]
  show ?thesis using demo_stream_state(1) by (force simp: demo_conn_def conn_sent_def)
qed

end
