(* ===== verification/Delivery.thy ===== *)
theory Delivery
  imports System
begin

text \<open>
  Messages across the two transports, end to end: a line typed in a telnet session is
  received by the web clients of the room, and a message posted over HTTP appears on the
  screens of the telnet sessions in it. Between the post and the wake-up of the receiver
  any steps of other clients may happen.
\<close>

section \<open>Typing into a session\<close>

lemma feed_plain:
  assumes "ip_state p = IAC_DATA" "TELNET_IAC \<notin> set bs"
  shows "iac_parser_feed cbs p bs c = (p, flush_data cbs bs c)"
proof -
  have "fold (iac_byte cbs) bs (p, d, c) = (p, d @ bs, c)" for d
    using assms by (induction bs arbitrary: d) (auto simp: iac_byte_def)
  then show ?thesis by (simp add: feed_settle settle_def)
qed

text \<open>A session whose chat is running, between two keys.\<close>

definition chatting :: "chat_state \<Rightarrow> 'db tctx \<Rightarrow> bool" where
  "chatting c cx \<longleftrightarrow> ts_fsm (cx_s cx) = TSTATE_IN_GAME \<and> ts_active_game (cx_s cx) = Some Chat_feature
     \<and> ts_game_state (cx_s cx) = Some (Chat_state c) \<and> flags cx = (-1, False, False)"

lemma chatting_key:
  assumes "chatting c cx" "chat_handle_key sq key c cx = (True, c', cx')"
  shows "\<exists>cx1. on_key sq key cx = cx1 \<and> chatting c' cx1 \<and> cx_w cx1 = cx_w cx' \<and> ts_username (cx_s cx1) = ts_username (cx_s cx')"
proof -
  let ?cx1 = "on_session (\<lambda>s. s\<lparr>ts_game_state := Some (Chat_state c')\<rparr>) cx'"
  note k = ctlD [OF ctl_chat_handle_key [OF assms(2)]]
  have fl: "flags ?cx1 = (-1, False, False)" using assms(1) k by (simp add: flags_def chatting_def)
  have "act_game_key sq cx TEV_KEY_INPUT (KeyData key) = (?cx1, FSM_ACTION_OK)"
    using assms by (simp add: act_game_key_def chatting_def chat_feature_def)
  then have "tdispatch sq TEV_KEY_INPUT (KeyData key) cx = with_fsm TSTATE_IN_GAME ?cx1"
    using tdispatch_row [OF _ key_rows(4), of cx sq "KeyData key" ?cx1 FSM_ACTION_OK] assms(1)
    by (simp add: chatting_def run_action_def)
  then have "on_key sq key cx = with_fsm TSTATE_IN_GAME ?cx1" using fl by (simp add: on_key_def flags_def)
  moreover have "chatting c' (with_fsm TSTATE_IN_GAME ?cx1)"
    using assms(1) k fl by (simp add: chatting_def)
  ultimately show ?thesis by simp
qed

definition char_byte :: "char \<Rightarrow> byte" where
  "char_byte k = of_nat (of_char k)"

lemma byte_char_byte [simp]: "byte_char (char_byte k) = k"
  by (simp add: byte_char_def char_byte_def unat_of_nat)

lemma typed_bytes:
  assumes "is_printable k \<or> k = CR"
  shows "char_byte k \<noteq> 0" "char_byte k \<noteq> TELNET_IAC"
proof -
  have "byte_char 0 = CHR 0x00" "byte_char TELNET_IAC = CHR 0xFF" by code_simp+
  moreover have "k \<noteq> CHR 0x00" "k \<noteq> CHR 0xFF" using assms by (auto simp: is_printable_def)
  ultimately show "char_byte k \<noteq> 0" "char_byte k \<noteq> TELNET_IAC" using byte_char_byte [of k] by metis+
qed

lemma chatting_line:
  assumes "chatting c cx" "cs_st c = CHAT_ST_COMPOSE" "list_all is_printable str" "length (cs_compose c) + length str \<le> 511"
  shows "\<exists>cx'. on_data sq (map char_byte str @ bs) cx = on_data sq bs cx'
    \<and> chatting (c\<lparr>cs_compose := cs_compose c @ str\<rparr>) cx' \<and> cx_w cx' = cx_w cx \<and> ts_username (cx_s cx') = ts_username (cx_s cx)"
  using assms
proof (induction str arbitrary: c cx)
  case (Cons k str)
  let ?c = "c\<lparr>cs_compose := cs_compose c @ [k]\<rparr>"
  have "chat_handle_key sq k c cx = (True, ?c, render_compose ?c cx)"
    using Cons.prems printable_not_control [of k]
    by (simp add: chat_handle_key_def handle_compose_def Let_def is_printable_def)
  from chatting_key [OF Cons.prems(1) this] obtain cx1 where k: "on_key sq k cx = cx1" "chatting ?c cx1"
    "cx_w cx1 = cx_w cx" "ts_username (cx_s cx1) = ts_username (cx_s cx)"
    by (auto simp: render_compose_def csendf_def)
  have "on_data sq (char_byte k # bs') cx = on_data sq bs' cx1" for bs'
    using typed_bytes(1) [of k] Cons.prems(1,3) k(1) by (simp add: terminal_def chatting_def)
  moreover obtain cx' where "on_data sq (map char_byte str @ bs) cx1 = on_data sq bs cx'"
    "chatting (?c\<lparr>cs_compose := cs_compose ?c @ str\<rparr>) cx'" "cx_w cx' = cx_w cx1" "ts_username (cx_s cx') = ts_username (cx_s cx1)"
    using Cons.IH [OF k(2)] Cons.prems by auto
  ultimately show ?case using k by auto
qed auto

text \<open>Enter posts the line; the world then is what the two calls of \<^verbatim>\<open>handle_compose\<close> leave.\<close>

lemma chatting_enter:
  assumes "chatting c cx" "cs_st c = CHAT_ST_COMPOSE" "cs_compose c \<noteq> []" "cs_room c = Some i"
  shows "cx_w (on_data sq [char_byte CR] cx) = chat_room_presence_set sq
    (fst (chat_room_post sq (cx_w cx) i (ts_username (cx_s cx)) (cs_compose c))) i (ts_username (cx_s cx))"
proof -
  let ?c = "c\<lparr>cs_st := CHAT_ST_IN_ROOM, cs_compose := [], cs_at_live := True\<rparr>"
  obtain c' cx1 where r: "render_room sq ?c (post_composed sq c cx) = (c', cx1)" by fastforce
  then have "chat_handle_key sq CR c cx = (True, c', cx1)"
    using assms(2,3) by (simp add: chat_handle_key_def handle_compose_def Let_def)
  from chatting_key [OF assms(1) this] obtain cx2 where k: "on_key sq CR cx = cx2" "cx_w cx2 = cx_w cx1" by blast
  have "on_data sq [char_byte CR] cx = on_key sq CR cx"
    using typed_bytes(1) [of CR] assms(1) by (simp only: on_data.simps byte_char_byte terminal_def chatting_def) simp
  moreover have "cx_w cx1 = cx_w (post_composed sq c cx)" using render_room_world [of sq ?c "post_composed sq c cx"] r by simp
  moreover have "cx_w (post_composed sq c cx) = chat_room_presence_set sq
      (fst (chat_room_post sq (cx_w cx) i (ts_username (cx_s cx)) (cs_compose c))) i (ts_username (cx_s cx))"
    using assms(4) by (simp add: post_composed_def)
  ultimately show ?thesis by (simp only: k)
qed

lemma typed_turn:
  assumes "chatting c cx" "cs_st c = CHAT_ST_COMPOSE" "cs_compose c = []" "cs_room c = Some i"
    and "ip_state (ts_iac (cx_s cx)) = IAC_DATA" "list_all is_printable line" "line \<noteq> []" "length line \<le> 511"
  shows "\<exists>cx'. telnet_loop_iter sq (Poll_ready False True (map char_byte (line @ [CR]))) dl cx = Continue (cx', dl)
    \<and> cx_w cx' = chat_room_presence_set sq (fst (chat_room_post sq (cx_w cx) i (ts_username (cx_s cx)) line)) i (ts_username (cx_s cx))"
proof -
  let ?bs = "map char_byte (line @ [CR])"
  have "is_printable k \<or> k = CR" if "k \<in> set (line @ [CR])" for k using that assms(6) by (auto simp: list_all_iff)
  then have "char_byte k \<noteq> TELNET_IAC" if "k \<in> set (line @ [CR])" for k using that typed_bytes(2) by blast
  then have "TELNET_IAC \<notin> char_byte ` set (line @ [CR])" by (metis imageE)
  then have "TELNET_IAC \<notin> set ?bs" by (simp only: set_map not_False_eq_True)
  from feed_plain [OF assms(5) this, of "iac_cbs sq" cx]
  have feed: "iac_parser_feed (iac_cbs sq) (ts_iac (cx_s cx)) ?bs cx = (ts_iac (cx_s cx), on_data sq ?bs cx)"
    by (simp add: flush_data_def call_data_def iac_cbs_def)
  obtain cx1 where 1: "on_data sq ?bs cx = on_data sq [char_byte CR] cx1" "chatting (c\<lparr>cs_compose := line\<rparr>) cx1"
    "cx_w cx1 = cx_w cx" "ts_username (cx_s cx1) = ts_username (cx_s cx)"
    using chatting_line [OF assms(1,2), of line sq "[char_byte CR]"] assms(3,6,8) by auto
  have "cx_w (on_data sq [char_byte CR] cx1) = chat_room_presence_set sq
      (fst (chat_room_post sq (cx_w cx) i (ts_username (cx_s cx)) line)) i (ts_username (cx_s cx))"
    using chatting_enter [OF 1(2), of i sq] assms(2,4,7) by (simp add: 1(3,4) del: on_data.simps)
  with feed 1(1) show ?thesis by (simp add: telnet_loop_iter_def telnet_recv_def del: on_data.simps)
qed

section \<open>While others run\<close>

text \<open>Any number of steps of the clock and of clients other than \<open>j\<close>.\<close>

definition others_run :: "'db sqlite \<Rightarrow> nat \<Rightarrow> 'db system \<Rightarrow> 'db system \<Rightarrow> bool" where
  "others_run sq j = (\<lambda>sy sy'. \<exists>l. l \<noteq> Some j \<and> sys_step sq l sy sy')\<^sup>*\<^sup>*"

lemma sys_step_other:
  assumes "sqlite_chat sq tables" "opened_ok sq tables" "sys_inv sq tables sy" "sys_step sq l sy sy'" "l \<noteq> Some j"
    "sy_clients sy j = Some c"
  shows "sy_clients sy' j = Some c \<and> rely tables (client_wfd c) (sy_w sy) (sy_w sy')"
proof (cases l)
  case None
  with assms(4) obtain now where "sy' = sy\<lparr>sy_w := (sy_w sy)\<lparr>w_now := now\<rparr>\<rparr>" by (auto elim: sys_step.cases)
  with assms(6) rely_clock show ?thesis by simp
next
  case (Some k)
  with assms(4) have "moved sq tables k sy sy'" using sys_step_moved [OF assms(1,2) _ assms(3)] by blast
  from moved_other [OF assms(3) this _ assms(6)] Some assms(5) show ?thesis by blast
qed

lemma others_run_keeps:
  assumes "sqlite_chat sq tables" "opened_ok sq tables" "sys_inv sq tables sy" "sy_clients sy j = Some c" "others_run sq j sy sy'"
  shows "sys_inv sq tables sy' \<and> sy_clients sy' j = Some c \<and> rely tables (client_wfd c) (sy_w sy) (sy_w sy')"
  using assms(5) unfolding others_run_def
proof (induction rule: rtranclp_induct)
  case base
  show ?case using assms(3,4) rely_clock [of tables "client_wfd c" "sy_w sy" "w_now (sy_w sy)"] by simp
next
  case (step y z)
  then obtain l where l: "l \<noteq> Some j" "sys_step sq l y z" by blast
  have y: "sys_inv sq tables y" "sy_clients y j = Some c" "rely tables (client_wfd c) (sy_w sy) (sy_w y)" using step.IH by blast+
  note s = sys_step_other [OF assms(1,2) y(1) l(2,1) y(2)]
  have "rely tables (client_wfd c) (sy_w sy) (sy_w z)"
    using rely_trans [OF sys_invD(1) [OF assms(3)] y(3)] s by blast
  with s sys_step_inv [OF assms(1,2) l(2) y(1)] show ?case by blast
qed

text \<open>What a rely step says about a message already stored.\<close>

lemma rely_log:
  assumes "rely tables fd w w'" "app_inv tables w" "i < length (w_rooms w)"
  shows "r_id (room_at w' i) = r_id (room_at w i)"
    "\<exists>new. wlog tables w' (r_id (room_at w i)) = wlog tables w (r_id (room_at w i)) @ new"
  using relyD(2) [OF assms(1,2)] assms(2,3) room_id_prefix(1) [of "w_rooms w" "w_rooms w'" i] by (auto simp: store_env_def)

section \<open>A notified stream\<close>

text \<open>The turn of a stream whose pipe is readable sends everything newer than its cursor, up
  to one batch.\<close>

lemma notified_stream:
  assumes "sqlite_chat sq tables" "readable sq" "told tables w room cur c" "0 \<le> hc_notify_rfd c" "\<not> hc_shutdown_requested c"
    and log: "log = wlog tables w (r_id (room_at w room))" and "length (newer cur log) \<le> 64"
    and r: "r = sse_turn sq room user (here (Wait_ready True sr n)) cur \<lparr>hx_c = c, hx_w = w\<rparr>"
  shows "conn_sent (hx_c (sse_hx r)) = conn_sent c @ concat (map sse_frame (map Sse_data (map msg_text (newer cur log))))"
proof -
  let ?w = "w\<lparr>w_pipes := pipe_drain (hc_notify_wfd c) (w_pipes w)\<rparr>"
  let ?ms = "chat_room_since sq ?w room cur 64 64"
  have t: "open_conn c" "app_inv tables w" using assms(3) by (auto simp: told_def told_from_def on_stream_def)
  have wf: "db_wf tables (w_db ?w)" "db_readable sq (w_db ?w)"
    using t(2) assms(2) by (simp_all add: app_inv_def service_inv_def readable_def)
  have ms: "?ms = newer cur log"
    using sqlite_chat.since_batch(1) [OF assms(1) wf refl refl, of room cur] assms(7) log by simp
  have "app_inv tables ?w" using t(2) by simp
  then have "\<forall>m \<in> set ?ms. clean_msg m" using since_clean [OF assms(1)] by blast
  from sse_send_msgs_open [OF t(1) this, of cur] obtain c' where
    "sse_send_msgs ?ms cur c = (advance cur ?ms, c', False)"
    "conn_sent c' = conn_sent c @ concat (map sse_frame (map Sse_data (map msg_text ?ms)))" by blast
  with assms(4,5) show ?thesis
    by (simp add: r sse_turn_def http_conn_wait_def here_def Let_def ms)
qed

lemma posted_newer:
  assumes "at_cursor cur log" "0 < cm_id m" "\<forall>x \<in> set log. cm_id x < cm_id m"
  shows "m \<in> set (newer cur (log @ [m] @ new))"
  using assms by (auto simp: newer_def at_cursor_def)

section \<open>From a telnet session to a web client\<close>

lemma posted_pending:
  assumes "chat_room_post sq w i user body = (w', mid)" "0 \<le> mid" "fd \<in> set (sub_fds (room_at w i))" "fd \<in> dom (w_pipes w)"
  shows "pending (w_pipes w') fd"
  using post_frame(4) [OF assms(1)] assms(2-4) fold_pipe_write_pending by simp

lemma chatting_inv:
  assumes "sys_inv sq tables sy" "sy_clients sy k = Some (Telnet t)" "chatting c (tctx_of sy tm mem t)"
  shows "chat_inv c (tctx_of sy tm mem t)"
  using telnet_ctx_inv [OF assms(1,2), of tm mem] assms(3)
  by (simp add: sess_inv_def minv_def chatting_def game_inv_def)

lemma told_cursor: "told tables w room cur c \<Longrightarrow> at_cursor cur (wlog tables w (r_id (room_at w room)))"
  by (auto simp: told_def told_from_def on_stream_def stream_at_def)

text \<open>The turn that posts: the log of the room ends with the line, and the subscribed pipes
  are readable.\<close>

lemma typed_turn_stores:
  assumes "sqlite_chat sq tables" "sys_inv sq tables sy" "sy_clients sy k = Some (Telnet t)" "chatting c (tctx_of sy tm mem t)"
    "cs_st c = CHAT_ST_COMPOSE" "cs_compose c = []" "cs_room c = Some i" "ip_state (ts_iac (tc_s t)) = IAC_DATA"
    "list_all is_printable line" "line \<noteq> []" "length line \<le> 511"
    and post: "chat_room_post sq (sy_w sy) i (ts_username (tc_s t)) line = (w1, mid)" "0 \<le> mid"
    and turn: "telnet_loop_iter sq (Poll_ready False True (map char_byte (line @ [CR]))) dl (tctx_of sy tm mem t) = Continue (cx, dl')"
  shows "wlog tables (cx_w cx) (r_id (room_at (sy_w sy) i)) = wlog tables (sy_w sy) (r_id (room_at (sy_w sy) i))
      @ [\<lparr>cm_id = mid, cm_user = ts_username (tc_s t), cm_ts = w_now (sy_w sy), cm_body = line\<rparr>]"
    and "w_rooms (cx_w cx) = w_rooms (sy_w sy)" and "i < length (w_rooms (sy_w sy))" and "0 < mid"
    and "\<forall>m \<in> set (wlog tables (sy_w sy) (r_id (room_at (sy_w sy) i))). cm_id m < mid"
    and "\<And>fd. fd \<in> set (sub_fds (room_at (sy_w sy) i)) \<Longrightarrow> fd \<in> dom (w_pipes (sy_w sy)) \<Longrightarrow> pending (w_pipes (cx_w cx)) fd"
proof -
  let ?user = "ts_username (tc_s t)" and ?w = "sy_w sy"
  have cx0: "cx_s (tctx_of sy tm mem t) = tc_s t" "cx_w (tctx_of sy tm mem t) = ?w" by (simp_all add: tctx_of_def)
  obtain cx' where "telnet_loop_iter sq (Poll_ready False True (map char_byte (line @ [CR]))) dl (tctx_of sy tm mem t) = Continue (cx', dl)"
    "cx_w cx' = chat_room_presence_set sq (fst (chat_room_post sq ?w i ?user line)) i ?user"
    using typed_turn [OF assms(4-7) _ assms(9-11), of sq dl] assms(8) by (auto simp: cx0)
  then have w: "cx_w cx = chat_room_presence_set sq w1 i ?user" using turn post by simp
  have inv: "chat_inv c (tctx_of sy tm mem t)" using assms(2-4) by (rule chatting_inv)
  have wf: "db_wf tables (w_db ?w)" using sys_invD(1) [OF assms(2)] by (simp add: app_inv_def service_inv_def)
  note st = post_store [OF assms(1) wf post(1)]
  have clean: "sanitize_user ?user CHAT_USER_MAX = ?user" "sanitize_text line CHAT_BODY_MAX = line"
    using inv assms(9,11) sanitize_name_ok sanitize_text_id [of line CHAT_BODY_MAX]
    by (auto simp: chat_inv_def cx0 list_all_iff chat_sizes)
  have "wlog tables (cx_w cx) = wlog tables w1"
    using sqlite_chat.presence_set_log [OF assms(1)] by (simp add: w chat_room_presence_set_def Let_def)
  with st(3) post(2) clean show "wlog tables (cx_w cx) (r_id (room_at ?w i)) = wlog tables ?w (r_id (room_at ?w i))
      @ [\<lparr>cm_id = mid, cm_user = ?user, cm_ts = w_now ?w, cm_body = line\<rparr>]" by (simp add: posted_def)
  show "w_rooms (cx_w cx) = w_rooms ?w" using post_frame(1) [OF post(1)] by (simp add: w)
  show "i < length (w_rooms ?w)" using inv assms(7) by (simp add: chat_inv_def cx0)
  show "0 < mid" "\<forall>m \<in> set (wlog tables ?w (r_id (room_at ?w i))). cm_id m < mid" using st(4) post(2) by simp_all
  show "pending (w_pipes (cx_w cx)) fd" if "fd \<in> set (sub_fds (room_at ?w i))" "fd \<in> dom (w_pipes ?w)" for fd
    using posted_pending [OF post that] by (simp add: w)
qed

lemma telnet_turn_keeps:
  assumes "sqlite_chat sq tables" "opened_ok sq tables" "sys_inv sq tables sy" "sy_clients sy k = Some (Telnet t)"
    and "telnet_loop_iter sq ev (tc_deadline t) (tctx_of sy tm mem t) = Continue (cx, dl)"
  shows "moved sq tables k sy (put_telnet k dl False cx sy)" "sys_inv sq tables (put_telnet k dl False cx sy)"
proof -
  have "guar sq (tctx_of sy tm mem t) cx" "sess_inv cx"
    using guar_telnet_loop_iter [of sq "tctx_of sy tm mem t" ev "tc_deadline t"]
      telnet_loop_iter_inv [OF telnet_ctx_inv [OF assms(3,4)], of sq ev "tc_deadline t" tm mem] assms(5) by simp_all
  then show m: "moved sq tables k sy (put_telnet k dl False cx sy)" by (rule telnet_turn_moved [OF assms(1-4)])
  show "sys_inv sq tables (put_telnet k dl False cx sy)" using assms(1,3) m by (rule sys_inv_move)
qed

text \<open>C10: A line typed in a telnet session reaches the web clients of the room. When the session of a
  user who is composing in a room receives the printable line and Enter in one read, and
  the store takes the message, the pipe of every event stream subscribed to that room
  is readable, and stays so whatever the other clients do until the stream's thread runs. Its next
  turn then sends, on a connection that takes its output and with at most 64 messages waiting, one data frame for each
  message newer than its cursor, and the typed line with the user's name is among them.\<close>

theorem telnet_line_reaches_stream:
  assumes "sqlite_chat sq tables" and "opened_ok sq tables" and "readable sq" and "sys_inv sq tables sy"
    and "sy_clients sy k = Some (Telnet t)" and "chatting c (tctx_of sy tm mem t)"
    and "cs_st c = CHAT_ST_COMPOSE" and "cs_compose c = []" and "cs_room c = Some i"
    and "ip_state (ts_iac (tc_s t)) = IAC_DATA"
    and "list_all is_printable line" and "line \<noteq> []" and "length line \<le> 511"
    and "sy_clients sy j = Some (Http \<lparr>hl_c = h, hl_phase = H_stream i cur req, hl_healthy = True\<rparr>)"
    and "hc_notify_wfd h \<in> set (sub_fds (room_at (sy_w sy) i))" and "0 \<le> hc_notify_wfd h" and "0 \<le> hc_notify_rfd h"
    and "\<not> hc_shutdown_requested h"
    and "chat_room_post sq (sy_w sy) i (ts_username (tc_s t)) line = (w1, mid)" and "0 \<le> mid"
    and "telnet_loop_iter sq (Poll_ready False True (map char_byte (line @ [CR]))) (tc_deadline t) (tctx_of sy tm mem t) = Continue (cx, dl)"
    and "others_run sq j (put_telnet k dl False cx sy) sy2"
    and "log2 = wlog tables (sy_w sy2) (r_id (room_at (sy_w sy2) i))" and "length (newer cur log2) \<le> 64"
  shows "pending (w_pipes (sy_w sy2)) (hc_notify_wfd h)
    \<and> conn_sent (hx_c (sse_hx (sse_turn sq i (sse_user req) (here (Wait_ready True sr n)) cur (hctx_of sy2 h)))) =
        conn_sent h @ concat (map (\<lambda>m. sse_frame (Sse_data (msg_text m))) (newer cur log2))
    \<and> \<lparr>cm_id = mid, cm_user = ts_username (tc_s t), cm_ts = w_now (sy_w sy), cm_body = line\<rparr> \<in> set (newer cur log2)"
proof -
  let ?sy1 = "put_telnet k dl False cx sy" and ?w = "sy_w sy" and ?fd = "hc_notify_wfd h"
  let ?m = "\<lparr>cm_id = mid, cm_user = ts_username (tc_s t), cm_ts = w_now (sy_w sy), cm_body = line\<rparr>"
  let ?c = "Http \<lparr>hl_c = h, hl_phase = H_stream i cur req, hl_healthy = True\<rparr>"
  note st = typed_turn_stores [OF assms(1,4-13,19,20,21)]
  note mv = telnet_turn_keeps [OF assms(1,2,4,5,21)]
  have w1: "sy_w ?sy1 = cx_w cx" by (simp add: put_telnet_def)
  have jk: "j \<noteq> k" using assms(5,14) by auto
  have dom: "?fd \<in> dom (w_pipes ?w)" using sys_invD(3) [OF assms(4,14)] assms(16) by (simp add: pipe_open_def)
  have j1: "sy_clients ?sy1 j = Some ?c" using moved_other [OF assms(4) mv(1) jk assms(14)] by blast
  from others_run_keeps [OF assms(1,2) mv(2) j1 assms(22)]
  have s2: "sys_inv sq tables sy2" "sy_clients sy2 j = Some ?c" "rely tables ?fd (cx_w cx) (sy_w sy2)" by (simp_all add: w1)
  have app1: "app_inv tables (cx_w cx)" using sys_invD(1) [OF mv(2)] by (simp add: w1)
  have pend: "pending (w_pipes (sy_w sy2)) ?fd"
    using relyD(4) [OF s2(3) app1 assms(16) st(6) [OF assms(15) dom]] .
  have len: "i < length (w_rooms (cx_w cx))" using st(2,3) by simp
  obtain new where "log2 = wlog tables ?w (r_id (room_at ?w i)) @ [?m] @ new"
    using rely_log [OF s2(3) app1 len] st(1,2) assms(23) by auto
  moreover have "at_cursor cur (wlog tables ?w (r_id (room_at ?w i)))"
    using told_cursor [of tables ?w i cur h] http_phase_inv [OF assms(4,14)] assms(3) by (simp add: phase_inv_def)
  ultimately have "?m \<in> set (newer cur log2)" using posted_newer [of cur _ ?m] st(4,5) by simp
  moreover have "told tables (sy_w sy2) i cur h" using http_phase_inv [OF s2(1,2)] assms(3) by (simp add: phase_inv_def)
  note notified_stream [OF assms(1,3) this assms(17,18,23,24) refl, of "sse_user req" sr n]
  ultimately show ?thesis using pend by (simp add: hctx_of_def comp_def)
qed

section \<open>A notified session\<close>

text \<open>Output of a session whose socket takes everything.\<close>

lemma sendf_emits:
  assumes "healthy (cx_s cx)"
  shows "healthy (cx_s (cx_sendf sz str cx)) \<and> (\<exists>t. sent_to (cx_s (cx_sendf sz str cx)) = sent_to (cx_s cx) @ t)"
  using send_healthy [OF assms] assms by (auto simp: cx_sendf_def split: prod.split)

lemma room_footer_emits:
  assumes "healthy (cx_s cx)"
  shows "\<exists>z. healthy (cx_s (room_footer r cx)) \<and> sent_to (cx_s (room_footer r cx)) = sent_to (cx_s cx) @ z"
proof -
  have s: "\<exists>t. healthy (cx_s (csendf str x)) \<and> sent_to (cx_s (csendf str x)) = sent_to (cx_s cx) @ t"
    if "\<exists>t. healthy (cx_s x) \<and> sent_to (cx_s x) = sent_to (cx_s cx) @ t" for x :: "'a tctx" and str
    using that sendf_emits [of x 1024 str] by (auto simp: csendf_def)
  show ?thesis unfolding room_footer_def Let_def by (intro s) (use assms in auto)
qed

lemma msg_lines_emits:
  assumes "healthy (cx_s cx)" "\<forall>m \<in> set ms. clean_msg m"
  shows "healthy (cx_s (fold send_msg_line ms cx)) \<and>
    sent_to (cx_s (fold send_msg_line ms cx)) = sent_to (cx_s cx) @ concat (map msg_line ms)"
  using assms
proof (induction ms arbitrary: cx)
  case (Cons m ms)
  have "length (cm_user m) \<le> 31" "length (cm_body m) \<le> 511" using Cons.prems(2) by (auto simp: clean_msg_def chat_sizes)
  then have l: "length (msg_line m) < 640" by (simp add: msg_line_def)
  then have "cx_s (send_msg_line m cx) = telnet_session_send (cx_s cx) (msg_line m)"
    by (simp add: send_msg_line_def cx_sendf_fits)
  with send_healthy [OF Cons.prems(1), of "msg_line m"] l
  have "healthy (cx_s (send_msg_line m cx))" "sent_to (cx_s (send_msg_line m cx)) = sent_to (cx_s cx) @ msg_line m"
    by (simp_all add: TELNET_SEND_BUFSZ_def)
  with Cons.IH Cons.prems(2) show ?case by simp
qed simp

lemma live_page:
  assumes "sqlite_chat sq tables" "app_inv tables w" "readable sq"
    and "log = wlog tables w (r_id (room_at w i))" "list_all (\<lambda>m. cm_id m < LONG_MAX) log"
  shows "chat_room_before sq w i 0 (page_size r) CHAT_MSG_LINES = last_n (nat (page_size r)) log"
proof -
  have "0 \<le> page_size r" "page_size r \<le> CHAT_MSG_LINES" by (auto simp: page_size_def Let_def CHAT_MSG_LINES_def)
  moreover have "db_wf tables (w_db w)" "db_readable sq (w_db w)"
    using assms(2,3) by (simp_all add: app_inv_def service_inv_def readable_def)
  moreover have "filter (\<lambda>m. cm_id m < LONG_MAX) log = log" using assms(5) by (simp add: filter_id_conv list_all_iff)
  ultimately show ?thesis
    using sqlite_chat.db_before_any [OF assms(1)] assms(4) by (simp add: chat_room_before_def)
qed

text \<open>The turn of a session in a room, in the live view, whose pipe is readable: the screen is drawn
  again with the newest page of the log.\<close>

lemma notified_session:
  assumes "sqlite_chat sq tables" "readable sq" "app_inv tables (cx_w cx)" "chatting c cx" "chat_inv c cx"
    and "cs_room c = Some i" "cs_at_live c" "healthy (cx_s cx)" "0 \<le> ts_notify_rfd (cx_s cx)" "\<not> ts_shutdown_requested (cx_s cx)"
    and log: "log = wlog tables (cx_w cx) (r_id (room_at (cx_w cx) i))" "list_all (\<lambda>m. cm_id m < LONG_MAX) log"
  shows "\<exists>cx' a z. telnet_loop_iter sq (Poll_ready True False bs) dl cx = Continue (cx', dl)
    \<and> sent_to (cx_s cx') = sent_to (cx_s cx) @ a @ concat (map msg_line (last_n (nat (page_size (term_rows cx))) log)) @ z"
proof -
  let ?cx = "telnet_drain cx" and ?page = "last_n (nat (page_size (term_rows cx))) log"
  have d: "cx_s ?cx = cx_s cx" "term_rows ?cx = term_rows cx" "app_inv tables (cx_w ?cx)"
    "wlog tables (cx_w ?cx) (r_id (room_at (cx_w ?cx) i)) = log"
    using assms(3) by (simp_all add: telnet_drain_def term_rows_def log(1))
  have page: "chat_room_before sq (cx_w ?cx) i 0 (page_size (term_rows ?cx)) CHAT_MSG_LINES = ?page"
    using live_page [OF assms(1) d(3) assms(2) d(4) [symmetric] log(2), of "term_rows ?cx"] d(2) by simp
  have st: "cs_st c \<noteq> CHAT_ST_LOBBY" "cs_st c \<noteq> CHAT_ST_USERNAME" "ts_on_notify (cx_s cx) = Some Chat_on_notify"
    using assms(5,6) by (auto simp: chat_inv_def in_room_def)
  obtain c' cx1 where r: "render_room sq c ?cx = (c', cx1)" by fastforce
  have clean: "\<forall>m \<in> set ?page. clean_msg m"
    using assms(3) set_drop_subset [of _ log] by (auto simp: app_inv_def service_inv_def clean_log_def list_all_iff log(1) last_n_def)
  let ?h = "room_header sq i ?cx"
  obtain a where h: "healthy (cx_s ?h)" "sent_to (cx_s ?h) = sent_to (cx_s cx) @ a"
    using sendf_emits [of ?cx] assms(8) d(1) unfolding room_header_def csendf_def Let_def by metis
  note m = msg_lines_emits [OF h(1) clean]
  have cx1: "cx1 = room_footer (term_rows ?cx) (fold send_msg_line ?page ?h)"
    using r page assms(6,7) by (simp add: render_room_def render_room_at_def Let_def)
  obtain z where z: "healthy (cx_s cx1)" "sent_to (cx_s cx1) = sent_to (cx_s cx) @ a @ concat (map msg_line ?page) @ z"
    using room_footer_emits [of "fold send_msg_line ?page ?h" "term_rows ?cx"] m h(2) unfolding cx1 by auto
  let ?cx2 = "on_session (\<lambda>s. s\<lparr>ts_game_state := Some (Chat_state c')\<rparr>) cx1"
  let ?cx3 = "if cs_st c' = CHAT_ST_COMPOSE then render_compose c' ?cx2 else ?cx2"
  have z2: "healthy (cx_s ?cx2)" "sent_to (cx_s ?cx2) = sent_to (cx_s cx1)" using z by (simp_all add: healthy_def sent_to_def)
  have "\<exists>y. sent_to (cx_s ?cx3) = sent_to (cx_s cx1) @ y"
    using sendf_emits [OF z2(1)] z2(2) by (auto simp: render_compose_def csendf_def)
  moreover have "telnet_loop_iter sq (Poll_ready True False bs) dl cx = Continue (?cx3, dl)"
    using assms(4,7,9,10) st r d(1)
    by (simp add: telnet_loop_iter_def call_on_notify_def chat_on_notify_def chatting_def Let_def)
  ultimately show ?thesis using z(2) by (metis append.assoc)
qed

section \<open>From a web client to a telnet session\<close>

text \<open>The turn that answers the request: the log of the room ends with the message, and the
  subscribed pipes are readable.\<close>

lemma posted_turn_stores:
  assumes "sqlite_chat sq tables" "sys_inv sq tables sy" "sy_clients sy j = Some (Http \<lparr>hl_c = h, hl_phase = H_read, hl_healthy = ok\<rparr>)"
    and "w_once (sy_w sy)" "find_room (w_rooms (sy_w sy)) (int n) 0 = Some i" "int n \<le> LONG_MAX" "post_request n u b req"
    and post: "chat_room_post sq (sy_w sy) i u b = (w1, mid)" "0 \<le> mid"
    and d: "http_dispatch sq (alone env) (hctx_of sy h) req = Some hx"
  shows "hx_w (http_fallback hx) = w1" and "i < length (w_rooms (sy_w sy))" and "w_rooms w1 = w_rooms (sy_w sy)"
    and "wlog tables w1 (r_id (room_at (sy_w sy) i)) = wlog tables (sy_w sy) (r_id (room_at (sy_w sy) i))
      @ [\<lparr>cm_id = mid, cm_user = u, cm_ts = w_now (sy_w sy), cm_body = b\<rparr>]"
    and "\<And>fd. fd \<in> set (sub_fds (room_at (sy_w sy) i)) \<Longrightarrow> fd \<in> dom (w_pipes (sy_w sy)) \<Longrightarrow> pending (w_pipes w1) fd"
proof -
  have hw: "hx_w (hctx_of sy h) = sy_w sy" by (simp add: hctx_of_def)
  note p = post_dispatch [where hx = "hctx_of sy h", unfolded hw, OF assms(4-7) post(1)]
  from p(1) d show "hx_w (http_fallback hx) = w1" by (auto simp: with_conn_def http_fallback_def)
  show "i < length (w_rooms (sy_w sy))" using find_room_Some [OF assms(5)] by simp
  show "w_rooms w1 = w_rooms (sy_w sy)" by (rule post_frame(1) [OF post(1)])
  have wf: "db_wf tables (w_db (sy_w sy))" using sys_invD(1) [OF assms(2)] by (simp add: app_inv_def service_inv_def)
  show "wlog tables w1 (r_id (room_at (sy_w sy) i)) = wlog tables (sy_w sy) (r_id (room_at (sy_w sy) i))
      @ [\<lparr>cm_id = mid, cm_user = u, cm_ts = w_now (sy_w sy), cm_body = b\<rparr>]"
    using post_store(3) [OF assms(1) wf post] p(2,3) by (simp add: posted_def)
  show "pending (w_pipes w1) fd" if "fd \<in> set (sub_fds (room_at (sy_w sy) i))" "fd \<in> dom (w_pipes (sy_w sy))" for fd
    using posted_pending [OF post that] .
qed

lemma in_last_n:
  assumes "length new < n"
  shows "m \<in> set (last_n n (log @ [m] @ new))"
proof -
  have "length log + 1 + length new - n \<le> length log" using assms by simp
  then show ?thesis by (simp add: last_n_def)
qed

lemma newer_after:
  assumes "sqlite_chat sq tables" "app_inv tables w" "log2 = wlog tables w r" "log2 = log @ [m] @ new"
  shows "newer (cm_id m) log2 = new"
proof -
  have "sorted_wrt (<) (map cm_id log2)" using assms(2,3) by (simp add: app_inv_def service_inv_def sqlite_chat.db_log_increasing [OF assms(1)])
  then show ?thesis unfolding assms(4) newer_def by (force simp: sorted_wrt_append filter_empty_conv filter_id_conv)
qed

text \<open>C11: A message posted over HTTP appears on the screens of the telnet sessions in the room. When a
  web client posts a name and a text to a room and the store takes the message, the pipe of
  every telnet session subscribed to the room is readable, and stays so whatever the other clients do
  until the session's thread runs. In the live view its next turn then draws the
  screen again, with the lines of the newest page of the log, and the message is one of them unless
  a full page of newer ones has come in between.\<close>

theorem http_post_reaches_telnet:
  assumes "sqlite_chat sq tables" and "opened_ok sq tables" and "readable sq" and "sys_inv sq tables sy"
    and "sy_clients sy j = Some (Http \<lparr>hl_c = h, hl_phase = H_read, hl_healthy = ok\<rparr>)"
    and "w_once (sy_w sy)" and "find_room (w_rooms (sy_w sy)) (int n) 0 = Some i" and "int n \<le> LONG_MAX"
    and "post_request n u b req"
    and "chat_room_post sq (sy_w sy) i u b = (w1, mid)" and "0 \<le> mid"
    and "http_dispatch sq (alone env) (hctx_of sy h) req = Some hx"
    and "sy_clients sy k = Some (Telnet t)" and "ts_notify_wfd (tc_s t) \<in> set (sub_fds (room_at (sy_w sy) i))"
    and "0 \<le> ts_notify_wfd (tc_s t)" and "0 \<le> ts_notify_rfd (tc_s t)"
    and "chatting c (tctx_of sy tm mem t)" and "cs_room c = Some i" and "cs_at_live c"
    and "healthy (tc_s t)" and "\<not> ts_shutdown_requested (tc_s t)"
    and "others_run sq k (put_http j H_done ok (http_fallback hx) sy) sy2"
    and "log2 = wlog tables (sy_w sy2) (r_id (room_at (sy_w sy2) i))" and "list_all (\<lambda>m. cm_id m < LONG_MAX) log2"
    and "page = last_n (nat (page_size (term_rows (tctx_of sy tm mem t)))) log2"
  shows "pending (w_pipes (sy_w sy2)) (ts_notify_wfd (tc_s t))
    \<and> (\<exists>cx a z. telnet_loop_iter sq (Poll_ready True False []) dl (tctx_of sy2 tm mem t) = Continue (cx, dl)
        \<and> sent_to (cx_s cx) = sent_to (tc_s t) @ a @ concat (map msg_line page) @ z)
    \<and> (length (newer mid log2) < nat (page_size (term_rows (tctx_of sy tm mem t))) \<longrightarrow>
        \<lparr>cm_id = mid, cm_user = u, cm_ts = w_now (sy_w sy), cm_body = b\<rparr> \<in> set page)"
proof -
  let ?sy1 = "put_http j H_done ok (http_fallback hx) sy" and ?w = "sy_w sy" and ?fd = "ts_notify_wfd (tc_s t)"
  note st = posted_turn_stores [OF assms(1,4-12)]
  have mv: "moved sq tables j sy ?sy1" using assms(1,2,4,5,12) by (rule http_answer_moved)
  have inv1: "sys_inv sq tables ?sy1" using assms(1,4) mv by (rule sys_inv_move)
  have w1: "sy_w ?sy1 = w1" using st(1) by (simp add: put_http_def)
  have k1: "sy_clients ?sy1 k = Some (Telnet t)" using moved_other [OF assms(4) mv _ assms(13)] assms(5,13) by force
  from others_run_keeps [OF assms(1,2) inv1 k1 assms(22)]
  have s2: "sys_inv sq tables sy2" "sy_clients sy2 k = Some (Telnet t)" "rely tables ?fd w1 (sy_w sy2)" by (simp_all add: w1)
  have app: "app_inv tables w1" "app_inv tables (sy_w sy2)" using sys_invD(1) [OF inv1] sys_invD(1) [OF s2(1)] by (simp_all add: w1)
  have "?fd \<in> dom (w_pipes ?w)" using sys_invD(3) [OF assms(4,13)] assms(15) by (simp add: pipe_open_def)
  from relyD(4) [OF s2(3) app(1) assms(15) st(5) [OF assms(14) this]]
  have pend: "pending (w_pipes (sy_w sy2)) ?fd" .
  have cx: "cx_s (tctx_of sy2 tm mem t) = tc_s t" "cx_w (tctx_of sy2 tm mem t) = sy_w sy2"
    "term_rows (tctx_of sy2 tm mem t) = term_rows (tctx_of sy tm mem t)" by (simp_all add: tctx_of_def term_rows_def)
  have ch: "chatting c (tctx_of sy2 tm mem t)" using assms(17) by (simp add: chatting_def tctx_of_def flags_def)
  note ci = chatting_inv [OF s2(1,2) ch]
  have log: "log2 = wlog tables (cx_w (tctx_of sy2 tm mem t)) (r_id (room_at (cx_w (tctx_of sy2 tm mem t)) i))"
    using assms(23) by (simp add: cx)
  from notified_session [OF assms(1,3) _ ch ci assms(18,19) _ _ _ log assms(24), of "[]" dl] app(2)
  have "\<exists>cx a z. telnet_loop_iter sq (Poll_ready True False []) dl (tctx_of sy2 tm mem t) = Continue (cx, dl)
        \<and> sent_to (cx_s cx) = sent_to (tc_s t) @ a @ concat (map msg_line page) @ z"
    using assms(16,20,21,25) by (simp add: cx)
  moreover have "i < length (w_rooms w1)" using st(2,3) by simp
  from rely_log [OF s2(3) app(1) this] obtain new where
    split: "log2 = wlog tables ?w (r_id (room_at ?w i)) @ [\<lparr>cm_id = mid, cm_user = u, cm_ts = w_now ?w, cm_body = b\<rparr>] @ new"
    using st(3,4) assms(23) by auto
  have "length (newer mid log2) < nat (page_size (term_rows (tctx_of sy tm mem t))) \<longrightarrow>
      \<lparr>cm_id = mid, cm_user = u, cm_ts = w_now ?w, cm_body = b\<rparr> \<in> set page"
    using in_last_n [of new] newer_after [OF assms(1) app(2) assms(23) split] unfolding assms(25) split by simp
  ultimately show ?thesis using pend by blast
qed

section \<open>The window before a stream subscribes\<close>

text \<open>An event stream takes its cursor before it subscribes. A message stored in between is newer
  than the cursor, so it is not lost, but it has not woken the stream, and the turns
  without a wake-up send none: it waits for the next message of the room.\<close>

lemma gap_message_waits:
  assumes "sqlite_chat sq tables" and "readable sq" and "app_inv tables (hx_w hx)" and "w_once (hx_w hx)"
    and "room < length (w_rooms (hx_w hx))" and "open_conn (hx_c hx)"
    and "sse_tail sq room hx = (cur, hx1)" and "hc_notify_wfd (hx_c hx) \<notin> set (sub_fds (room_at (hx_w hx) room))"
    and "chat_room_post sq (hx_w hx1) room u b = (w, mid)" and "0 \<le> mid"
    and "hx2 = sse_subscribe sq room req (hx1\<lparr>hx_w := w\<rparr>)"
  shows "w_pipes (hx_w hx2) (hc_notify_wfd (hx_c hx)) = w_pipes (hx_w hx) (hc_notify_wfd (hx_c hx))
    \<and> posted (hx_w hx) mid u b \<in> set (newer cur (wlog tables (hx_w hx2) (r_id (room_at (hx_w hx) room))))"
proof -
  let ?r = "r_id (room_at (hx_w hx) room)"
  have hx: "\<lparr>hx_c = hx_c hx, hx_w = hx_w hx\<rparr> = hx" by simp
  have w1: "hx_w hx1 = hx_w hx" "hx_c hx1 = http_sse_begin (hx_c hx)"
    using assms(7) by (auto simp: sse_tail_def with_conn_def Let_def)
  have wf: "db_wf tables (w_db (hx_w hx))" using assms(3) by (simp add: app_inv_def service_inv_def)
  note p = assms(9) [unfolded w1(1)]
  note st = post_store [OF assms(1) wf p]
  have "told tables (hx_w hx) room cur (hx_c hx1)"
    using sqlite_chat.sse_tail_told [OF assms(1-6), unfolded hx, OF assms(7)] w1(1) by (auto simp: told_def)
  from told_cursor [OF this] have cur: "at_cursor cur (wlog tables (hx_w hx) ?r)" .
  have "wlog tables (hx_w hx2) = wlog tables w" "w_pipes (hx_w hx2) = w_pipes w"
    using sqlite_chat.presence_set_log [OF assms(1)]
    by (simp_all add: assms(11) sse_subscribe_def sse_presence_def with_conn_def chat_room_subscribe_def
        chat_room_presence_set_def update_subs_def Let_def split: option.split)
  then show ?thesis
    using st(3,4) assms(8,10) post_frame(4) [OF p] fold_pipe_write_other posted_newer [OF cur, of "posted (hx_w hx) mid u b" "[]"]
    by (simp add: posted_def)
qed

section \<open>Examples\<close>

text \<open>A web client on descriptor 7 and a telnet session on descriptor 8, both with room 0 as
  their room.\<close>

definition demo_pair_world :: "fd list \<Rightarrow> chat_tables chat_world" where
  "demo_pair_world fds = \<lparr>w_db = Some demo_tables,
     w_rooms = [\<lparr>r_id = 1, r_name = ''general'', sub_fds = fds\<rparr>,
       \<lparr>r_id = 2, r_name = ''games'', sub_fds = []\<rparr>, \<lparr>r_id = 3, r_name = ''random'', sub_fds = []\<rparr>],
     w_once = True, w_pipes = Map.empty(7 \<mapsto> 0, 8 \<mapsto> 0), w_now = 1000, w_statedir = None, w_dirs = [''data'']\<rparr>"

definition demo_pair_session :: "chat_state \<Rightarrow> telnet_session" where
  "demo_pair_session c = demo_session\<lparr>ts_main_menu := main_menu, ts_game_state := Some (Chat_state c), ts_notify_rfd := 9,
     ts_notify_wfd := 8, ts_on_notify := Some Chat_on_notify\<rparr>"

definition demo_pair :: "fd list \<Rightarrow> http_conn \<Rightarrow> http_phase \<Rightarrow> chat_state \<Rightarrow> chat_tables system" where
  "demo_pair fds h ph c = \<lparr>sy_w = demo_pair_world fds, sy_online = 1, sy_clients = Map.empty(
     1 \<mapsto> Http \<lparr>hl_c = h, hl_phase = ph, hl_healthy = True\<rparr>,
     2 \<mapsto> Telnet \<lparr>tc_s = demo_pair_session c, tc_deadline = 0, tc_overread = False, tc_left = False\<rparr>)\<rparr>"

lemma demo_pair_app: "set fds \<subseteq> {7, 8} \<Longrightarrow> distinct fds \<Longrightarrow> app_inv (\<lambda>t. t) (demo_pair_world fds)"
  using card_mono [of "{7, 8 :: fd}" "set fds"]
  by (simp add: demo_pair_world_def app_inv_def service_inv_def db_wf_def clean_log_def db_log_def demo_tables_def
      tables_ok_def CHAT_MAX_ROOMS_def room_ok_def chat_sizes CHAT_MAX_SUBSCRIBERS_def distinct_card)

lemma demo_pair_subs:
  "sub_only fd r (demo_pair_world fds) \<longleftrightarrow> 0 \<le> fd \<longrightarrow> count (mset fds) fd \<le> (if r = Some 0 then 1 else 0)"
  by (auto simp: sub_only_def subs_of_def demo_pair_world_def less_Suc_eq numeral_3_eq_3)

lemma demo_pair_chat:
  assumes "distinct fds" "length fds \<le> 2" "c = demo_chat\<lparr>cs_st := st\<rparr>" "st = CHAT_ST_COMPOSE \<or> st = CHAT_ST_IN_ROOM"
  shows "chat_inv c \<lparr>cx_s = demo_pair_session c, cx_w = demo_pair_world fds, cx_online = n, cx_tm = tm, cx_mem = mem, cx_overread = False\<rparr>"
proof -
  have "sub_only 8 (Some 0) (demo_pair_world fds)" using assms(1) by (simp add: demo_pair_subs distinct_count_atmost_1)
  moreover have "world_ok (demo_pair_world fds)" using assms(2)
    by (simp add: demo_pair_world_def world_ok_def room_ok_def CHAT_MAX_ROOMS_def CHAT_MAX_SUBSCRIBERS_def chat_sizes)
  ultimately show ?thesis using assms(3,4)
    by (auto simp: chat_inv_def demo_chat_def demo_pair_session_def demo_session_def chat_state_zero_def in_room_def
        demo_name_ok name_ok_def [of "[]"] demo_pair_world_def)
qed

lemma demo_pair_inv:
  assumes fds: "distinct fds" "set fds \<subseteq> {7, 8}" and "hc_notify_wfd h = 7"
    and "phase_inv ref_sqlite (\<lambda>t. t) (demo_pair_world fds) \<lparr>hl_c = h, hl_phase = ph, hl_healthy = True\<rparr>"
    and c: "c = demo_chat\<lparr>cs_st := st\<rparr>" "st = CHAT_ST_COMPOSE \<or> st = CHAT_ST_IN_ROOM"
  shows "sys_inv ref_sqlite (\<lambda>t. t) (demo_pair fds h ph c)"
proof -
  have len: "length fds \<le> 2" using fds card_mono [of "{7, 8 :: fd}" "set fds"] by (simp add: distinct_card)
  have s: "sess_inv \<lparr>cx_s = demo_pair_session c, cx_w = demo_pair_world fds, cx_online = n, cx_tm = tm, cx_mem = mem,
      cx_overread = False\<rparr>" for n tm mem
    using demo_pair_chat [OF fds(1) len c]
    by (simp add: sess_inv_def minv_def settled_def game_inv_def flags_def demo_pair_session_def demo_session_def)
  have wfd: "ts_notify_wfd (demo_pair_session c) = 8" by (simp add: demo_pair_session_def)
  have un: "sub_only fd None (demo_pair_world fds)" if "fd \<noteq> 7" "fd \<noteq> 8" for fd
    using that fds(2) by (auto simp: demo_pair_subs count_mset_0_iff)
  have pipes: "{7, 8} \<subseteq> dom (w_pipes (demo_pair_world fds))" by (simp add: demo_pair_world_def)
  have "fd \<noteq> 7 \<and> fd \<noteq> 8" if "\<forall>k d. sy_clients (demo_pair fds h ph c) k = Some d \<longrightarrow> client_wfd d \<noteq> fd" for fd
    using that [THEN spec, of 1] that [THEN spec, of 2] assms(3) wfd by (simp add: demo_pair_def)
  with un have free: "\<forall>fd. (\<forall>k d. sy_clients (demo_pair fds h ph c) k = Some d \<longrightarrow> client_wfd d \<noteq> fd) \<longrightarrow>
      sub_only fd None (demo_pair_world fds)" by blast
  have w: "sy_w (demo_pair fds h ph c) = demo_pair_world fds" by (simp add: demo_pair_def)
  show ?thesis
    unfolding sys_inv_def w using demo_pair_app [OF fds(2,1)] s assms(3,4) wfd free pipes
    by (intro conjI) (auto simp: demo_pair_def pipe_open_def split: if_splits)
qed

definition demo_stream_conn :: http_conn where
  "demo_stream_conn = http_sse_begin demo_conn"

lemma demo_stream_conn_facts:
  "hc_notify_wfd demo_stream_conn = 7" "hc_notify_rfd demo_stream_conn = 6" "open_conn demo_stream_conn"
  "conn_sent demo_stream_conn = sse_head" "\<not> hc_shutdown_requested demo_stream_conn"
proof -
  have "conn_ctl (fst (send_all demo_conn sse_head)) = conn_ctl demo_conn" by simp
  then have "conn_ctl demo_stream_conn = conn_ctl demo_conn" by (simp add: demo_stream_conn_def http_sse_begin_def conn_ctl_def)
  then show "hc_notify_wfd demo_stream_conn = 7" "hc_notify_rfd demo_stream_conn = 6" "\<not> hc_shutdown_requested demo_stream_conn"
    by (simp_all add: conn_ctl_def demo_conn_def)
  show "open_conn demo_stream_conn" "conn_sent demo_stream_conn = sse_head"
    using begin_conn(5,6) [OF demo_conn_facts(2)] by (simp_all add: demo_stream_conn_def) (simp add: demo_conn_def conn_sent_def)
qed

lemma demo_stream_told: "told (\<lambda>t. t) (demo_pair_world [7, 8]) 0 0 demo_stream_conn"
proof -
  have "wlog (\<lambda>t. t) (demo_pair_world [7, 8]) 1 = []" by (simp add: demo_pair_world_def demo_tables_def db_log_def)
  moreover have "app_inv (\<lambda>t. t) (demo_pair_world [7, 8])" by (rule demo_pair_app) simp_all
  ultimately have "on_stream (\<lambda>t. t) 0 (r_id (room_at (demo_pair_world [7, 8]) 0)) [] 0 [] \<lparr>hx_c = demo_stream_conn, hx_w = demo_pair_world [7, 8]\<rparr>"
    using demo_stream_conn_facts by (simp add: on_stream_def stream_at_def at_cursor_def newer_def demo_pair_world_def)
  then show ?thesis unfolding told_def told_from_def using demo_stream_conn_facts(4)
    by (intro exI [of _ "[]"] exI [of _ sse_head]) (auto intro!: exI [of _ "[]"])
qed

lemma demo_line_post:
  "\<exists>w. chat_room_post ref_sqlite (demo_pair_world fds) 0 ''bob'' ''hi'' = (w, 1)"
proof -
  have "sanitize_user ''bob'' CHAT_USER_MAX = ''bob''" "sanitize_text ''hi'' CHAT_BODY_MAX = ''hi''" by code_simp+
  then show ?thesis
    by (simp add: demo_pair_world_def chat_room_post_def chat_db_insert_message_def demo_tables_def next_rowid_def Let_def)
qed

theorem telnet_line_reaches_stream_witness:
  "\<exists>sy2 r. sys_inv ref_sqlite (\<lambda>t. t) sy2 \<and> r = sse_turn ref_sqlite 0 None (here (Wait_ready True False 0)) 0 (hctx_of sy2 demo_stream_conn)
     \<and> conn_sent (hx_c (sse_hx r)) = sse_head @ sse_frame (Sse_data (msg_text
       \<lparr>cm_id = 1, cm_user = ''bob'', cm_ts = 1000, cm_body = ''hi''\<rparr>))"
proof -
  let ?sy = "demo_pair [7, 8] demo_stream_conn (H_stream 0 0 demo_stream_req) demo_chat"
  let ?t = "\<lparr>tc_s = demo_pair_session demo_chat, tc_deadline = 0, tc_overread = False, tc_left = False\<rparr>"
  let ?tm = "cx_tm demo_cx"
  have "phase_inv ref_sqlite (\<lambda>t. t) (demo_pair_world [7, 8])
      \<lparr>hl_c = demo_stream_conn, hl_phase = H_stream 0 0 demo_stream_req, hl_healthy = True\<rparr>"
    using demo_stream_told demo_stream_conn_facts by (simp add: phase_inv_def demo_pair_subs) (simp add: demo_pair_world_def)
  then have inv: "sys_inv ref_sqlite (\<lambda>t. t) ?sy"
    using demo_pair_inv [of "[7, 8]" demo_stream_conn _ demo_chat CHAT_ST_COMPOSE] demo_stream_conn_facts(1)
    by (simp add: demo_chat_def)
  have cl: "sy_clients ?sy 2 = Some (Telnet ?t)"
    "sy_clients ?sy 1 = Some (Http \<lparr>hl_c = demo_stream_conn, hl_phase = H_stream 0 0 demo_stream_req, hl_healthy = True\<rparr>)"
    "sy_w ?sy = demo_pair_world [7, 8]" by (simp_all add: demo_pair_def)
  have ch: "chatting demo_chat (tctx_of ?sy ?tm True ?t)"
    by (simp add: chatting_def tctx_of_def flags_def demo_pair_session_def demo_session_def)
  have c: "cs_st demo_chat = CHAT_ST_COMPOSE" "cs_compose demo_chat = []" "cs_room demo_chat = Some 0"
    by (simp_all add: demo_chat_def chat_state_zero_def)
  have t: "ip_state (ts_iac (tc_s ?t)) = IAC_DATA" "ts_username (tc_s ?t) = ''bob''"
    by (simp_all add: demo_pair_session_def demo_session_def iac_parser_init_def)
  have line: "list_all is_printable ''hi''" "''hi'' \<noteq> []" "length ''hi'' \<le> 511" by (simp_all add: is_printable_def)
  obtain w1 where post: "chat_room_post ref_sqlite (sy_w ?sy) 0 (ts_username (tc_s ?t)) ''hi'' = (w1, 1)"
    using demo_line_post unfolding cl(3) t(2) by blast
  obtain cx dl where turn: "telnet_loop_iter ref_sqlite (Poll_ready False True (map char_byte (''hi'' @ [CR]))) (tc_deadline ?t)
      (tctx_of ?sy ?tm True ?t) = Continue (cx, dl)"
    using typed_turn [OF ch c _ line, of ref_sqlite "tc_deadline ?t"] t(1) by (auto simp: tctx_of_def)
  let ?sy2 = "put_telnet 2 dl False cx ?sy" and ?m = "\<lparr>cm_id = 1, cm_user = ''bob'', cm_ts = 1000, cm_body = ''hi''\<rparr>"
  have w2: "sy_w ?sy2 = cx_w cx" by (simp add: put_telnet_def)
  note st = typed_turn_stores [OF ref_engine.sqlite_chat_axioms inv cl(1) ch c t(1) line post _ turn]
  have log: "wlog (\<lambda>t. t) (sy_w ?sy2) (r_id (room_at (sy_w ?sy2) 0)) = [?m]"
    using st(1,2) t(2) by (simp add: w2 cl(3)) (simp add: demo_pair_world_def demo_tables_def db_log_def)
  have rest: "hc_notify_wfd demo_stream_conn \<in> set (sub_fds (room_at (sy_w ?sy) 0))" "(0::int) \<le> 1"
    "0 \<le> hc_notify_wfd demo_stream_conn" "0 \<le> hc_notify_rfd demo_stream_conn"
    "others_run ref_sqlite 1 ?sy2 ?sy2" "length (newer 0 [?m]) \<le> 64" "newer 0 [?m] = [?m]"
    by (simp_all add: demo_stream_conn_facts cl(3) others_run_def newer_def) (simp_all add: demo_pair_world_def)
  have "sse_user demo_stream_req = None" by code_simp
  with telnet_line_reaches_stream [OF ref_engine.sqlite_chat_axioms demo_opened _ inv cl(1) ch c t(1) line cl(2) rest(1,3,4)
      demo_stream_conn_facts(5) post rest(2) turn rest(5) log [symmetric] rest(6), of False 0]
  have "conn_sent (hx_c (sse_hx (sse_turn ref_sqlite 0 None (here (Wait_ready True False 0)) 0 (hctx_of ?sy2 demo_stream_conn)))) =
      sse_head @ sse_frame (Sse_data (msg_text ?m))"
    by (simp add: rest demo_stream_conn_facts readable_def ref_readable)
  then show ?thesis using telnet_turn_keeps(2) [OF ref_engine.sqlite_chat_axioms demo_opened inv cl(1) turn] by blast
qed

theorem http_post_reaches_telnet_witness:
  "\<exists>sy2 cx a z. sys_inv ref_sqlite (\<lambda>t. t) sy2
     \<and> telnet_loop_iter ref_sqlite (Poll_ready True False []) 0 (tctx_of sy2 (cx_tm demo_cx) True \<lparr>tc_s = demo_pair_session
         (demo_chat\<lparr>cs_st := CHAT_ST_IN_ROOM\<rparr>), tc_deadline = 0, tc_overread = False, tc_left = False\<rparr>) = Continue (cx, 0)
     \<and> sent_to (cx_s cx) = a @ msg_line \<lparr>cm_id = 1, cm_user = ''bob'', cm_ts = 1000, cm_body = ''hi''\<rparr> @ z"
proof -
  let ?c = "demo_chat\<lparr>cs_st := CHAT_ST_IN_ROOM\<rparr>" and ?tm = "cx_tm demo_cx"
  let ?sy = "demo_pair [8] demo_conn H_read ?c"
  let ?t = "\<lparr>tc_s = demo_pair_session ?c, tc_deadline = 0, tc_overread = False, tc_left = False\<rparr>"
  let ?m = "\<lparr>cm_id = 1, cm_user = ''bob'', cm_ts = 1000, cm_body = ''hi''\<rparr>"
  have inv: "sys_inv ref_sqlite (\<lambda>t. t) ?sy"
    by (rule demo_pair_inv [where st = CHAT_ST_IN_ROOM]) (simp_all add: demo_conn_facts phase_inv_def demo_pair_subs)
  have cl: "sy_clients ?sy 2 = Some (Telnet ?t)" "sy_w ?sy = demo_pair_world [8]"
    "sy_clients ?sy 1 = Some (Http \<lparr>hl_c = demo_conn, hl_phase = H_read, hl_healthy = True\<rparr>)" by (simp_all add: demo_pair_def)
  have ch: "chatting ?c (tctx_of ?sy ?tm True ?t)"
    by (simp add: chatting_def tctx_of_def flags_def demo_pair_session_def demo_session_def)
  have c: "cs_room ?c = Some 0" "cs_at_live ?c" by (simp_all add: demo_chat_def)
  have t: "ts_notify_wfd (tc_s ?t) = 8" "0 \<le> ts_notify_rfd (tc_s ?t)" "healthy (tc_s ?t)" "\<not> ts_shutdown_requested (tc_s ?t)"
    "sent_to (tc_s ?t) = []"
    by (simp_all add: demo_pair_session_def demo_session_def healthy_def sent_to_def)
  have w: "w_once (sy_w ?sy)" "find_room (w_rooms (sy_w ?sy)) (int 1) 0 = Some 0" "int 1 \<le> LONG_MAX"
    "8 \<in> set (sub_fds (room_at (sy_w ?sy) 0))"
    unfolding cl by (simp_all add: demo_pair_world_def LONG_MAX_def)
  have req: "post_request 1 ''bob'' ''hi'' demo_post"
    by (simp add: post_request_def demo_post_def char_class_defs is_printable_def chat_sizes)
  obtain w1 where post: "chat_room_post ref_sqlite (sy_w ?sy) 0 ''bob'' ''hi'' = (w1, 1)" using demo_line_post unfolding cl(2) by blast
  obtain hx where d: "http_dispatch ref_sqlite (alone demo_env) (hctx_of ?sy demo_conn) demo_post = Some hx"
    using post_dispatch(1) [where hx = "hctx_of ?sy demo_conn", OF _ _ w(3) req] w(1,2) post by (simp add: hctx_of_def)
  let ?sy2 = "put_http 1 H_done True (http_fallback hx) ?sy"
  note st = posted_turn_stores [OF ref_engine.sqlite_chat_axioms inv cl(3) w(1-3) req post _ d]
  have log: "wlog (\<lambda>t. t) (sy_w ?sy2) (r_id (room_at (sy_w ?sy2) 0)) = [?m]"
    using st(1,3,4) by (simp add: put_http_def cl) (simp add: demo_pair_world_def demo_tables_def db_log_def)
  have page: "last_n (nat (page_size (term_rows (tctx_of ?sy ?tm True ?t)))) [?m] = [?m]"
    by (simp add: page_size_def term_rows_def tctx_of_def demo_pair_session_def demo_session_def CHAT_MSG_LINES_def last_n_def)
  have ids: "list_all (\<lambda>m. cm_id m < LONG_MAX) [?m]" by (simp add: LONG_MAX_def)
  have s: "8 \<in> set (sub_fds (room_at (sy_w ?sy) 0)) \<Longrightarrow> ts_notify_wfd (tc_s ?t) \<in> set (sub_fds (room_at (sy_w ?sy) 0))"
    "0 \<le> ts_notify_wfd (tc_s ?t)" using t(1) by simp_all
  have r: "readable ref_sqlite" "others_run ref_sqlite 2 ?sy2 ?sy2" by (simp_all add: readable_def ref_readable others_run_def)
  from http_post_reaches_telnet [OF ref_engine.sqlite_chat_axioms demo_opened r(1) inv cl(3) w(1-3) req post _ d cl(1) s(1) [OF w(4)] s(2)
      t(2) ch c t(3,4) r(2) log [symmetric] ids page [symmetric], of 0] t(5)
  obtain cx a z where x: "telnet_loop_iter ref_sqlite (Poll_ready True False []) 0 (tctx_of ?sy2 ?tm True ?t) = Continue (cx, 0)"
    "sent_to (cx_s cx) = a @ msg_line ?m @ z" by auto
  have "sys_inv ref_sqlite (\<lambda>t. t) ?sy2"
    using sys_inv_move [OF ref_engine.sqlite_chat_axioms inv http_answer_moved [OF ref_engine.sqlite_chat_axioms demo_opened inv cl(3) d]] .
  with x show ?thesis by blast
qed

end
