(* ===== verification/Stopping.thy ===== *)
theory Stopping
  imports Delivery
begin

text \<open>
  The shutdown calls of both protocols, seen from the clients: a client told to stop has
  its pipe readable, whatever the others do meanwhile, and at most four turns left. A
  telnet session and an event stream are woken by the pipe; a connection whose request is
  still being read is not, since \<^verbatim>\<open>read_request\<close> waits for the socket alone: it goes on
  when that reading ends. A turn reads the stop flag at its start and after it has drained
  its pipe; a flag raised in between is as one raised after the turn.
\<close>

section \<open>The model\<close>

fun client_stopped :: "client \<Rightarrow> bool" where
  "client_stopped (Telnet c) = ts_shutdown_requested (tc_s c)"
| "client_stopped (Http c) = hc_shutdown_requested (hl_c c)"

fun flag_client :: "client \<Rightarrow> client" where
  "flag_client (Telnet c) = Telnet (c\<lparr>tc_s := (tc_s c)\<lparr>ts_shutdown_requested := True\<rparr>\<rparr>)"
| "flag_client (Http c) = Http (c\<lparr>hl_c := (hl_c c)\<lparr>hc_shutdown_requested := True\<rparr>\<rparr>)"

text \<open>The body of the loop of \<^verbatim>\<open>telnet_shutdown_all\<close> and \<^verbatim>\<open>http_shutdown_all\<close> for one session.\<close>

definition stop_client :: "nat \<Rightarrow> 'db system \<Rightarrow> 'db system" where
  "stop_client k sy = (case sy_clients sy k of None \<Rightarrow> sy
     | Some c \<Rightarrow> sy\<lparr>sy_w := (sy_w sy)\<lparr>w_pipes := pipe_write (client_wfd c) (w_pipes (sy_w sy))\<rparr>,
         sy_clients := (sy_clients sy)(k \<mapsto> flag_client c)\<rparr>)"

fun turns_left :: "client \<Rightarrow> nat" where
  "turns_left (Telnet c) = 1"
| "turns_left (Http c) = (case hl_phase c of H_read \<Rightarrow> 4 | H_tail _ _ _ \<Rightarrow> 3 | H_stream _ _ _ \<Rightarrow> 2 | H_done \<Rightarrow> 1)"

text \<open>The turn of a connection whose request was read in the pieces \<open>evs\<close>: one that got no request
  is done, one that got a request is answered.\<close>

definition read_turn ::
  "'db sqlite \<Rightarrow> 'db henv \<Rightarrow> nat \<Rightarrow> http_client \<Rightarrow> read_event list \<Rightarrow> string \<Rightarrow> 'db system \<Rightarrow> 'db system option" where
  "read_turn sq env k h evs buf sy =
     (case read_request evs (hl_c h) buf 0 no_request of
        None \<Rightarrow> None
      | Some (c, tot, req) \<Rightarrow>
          if tot \<le> 0 then Some (put_http k H_done (hl_healthy h) (hctx_of sy c) sy)
          else map_option (\<lambda>hx. put_http k H_done (hl_healthy h) (http_fallback hx) sy)
                 (http_dispatch sq (alone env) (hctx_of sy c) req))"

fun still_reading :: "client \<Rightarrow> bool" where
  "still_reading (Telnet c) = False"
| "still_reading (Http h) \<longleftrightarrow> hl_phase h = H_read"

definition left_of :: "nat \<Rightarrow> 'db system \<Rightarrow> nat" where
  "left_of k sy = (case sy_clients sy k of None \<Rightarrow> 0 | Some c \<Rightarrow> turns_left c)"

section \<open>A stop request\<close>

lemma flag_client_simps [simp]:
  "client_wfd (flag_client c) = client_wfd c" "client_stopped (flag_client c)" "turns_left (flag_client c) = turns_left c"
  by (cases c; simp)+

lemma stop_client_step:
  assumes "sy_clients sy k = Some c"
  shows "sys_step sq (Some k) sy (stop_client k sy)"
proof (cases c)
  case (Telnet t)
  with assms sys_telnet_stop [of sy k t sq] show ?thesis by (simp add: stop_client_def)
next
  case (Http h)
  with assms sys_http_stop [of sy k h sq] show ?thesis by (simp add: stop_client_def)
qed

section \<open>The turns of a stopped client\<close>

lemma read_keeps_flag:
  assumes "read_request evs c buf 0 no_request = Some (c', tot, req)" "0 < tot"
  shows "c' = c"
  using read_request_outcome [OF assms(1)] assms(2) by auto

lemma opened_keeps_flag:
  "sse_tail sq room hx = (cur, hx1) \<Longrightarrow> hc_shutdown_requested (hx_c hx1) = hc_shutdown_requested (hx_c hx)"
  "hc_shutdown_requested (hx_c (sse_subscribe sq room req hx)) = hc_shutdown_requested (hx_c hx)"
proof -
  have sa: "hc_shutdown_requested (fst (send_all d buf)) = hc_shutdown_requested d" for d buf
    using send_all_frame(1) [of d buf] by (simp add: conn_ctl_def)
  have st: "hc_shutdown_requested (fst (send_three x y z d)) = hc_shutdown_requested d" for x y z d
    using send_three_frame(1) [of x y z d] by (simp add: conn_ctl_def)
  show "sse_tail sq room hx = (cur, hx1) \<Longrightarrow> hc_shutdown_requested (hx_c hx1) = hc_shutdown_requested (hx_c hx)"
    by (auto simp: sse_tail_def with_conn_def http_sse_begin_def sa Let_def)
  show "hc_shutdown_requested (hx_c (sse_subscribe sq room req hx)) = hc_shutdown_requested (hx_c hx)"
    by (simp add: sse_subscribe_def with_conn_def http_sse_comment_def st Let_def)
qed

lemma stopped_turn: "hc_shutdown_requested (hx_c hx) \<Longrightarrow> sse_turn sq room u t cur hx = Sse_stop cur hx"
  by (simp add: sse_turn_def http_conn_wait_def)

lemma left_put [simp]:
  "left_of k (put_http k ph ok hx sy) = turns_left (Http \<lparr>hl_c = hx_c hx, hl_phase = ph, hl_healthy = ok\<rparr>)"
  "left_of k (drop_client k sy) = 0"
  "sy_clients (put_http k ph ok hx sy) k = Some (Http \<lparr>hl_c = hx_c hx, hl_phase = ph, hl_healthy = ok\<rparr>)"
  "sy_clients (drop_client k sy) k = None"
  by (simp_all add: left_of_def put_http_def drop_client_def)

text \<open>A client that is told to stop, or has come to its end by itself.\<close>

fun leaving :: "client \<Rightarrow> bool" where
  "leaving (Telnet c) = telnet_over c"
| "leaving (Http c) \<longleftrightarrow> hc_shutdown_requested (hl_c c) \<or> hl_phase c = H_done"

definition leaves :: "nat \<Rightarrow> 'db system \<Rightarrow> bool" where
  "leaves k sy \<longleftrightarrow> (\<forall>c. sy_clients sy k = Some c \<longrightarrow> leaving c)"

lemma leaving_flag [simp]: "client_stopped c \<Longrightarrow> leaving c"
  by (cases c) (simp_all add: telnet_over_def)

lemma leaves_stop: "leaves k (stop_client k sy)"
  by (auto simp: leaves_def stop_client_def split: option.split)

lemma leaving_step:
  assumes "sys_step sq (Some k) sy sy'" "sy_clients sy k = Some c" "leaving c"
  shows "leaves k sy' \<and> (sy' = stop_client k sy \<or> left_of k sy' < left_of k sy)"
  using assms(1)
proof cases
  case (sys_http_open h ok evs buf0 h' tot req env room cur hx)
  have "h' = h" using sys_http_open read_keeps_flag by blast
  then have "hc_shutdown_requested (hx_c hx) = hc_shutdown_requested h" using opened_keeps_flag(1) [OF sys_http_open(7)] by simp
  then show ?thesis unfolding sys_http_open(1) using sys_http_open(2) assms(2,3) by (simp add: leaves_def left_of_def)
next
  case (sys_http_turn h room cur req ok ev r)
  have "r = Sse_stop cur (hctx_of sy h)"
    using stopped_turn [of "hctx_of sy h"] sys_http_turn assms(2,3) by (simp add: hctx_of_def)
  then show ?thesis unfolding sys_http_turn(1) using sys_http_turn(2) by (simp add: leaves_def left_of_def)
next
  case (sys_telnet_finish t cx tm mem)
  then show ?thesis by (simp add: leaves_def left_of_def)
next
  case (sys_telnet_stop t)
  then have "sy' = stop_client k sy" by (simp add: stop_client_def)
  with leaves_stop show ?thesis by blast
next
  case (sys_http_stop h)
  then have "sy' = stop_client k sy" by (simp add: stop_client_def)
  with leaves_stop show ?thesis by blast
qed (use assms(2,3) in \<open>simp_all add: leaves_def left_of_def opened_keeps_flag hctx_of_def\<close>)

text \<open>Some own turn is always possible, whatever the socket still delivers.\<close>

lemma leaving_enabled:
  assumes "sy_clients sy k = Some c" "leaving c"
  shows "\<exists>sy'. sys_step sq (Some k) sy sy' \<and> left_of k sy' < left_of k sy"
proof (cases c)
  case (Telnet t)
  with assms have "sys_step sq (Some k) sy (drop_client k (put_telnet k (tc_deadline t) True
      (telnet_close (telnet_end_game sq (tctx_of sy undefined True t))) sy))"
    by (intro sys_telnet_finish) simp_all
  moreover have "left_of k sy = 1" using assms(1) Telnet by (simp add: left_of_def)
  ultimately show ?thesis by (metis left_put(2) less_one)
next
  case (Http h)
  obtain d ph ok where h: "h = \<lparr>hl_c = d, hl_phase = ph, hl_healthy = ok\<rparr>" by (cases h) auto
  have cl: "sy_clients sy k = Some (Http \<lparr>hl_c = d, hl_phase = ph, hl_healthy = ok\<rparr>)" using assms(1) Http h by simp
  show ?thesis
  proof (cases ph)
    case H_read
    have "read_request [Read_closed] d [] 0 no_request = Some (d, -1, no_request)" by (simp add: read_step_def)
    from sys_http_unread [OF cl [unfolded H_read] this] cl H_read show ?thesis by (fastforce simp: left_of_def)
  next
    case (H_tail room cur req)
    from sys_http_subscribe [OF cl [unfolded H_tail]] cl H_tail show ?thesis by (fastforce simp: left_of_def)
  next
    case (H_stream room cur req)
    then have "sse_turn sq room (sse_user req) (here Wait_timeout) cur (hctx_of sy d) = Sse_stop cur (hctx_of sy d)"
      using assms(2) Http h by (intro stopped_turn) (simp add: hctx_of_def)
    from sys_http_turn [OF cl [unfolded H_stream] this] cl H_stream show ?thesis by (fastforce simp: left_of_def)
  next
    case H_done
    from sys_http_finish [OF cl [unfolded H_done]] cl H_done show ?thesis by (fastforce simp: left_of_def)
  qed
qed

text \<open>A request that arrives at a stopped connection is answered at once: a stream it asks for
  ends with its greeting.\<close>

lemma stopped_sse:
  assumes "hc_shutdown_requested (hx_c hx)"
  shows "\<exists>hx'. handle_sse sq (\<lambda>hx. hx) [] room req hx = Some hx'"
proof -
  obtain cur hx1 where t: "sse_tail sq room hx = (cur, hx1)" by fastforce
  with assms have "hc_shutdown_requested (hx_c (sse_subscribe sq room req hx1))" by (simp add: opened_keeps_flag)
  with t show ?thesis by (simp add: handle_sse_def sse_open_split)
qed

lemma stopped_dispatch:
  assumes "hc_shutdown_requested (hx_c hx)"
  shows "\<exists>hx'. http_dispatch sq (alone env) hx req = Some hx'"
proof -
  have ev: "\<exists>hx'. dispatch_events sq (alone env) req (hx\<lparr>hx_w := w\<rparr>) = Some hx'" for w
    using stopped_sse [of "hx\<lparr>hx_w := chat_service_init sq w\<rparr>" sq _ req] assms
    by (auto simp: dispatch_events_def chat_room_by_id_def Let_def split: option.split)
  have "\<exists>hx'. dispatch_events sq (alone env) req hx = Some hx'" using ev [of "hx_w hx"] by simp
  moreover have "\<exists>hx'. dispatch_room sq (alone env) req rid sub hx = Some hx'" for rid sub
    using ev by (auto simp: dispatch_room_def chat_room_by_id_def Let_def split: option.split)
  ultimately show ?thesis by (auto simp: http_dispatch_def Let_def split: option.split)
qed

lemma stopped_read_turn:
  assumes cl: "sy_clients sy k = Some (Http h)" "hl_phase h = H_read" and "hc_shutdown_requested (hl_c h)"
    and rd: "read_request evs (hl_c h) buf 0 no_request \<noteq> None"
  shows "\<exists>sy'. read_turn sq env k h evs buf sy = Some sy' \<and> sys_step sq (Some k) sy sy' \<and> left_of k sy' = 1"
proof -
  obtain c tot req where r: "read_request evs (hl_c h) buf 0 no_request = Some (c, tot, req)" using rd by auto
  have h: "sy_clients sy k = Some (Http \<lparr>hl_c = hl_c h, hl_phase = H_read, hl_healthy = hl_healthy h\<rparr>)"
    using cl by (cases h) simp
  show ?thesis
  proof (cases "tot \<le> 0")
    case True
    with sys_http_unread [OF h r] r show ?thesis by (simp add: read_turn_def)
  next
    case False
    then have "c = hl_c h" using read_keeps_flag [OF r] by simp
    with stopped_dispatch [of "hctx_of sy c" sq env req] assms(3)
    obtain hx where d: "http_dispatch sq (alone env) (hctx_of sy c) req = Some hx" by (auto simp: hctx_of_def)
    from sys_http_answer [OF h r _ d] False r d show ?thesis by (simp add: read_turn_def)
  qed
qed

section \<open>Until the client is gone\<close>

text \<open>A run in which client \<open>k\<close> takes \<open>n\<close> turns of its own; further stop requests and anything the others do
  may come in between.\<close>

inductive stop_run :: "'db sqlite \<Rightarrow> nat \<Rightarrow> nat \<Rightarrow> 'db system \<Rightarrow> 'db system \<Rightarrow> bool" for sq k where
  run_refl: "stop_run sq k 0 sy sy"
| run_other: "stop_run sq k n sy sy1 \<Longrightarrow> sys_step sq l sy1 sy2 \<Longrightarrow> l \<noteq> Some k \<Longrightarrow> stop_run sq k n sy sy2"
| run_again: "stop_run sq k n sy sy1 \<Longrightarrow> sy_clients sy1 k \<noteq> None \<Longrightarrow> stop_run sq k n sy (stop_client k sy1)"
| run_own: "stop_run sq k n sy sy1 \<Longrightarrow> sys_step sq (Some k) sy1 sy2 \<Longrightarrow> sy_clients sy1 k \<noteq> None \<Longrightarrow>
    sy2 \<noteq> stop_client k sy1 \<Longrightarrow> stop_run sq k (Suc n) sy sy2"

lemma sys_step_keeps: "sys_step sq l sy sy' \<Longrightarrow> l \<noteq> Some j \<Longrightarrow> sy_clients sy' j = sy_clients sy j"
  by (induction rule: sys_step.induct)
     (auto simp: put_telnet_def put_http_def drop_client_def split: loop_result.split prod.split sse_step.split)

lemma stop_client_left: "left_of k (stop_client k sy) = left_of k sy"
  by (simp add: left_of_def stop_client_def split: option.split)

lemma stop_run_leaves:
  assumes "stop_run sq k n sy sy'" "leaves k sy"
  shows "leaves k sy' \<and> n + left_of k sy' \<le> left_of k sy"
  using assms
proof induction
  case (run_other n sy sy1 l sy2)
  have "sy_clients sy2 k = sy_clients sy1 k" using run_other.hyps by (intro sys_step_keeps)
  then have "leaves k sy2 = leaves k sy1" "left_of k sy2 = left_of k sy1" by (simp_all add: leaves_def left_of_def)
  with run_other.IH [OF run_other.prems] show ?case by simp
next
  case (run_again n sy sy1)
  with run_again.IH [OF run_again.prems] show ?case by (simp add: leaves_stop stop_client_left)
next
  case (run_own n sy sy1 sy2)
  then obtain c where c: "sy_clients sy1 k = Some c" by blast
  have l: "leaves k sy1" "n + left_of k sy1 \<le> left_of k sy" using run_own.IH [OF run_own.prems] by simp_all
  then have "leaving c" using c by (simp add: leaves_def)
  from leaving_step [OF run_own.hyps(2) c this] run_own.hyps(4) have "leaves k sy2" "left_of k sy2 < left_of k sy1" by simp_all
  with l(2) show ?case by simp
qed simp

lemma stop_run_woken:
  assumes "sqlite_chat sq tables" "opened_ok sq tables" "stop_run sq k n sy sy'" "sys_inv sq tables sy"
  shows "sys_inv sq tables sy' \<and> (n = 0 \<longrightarrow> 0 \<le> fd \<longrightarrow> (\<exists>c. sy_clients sy k = Some c \<and> client_wfd c = fd) \<longrightarrow>
    pending (w_pipes (sy_w sy)) fd \<longrightarrow> (\<exists>c. sy_clients sy' k = Some c \<and> client_wfd c = fd) \<and> pending (w_pipes (sy_w sy')) fd)"
  using assms(3,4)
proof induction
  case (run_other n sy sy1 l sy2)
  have inv: "sys_inv sq tables sy1" using run_other.IH [OF run_other.prems] by simp
  have "sys_inv sq tables sy2" using run_other.hyps(2) inv by (rule sys_step_inv [OF assms(1,2)])
  moreover have "(\<exists>c. sy_clients sy2 k = Some c \<and> client_wfd c = fd) \<and> pending (w_pipes (sy_w sy2)) fd"
    if c: "sy_clients sy1 k = Some c" "client_wfd c = fd" and p: "0 \<le> fd" "pending (w_pipes (sy_w sy1)) fd" for c
  proof -
    note o = sys_step_other [OF assms(1,2) inv run_other.hyps(2,3) c(1)]
    then have "rely tables fd (sy_w sy1) (sy_w sy2)" using c(2) by simp
    from relyD(4) [OF this sys_invD(1) [OF inv] p] o c show ?thesis by blast
  qed
  ultimately show ?case using run_other.IH [OF run_other.prems] by blast
next
  case (run_again n sy sy1)
  then obtain c where c: "sy_clients sy1 k = Some c" by blast
  have "sys_inv sq tables (stop_client k sy1)"
    using sys_step_inv [OF assms(1,2) stop_client_step [OF c]] run_again.IH [OF run_again.prems] by simp
  moreover have "pending (w_pipes (sy_w sy1)) fd \<Longrightarrow> pending (w_pipes (sy_w (stop_client k sy1))) fd"
    using c by (simp add: stop_client_def pipe_write_keeps)
  moreover have "sy_clients (stop_client k sy1) k = Some (flag_client c)" using c by (simp add: stop_client_def)
  ultimately show ?case using run_again.IH [OF run_again.prems] c by auto
next
  case (run_own n sy sy1 sy2)
  with run_own.IH [OF run_own.prems] sys_step_inv [OF assms(1,2) run_own.hyps(2)] show ?case by simp
qed simp

lemma stopped_pending:
  assumes "sqlite_chat sq tables" "opened_ok sq tables" "sys_inv sq tables sy" "sy_clients sy k = Some c"
    and "stop_run sq k n (stop_client k sy) sy'"
  shows "n = 0 \<and> 0 \<le> client_wfd c \<longrightarrow> pending (w_pipes (sy_w sy')) (client_wfd c)"
proof -
  have inv: "sys_inv sq tables (stop_client k sy)"
    by (rule sys_step_inv [OF assms(1,2) stop_client_step [OF assms(4)] assms(3)])
  have "pending (w_pipes (sy_w (stop_client k sy))) (client_wfd c)" if "0 \<le> client_wfd c"
    using sys_invD(3) [OF assms(3,4)] that assms(4) by (simp add: stop_client_def pipe_open_def pipe_write_pending)
  moreover have "sy_clients (stop_client k sy) k = Some (flag_client c)" using assms(4) by (simp add: stop_client_def)
  ultimately show ?thesis using stop_run_woken [OF assms(1,2,5) inv, of "client_wfd c"] by auto
qed

text \<open>C12: A stop request ends every session and every request. Once the shutdown call has flagged
  a client, whatever the others do: its pipe is readable until it moves; it has at most one
  turn left when it is a telnet session and four when it is an HTTP connection, and whatever
  turn it takes, with whatever its wait reports, it comes closer to its end. A telnet session,
  an event stream and a connection already answered can always take such a turn. A connection still reading its request
  is not woken by the flag or the pipe: it goes on exactly when the reading ends, by data,
  an error, a closed peer or the timeout, and then is answered and done in that turn.\<close>

theorem stopped_client_leaves:
  assumes "sqlite_chat sq tables" and "opened_ok sq tables" and "sys_inv sq tables sy" and "sy_clients sy k = Some c"
    and "stop_run sq k n (stop_client k sy) sy'"
  shows "n + left_of k sy' \<le> turns_left c \<and> turns_left c \<le> 4
    \<and> (n = 0 \<and> 0 \<le> client_wfd c \<longrightarrow> pending (w_pipes (sy_w sy')) (client_wfd c))
    \<and> (\<forall>d sy''. sy_clients sy' k = Some d \<and> sys_step sq (Some k) sy' sy'' \<and> sy'' \<noteq> stop_client k sy' \<longrightarrow>
          left_of k sy'' < left_of k sy')
    \<and> (\<forall>d. sy_clients sy' k = Some d \<and> \<not> still_reading d \<longrightarrow>
          (\<exists>sy''. sys_step sq (Some k) sy' sy'' \<and> left_of k sy'' < left_of k sy'))
    \<and> (\<forall>h env evs buf. sy_clients sy' k = Some (Http h) \<and> still_reading (Http h)
          \<and> read_request evs (hl_c h) buf 0 no_request \<noteq> None \<longrightarrow>
          (\<exists>sy''. read_turn sq env k h evs buf sy' = Some sy'' \<and> sys_step sq (Some k) sy' sy'' \<and> left_of k sy'' = 1))"
proof -
  have st: "left_of k (stop_client k sy) = turns_left c" using assms(4) by (simp add: stop_client_left) (simp add: left_of_def)
  from stop_run_leaves [OF assms(5) leaves_stop] st
  have l: "leaves k sy'" "n + left_of k sy' \<le> turns_left c" by simp_all
  then have lv: "leaving d" if "sy_clients sy' k = Some d" for d using that by (simp add: leaves_def)
  have "turns_left c \<le> 4" by (cases c) (simp_all split: http_phase.split)
  moreover have "n = 0 \<and> 0 \<le> client_wfd c \<longrightarrow> pending (w_pipes (sy_w sy')) (client_wfd c)"
    by (rule stopped_pending [OF assms])
  moreover have "left_of k sy'' < left_of k sy'"
    if "sy_clients sy' k = Some d" "sys_step sq (Some k) sy' sy''" "sy'' \<noteq> stop_client k sy'" for d sy''
    using leaving_step [OF that(2,1) lv [OF that(1)]] that(3) by blast
  moreover have "\<exists>sy''. sys_step sq (Some k) sy' sy'' \<and> left_of k sy'' < left_of k sy'" if "sy_clients sy' k = Some d" for d
    using leaving_enabled [OF that lv [OF that]] .
  moreover have "\<exists>sy''. read_turn sq env k h evs buf sy' = Some sy'' \<and> sys_step sq (Some k) sy' sy'' \<and> left_of k sy'' = 1"
    if "sy_clients sy' k = Some (Http h)" "still_reading (Http h)" "read_request evs (hl_c h) buf 0 no_request \<noteq> None"
    for h env evs buf
    using stopped_read_turn [OF that(1) _ _ that(3)] that(2) lv [OF that(1)] by simp
  ultimately show ?thesis using l(2) by blast
qed

section \<open>Example\<close>

theorem stopped_client_leaves_witness:
  "left_of 1 (stop_client 1 demo_stream_sys) = 2 \<and> pending (w_pipes (sy_w (stop_client 1 demo_stream_sys))) 7
   \<and> (\<exists>sy'. sys_step ref_sqlite (Some 1) (stop_client 1 demo_stream_sys) sy' \<and> left_of 1 sy' < 2)"
proof -
  let ?c = "hx_c (sse_subscribe ref_sqlite 0 demo_stream_req (hctx_of demo_tail_sys (http_sse_begin demo_conn)))"
  let ?h = "Http \<lparr>hl_c = ?c, hl_phase = H_stream 0 0 demo_stream_req, hl_healthy = True\<rparr>"
  have cl: "sy_clients demo_stream_sys 1 = Some ?h" by (rule demo_stream_state(1))
  have inv: "sys_inv ref_sqlite (\<lambda>t. t) demo_stream_sys"
    by (rule sys_reach_inv [OF ref_engine.sqlite_chat_axioms demo_opened demo_sys_reach])
  have "hguar ref_sqlite (hctx_of demo_tail_sys (http_sse_begin demo_conn)) (sse_subscribe ref_sqlite 0 demo_stream_req
      (hctx_of demo_tail_sys (http_sse_begin demo_conn)))" by (rule hguar_sse_subscribe)
  then have fd: "client_wfd ?h = 7" by (simp add: hguar_def hctx_of_def demo_conn_facts)
  have left: "left_of 1 (stop_client 1 demo_stream_sys) = 2" using cl by (simp add: stop_client_left) (simp add: left_of_def)
  have "sy_clients (stop_client 1 demo_stream_sys) 1 = Some (flag_client ?h) \<and> \<not> still_reading (flag_client ?h)"
    using cl by (simp add: stop_client_def)
  with stopped_client_leaves [OF ref_engine.sqlite_chat_axioms demo_opened inv cl run_refl] fd left show ?thesis by auto
qed

end
