(* ===== verification/Netserver.thy ===== *)
theory Netserver
  imports Startup Stopping
begin

text \<open>
  The running program as one system: the process of \<open>Server\<close>, whose threads are inside
  \<^verbatim>\<open>connection_run\<close>, together with the sessions and requests of \<open>System\<close> those threads
  run. A connection is known to both by its socket, to the registries by the same number.
  A step is a step of the main thread, of the trampoline, of a connection thread outside
  its session, a turn of a session, a signal, or the clock; where the code of the two
  meets (a session is created, a session returns, the shutdown calls go through a
  registry) both move.
\<close>

section \<open>The model\<close>

datatype kind = Kd_telnet | Kd_http

fun client_kind :: "client \<Rightarrow> kind" where
  "client_kind (Telnet c) = Kd_telnet"
| "client_kind (Http c) = Kd_http"

fun kind_proto :: "'db sqlite \<Rightarrow> kind \<Rightarrow> 'db protocol_ops" where
  "kind_proto sq Kd_telnet = telnet_protocol sq"
| "kind_proto sq Kd_http = http_protocol sq"

fun kind_reg :: "kind \<Rightarrow> 'db process \<Rightarrow> reg_state" where
  "kind_reg Kd_telnet ps = pr_telnet (ps_shared ps)"
| "kind_reg Kd_http ps = pr_http (ps_shared ps)"

fun on_reg :: "kind \<Rightarrow> reg_op \<Rightarrow> 'db process \<Rightarrow> 'db process" where
  "on_reg Kd_telnet op ps = ps\<lparr>ps_shared := (ps_shared ps)\<lparr>pr_telnet :=
     apply_op Telnet_Session.session_register Telnet_Session.session_unregister telnet_shutdown_all op (pr_telnet (ps_shared ps))\<rparr>\<rparr>"
| "on_reg Kd_http op ps = ps\<lparr>ps_shared := (ps_shared ps)\<lparr>pr_http :=
     apply_op Http_Session.session_register Http_Session.session_unregister http_shutdown_all op (pr_http (ps_shared ps))\<rparr>\<rparr>"

definition job_at :: "'db process \<Rightarrow> nat \<Rightarrow> 'db job" where
  "job_at ps i = cw_arg (pl_threads (pool_of ps) ! i)"

definition job_key :: "'db job \<Rightarrow> nat" where
  "job_key j = nat (job_fd j)"

text \<open>The sessions whose stop flag the step of \<^verbatim>\<open>server_destroy\<close> raises.\<close>

definition stop_keys :: "'db process \<Rightarrow> nat list" where
  "stop_keys ps =
     (case ps_pc ps of
        Pc_stop i \<Rightarrow>
          if i < length (sv_listeners (ps_srv ps))
          then rg_head (kind_reg (if po_name (ls_proto (sv_listeners (ps_srv ps) ! i)) = ''telnet'' then Kd_telnet else Kd_http) ps)
          else []
      | _ \<Rightarrow> [])"

text \<open>\<^verbatim>\<open>create_session\<close> and the code of \<^verbatim>\<open>run_session\<close> before its first wait; \<open>down\<close>: whether the
  registration has raised the stop flag.\<close>

inductive client_created :: "'db sqlite \<Rightarrow> kind \<Rightarrow> bool \<Rightarrow> nat \<Rightarrow> 'db system \<Rightarrow> 'db system \<Rightarrow> bool" for sq where
  created_telnet: "telnet_create_session sq sk peer mem pipe2 = Some s \<Longrightarrow> pipe_fresh sy pipe2 \<Longrightarrow>
    client_created sq Kd_telnet down k sy (put_telnet k dl False
      (telnet_begin sq \<lparr>cx_s = s\<lparr>ts_shutdown_requested := down\<rparr>, cx_w = open_pipe pipe2 (sy_w sy),
         cx_online = sy_online sy, cx_tm = tm, cx_mem = mem', cx_overread = False\<rparr>) sy)"
| created_http: "http_create_session sk mem pipe2 = Some c \<Longrightarrow> pipe_fresh sy pipe2 \<Longrightarrow>
    client_created sq Kd_http down k sy (put_http k H_read (open_conn c)
      \<lparr>hx_c = c\<lparr>hc_shutdown_requested := down\<rparr>, hx_w = open_pipe pipe2 (sy_w sy)\<rparr> sy)"

type_synonym 'db net = "'db process \<times> 'db system"

text \<open>A descriptor \<^verbatim>\<open>accept\<close> returns is new and not negative.\<close>

definition accepts_ok :: "kernel \<Rightarrow> 'db process \<Rightarrow> bool" where
  "accepts_ok k ps \<longleftrightarrow> kernel_ok k ps \<and> (\<forall>fd peer. k_accept k = Acc_conn fd peer \<longrightarrow> 0 \<le> fd)"

text \<open>The label tells the steps of the program from what comes from outside and from the turns of
  a session that may go on.\<close>

inductive net_step :: "'db sqlite \<Rightarrow> (byte list \<Rightarrow> string) \<Rightarrow> bool \<Rightarrow> 'db net \<Rightarrow> 'db net \<Rightarrow> bool" for sq ntop6 where
  net_main: "accepts_ok k ps \<Longrightarrow> main_step ntop6 k ps = Some ps' \<Longrightarrow>
    net_step sq ntop6 True (ps, sy) (ps', fold stop_client (stop_keys ps) sy)"
| net_thread: "thread_step i ps = Some ps' \<Longrightarrow> net_step sq ntop6 True (ps, sy) (ps', sy)"
| net_refused: "jb_stage (job_at ps i) = Run_new \<Longrightarrow> job_step i False ps = Some ps' \<Longrightarrow>
    net_step sq ntop6 True (ps, sy) (ps', sy)"
| net_created: "jb_stage (job_at ps i) = Run_new \<Longrightarrow> co_proto (jb_conn (job_at ps i)) = kind_proto sq kd \<Longrightarrow>
    job_step i True ps = Some ps' \<Longrightarrow>
    client_created sq kd (rg_stop (kind_reg kd (on_reg kd (Op_register (job_key (job_at ps i))) ps)) (job_key (job_at ps i)))
      (job_key (job_at ps i)) sy sy' \<Longrightarrow>
    net_step sq ntop6 True (ps, sy) (on_reg kd (Op_register (job_key (job_at ps i))) ps', sy')"
| net_turn: "sy_clients sy k = Some c \<Longrightarrow> sys_step sq (Some k) sy sy' \<Longrightarrow> sy' \<noteq> stop_client k sy \<Longrightarrow>
    sy_clients sy' k \<noteq> None \<Longrightarrow> net_step sq ntop6 (leaving c) (ps, sy) (ps, sy')"
| net_finished: "jb_stage (job_at ps i) = Run_session \<Longrightarrow> job_step i True ps = Some ps' \<Longrightarrow>
    sy_clients sy (job_key (job_at ps i)) = Some c \<Longrightarrow> sys_step sq (Some (job_key (job_at ps i))) sy sy' \<Longrightarrow>
    sy_clients sy' (job_key (job_at ps i)) = None \<Longrightarrow>
    net_step sq ntop6 True (ps, sy) (on_reg (client_kind c) (Op_unregister (job_key (job_at ps i))) ps', sy')"
| net_returned: "jb_stage (job_at ps i) = Run_closed \<Longrightarrow> job_step i True ps = Some ps' \<Longrightarrow>
    net_step sq ntop6 True (ps, sy) (ps', sy)"
| net_signal: "ps_signals ps sig = Sig_handled \<Longrightarrow> net_step sq ntop6 False (ps, sy) (sig_handler sig ps, sy)"
| net_clock: "sys_step sq None sy sy' \<Longrightarrow> net_step sq ntop6 False (ps, sy) (ps, sy')"

section \<open>Jobs in a session\<close>

definition in_session :: "'db process \<Rightarrow> 'db job multiset" where
  "in_session ps = filter_mset (\<lambda>j. jb_stage j = Run_session) (jobs (pool_of ps))"

definition jobs_ok :: "'db listener list \<Rightarrow> 'db process \<Rightarrow> bool" where
  "jobs_ok ls ps \<longleftrightarrow> (\<forall>j \<in># jobs (pool_of ps). co_proto (jb_conn j) \<in> ls_proto ` set ls \<and> 0 \<le> job_fd j)"

lemma on_reg_frame [simp]:
  "ps_srv (on_reg kd op ps) = ps_srv ps" "ps_pc (on_reg kd op ps) = ps_pc ps" "ps_open (on_reg kd op ps) = ps_open ps"
  "ps_shutdown (on_reg kd op ps) = ps_shutdown ps"
  by (cases kd; simp)+

lemma in_session_cong: "jobs (pool_of ps') = jobs (pool_of ps) \<Longrightarrow> in_session ps' = in_session ps \<and> jobs_ok ls ps' = jobs_ok ls ps"
  by (simp add: in_session_def jobs_ok_def)

lemma main_step_jobs:
  assumes "wait_inv ps" "accepts_ok k ps" "main_step ntop6 k ps = Some ps'"
  shows "in_session ps' = in_session ps" "jobs_ok (sv_listeners (ps_srv ps)) ps \<Longrightarrow> jobs_ok (sv_listeners (ps_srv ps)) ps'"
proof -
  let ?ls = "sv_listeners (ps_srv ps)"
  from assms(3) have "in_session ps' = in_session ps \<and> (jobs_ok ?ls ps \<longrightarrow> jobs_ok ?ls ps')"
  proof (cases rule: main_stepE)
    case (accepted i fds)
    let ?a = "accept_one ntop6 k (?ls ! i) ps"
    have p: "pool_of ps' = pool_of ?a" using accepted by simp
    show ?thesis
    proof (cases rule: accept_one_pool [of ntop6 k "?ls ! i" ps])
      case 1
      with p show ?thesis by (simp add: in_session_def jobs_ok_def)
    next
      case (2 job)
      from conn.spawn_ok 2(1) have J: "jobs (pool_of ?a) = add_mset job (jobs (pool_of ps))" by metis
      have "0 \<le> job_fd job" using 2(4) assms(2) by (auto simp: accepts_ok_def)
      moreover have "?ls ! i \<in> set ?ls" using accepted(2) by simp
      ultimately show ?thesis using J p 2(2,3) by (auto simp: in_session_def jobs_ok_def)
    qed
  next
    case (wait i j pool)
    from assms(1) obtain n where "pool_ok n (pool_of ps)" by (auto simp: wait_inv_def)
    from destroy_round_ok(5) [OF this wait(3)] have "jobs pool = jobs (pool_of ps)" by (rule jobs_threads)
    with wait show ?thesis by (simp add: in_session_def jobs_ok_def)
  qed (simp_all add: in_session_def jobs_ok_def)
  then show "in_session ps' = in_session ps" "jobs_ok ?ls ps \<Longrightarrow> jobs_ok ?ls ps'" by blast+
qed

lemma thread_step_jobs:
  assumes "own_inv ps" "thread_step i ps = Some ps'"
  shows "in_session ps' = in_session ps" "jobs_ok ls ps \<Longrightarrow> jobs_ok ls ps'"
proof -
  let ?p = "pool_of ps" let ?w = "pl_threads ?p ! i"
  from assms(2) obtain p where p: "thread_entry i ?p = Some p" "ps' = on_pool (\<lambda>_. p) ps"
    by (auto simp: thread_step_def Let_def split: if_splits)
  have i: "i < length (pl_threads ?p)" using p(1) by (simp add: thread_entry_def split: if_splits)
  obtain J where J: "jobs ?p = add_mset (cw_arg ?w) J"
    "\<And>c y. jobs \<lparr>pl_c = c, pl_threads = (pl_threads ?p)[i := y]\<rparr> = add_mset (cw_arg y) J"
    "\<And>c. jobs \<lparr>pl_c = c, pl_threads = remove_nth i (pl_threads ?p)\<rparr> = J" using jobs_at [OF i] by metis
  have "stage_ok ?w" using assms(1) i by (simp add: own_inv_def list_all_length)
  have "jobs p = jobs ?p \<or> (jobs p = J \<and> jb_stage (cw_arg ?w) = Run_done)"
  proof (cases "cw_phase ?w")
    case Ph_leave
    then have "pl_threads p = remove_nth i (pl_threads ?p)" using p(1) i by (auto simp: thread_entry_def Let_def)
    with J(3) Ph_leave \<open>stage_ok ?w\<close> show ?thesis by (simp add: jobs_def)
  next
    case Ph_start
    then have "pl_threads p = (pl_threads ?p)[i := ?w\<lparr>cw_phase := Ph_work\<rparr>]" using p(1) i by (auto simp: thread_entry_def Let_def)
    with J(1,2) show ?thesis by (simp add: jobs_def)
  next
    case Ph_work
    then have "pl_threads p = (pl_threads ?p)[i := ?w\<lparr>cw_phase := Ph_leave\<rparr>]" using p(1) i by (auto simp: thread_entry_def Let_def)
    with J(1,2) show ?thesis by (simp add: jobs_def)
  qed
  with p(2) J(1) show "in_session ps' = in_session ps" "jobs_ok ls ps \<Longrightarrow> jobs_ok ls ps'"
    by (auto simp: in_session_def jobs_ok_def)
qed

lemma job_fd_stage [simp]: "job_fd (j\<lparr>jb_stage := st\<rparr>) = job_fd j"
  by (simp add: job_fd_def)

lemma job_step_jobs:
  assumes "job_step i created ps = Some ps'"
  obtains J st where "jobs (pool_of ps) = add_mset (job_at ps i) J" "jobs (pool_of ps') = add_mset ((job_at ps i)\<lparr>jb_stage := st\<rparr>) J"
    "st = (case jb_stage (job_at ps i) of Run_new \<Rightarrow> if created then Run_session else Run_closed | Run_session \<Rightarrow> Run_closed | _ \<Rightarrow> Run_done)"
proof -
  have i: "i < length (pl_threads (pool_of ps))" using assms by (auto elim: job_stepE)
  obtain J where J: "jobs (pool_of ps) = add_mset (job_at ps i) J"
    "\<And>st. jobs (set_stage i st (pool_of ps)) = add_mset ((job_at ps i)\<lparr>jb_stage := st\<rparr>) J"
    using jobs_set_stage [OF i] unfolding job_at_def by metis
  let ?st = "case jb_stage (job_at ps i) of Run_new \<Rightarrow> if created then Run_session else Run_closed | Run_session \<Rightarrow> Run_closed | _ \<Rightarrow> Run_done"
  have "pool_of ps' = set_stage i ?st (pool_of ps)"
    using assms by (auto simp: job_step_def job_at_def Let_def split: if_splits run_stage.splits)
  with J show ?thesis by (intro that [of J ?st]) simp_all
qed

text \<open>An open connection has its socket for itself.\<close>

lemma open_job_unique:
  assumes "own_inv ps" "jobs (pool_of ps) = add_mset j J" "open_job j" "j' \<in># J" "open_job j'"
  shows "job_fd j' \<noteq> job_fd j"
proof
  assume eq: "job_fd j' = job_fd j"
  from assms(4) obtain J' where "J = add_mset j' J'" by (blast dest: multi_member_split)
  then have "count (mset_set (ps_open ps)) (job_fd j) \<ge> 2"
    using assms eq by (simp add: own_inv_def held_def job_fds_def)
  then show False using assms(1) by (simp add: own_inv_def count_mset_set' split: if_splits)
qed

section \<open>The invariant\<close>

definition of_kind :: "kind \<Rightarrow> 'db system \<Rightarrow> nat set" where
  "of_kind kd sy = {k. \<exists>c. sy_clients sy k = Some c \<and> client_kind c = kd}"

text \<open>The clients are the connections whose thread is in its session, the registry of a protocol
  lists its clients, and once the registry is shutting down every one of them leaves.\<close>

definition reg_link :: "'db sqlite \<Rightarrow> 'db listener list \<Rightarrow> 'db process \<Rightarrow> 'db system \<Rightarrow> kind \<Rightarrow> bool" where
  "reg_link sq ls ps sy kd \<longleftrightarrow> mset (rg_head (kind_reg kd ps)) = mset_set (of_kind kd sy)
     \<and> (rg_down (kind_reg kd ps) \<longrightarrow> (\<forall>k \<in> of_kind kd sy. leaves k sy))
     \<and> (of_kind kd sy \<noteq> {} \<longrightarrow> kind_proto sq kd \<in> ls_proto ` set ls)"

definition net_inv :: "'db sqlite \<Rightarrow> 'db listener list \<Rightarrow> 32 word \<Rightarrow> 'db net \<Rightarrow> bool" where
  "net_inv sq ls m = (\<lambda>(ps, sy). proc_inv sq ls m ps \<and> jobs_ok ls ps \<and> finite (dom (sy_clients sy))
     \<and> mset_set (dom (sy_clients sy)) = image_mset job_key (in_session ps)
     \<and> (\<forall>kd. reg_link sq ls ps sy kd))"

lemma net_invD:
  assumes "net_inv sq ls m (ps, sy)"
  shows "proc_inv sq ls m ps" "jobs_ok ls ps" "finite (dom (sy_clients sy))"
    "mset_set (dom (sy_clients sy)) = image_mset job_key (in_session ps)" "reg_link sq ls ps sy kd"
    "own_inv ps" "wait_inv ps" "sv_listeners (ps_srv ps) = ls"
  using assms by (simp_all add: net_inv_def proc_inv_def)

lemma net_invI:
  assumes "proc_inv sq ls m ps" "jobs_ok ls ps" "finite (dom (sy_clients sy))"
    "mset_set (dom (sy_clients sy)) = image_mset job_key (in_session ps)" "\<And>kd. reg_link sq ls ps sy kd"
  shows "net_inv sq ls m (ps, sy)"
  using assms by (auto simp: net_inv_def)

lemma of_kind_finite: "finite (dom (sy_clients sy)) \<Longrightarrow> finite (of_kind kd sy)"
  by (rule finite_subset [of _ "dom (sy_clients sy)"]) (auto simp: of_kind_def)

text \<open>The key of a connection that has no session yet is no client's.\<close>

lemma new_key_free:
  assumes "net_inv sq ls m (ps, sy)" "job_step i created ps = Some ps'" "jb_stage (job_at ps i) = Run_new"
  shows "sy_clients sy (job_key (job_at ps i)) = None"
proof (rule ccontr)
  note inv = net_invD [OF assms(1)]
  from job_step_jobs [OF assms(2)] obtain J where J: "jobs (pool_of ps) = add_mset (job_at ps i) J" by metis
  assume "sy_clients sy (job_key (job_at ps i)) \<noteq> None"
  then have "job_key (job_at ps i) \<in># mset_set (dom (sy_clients sy))" using inv(3) by auto
  then obtain j where j: "j \<in># J" "jb_stage j = Run_session" "job_key j = job_key (job_at ps i)"
    unfolding inv(4) using assms(3) J by (auto simp: in_session_def split: if_splits)
  then have "job_fd j = job_fd (job_at ps i)" using inv(2) J by (auto simp: jobs_ok_def job_key_def eq_nat_nat_iff)
  with open_job_unique [OF inv(6) J _ j(1)] j(2) assms(3) show False by (simp add: open_job_def)
qed

section \<open>Stop requests\<close>

lemma client_kind_flag [simp]: "client_kind (flag_client c) = client_kind c"
  by (cases c) simp_all

lemma stop_clients:
  "sy_clients (fold stop_client ks sy) j = (if j \<in> set ks then map_option flag_client (sy_clients sy j) else sy_clients sy j)"
proof (induction ks arbitrary: sy)
  case (Cons k ks)
  have "sy_clients (stop_client k sy) = (sy_clients sy)(k := map_option flag_client (sy_clients sy k))"
    by (auto simp: stop_client_def split: option.split)
  moreover have "flag_client (flag_client c) = flag_client c" for c by (cases c) simp_all
  ultimately show ?case using Cons [of "stop_client k sy"] by (simp add: option.map_comp comp_def)
qed simp

lemma stop_clients_frame:
  "dom (sy_clients (fold stop_client ks sy)) = dom (sy_clients sy)" "of_kind kd (fold stop_client ks sy) = of_kind kd sy"
  "left_of j (fold stop_client ks sy) = left_of j sy"
  by (auto simp: stop_clients of_kind_def left_of_def dom_def split: option.split)

lemma stop_clients_leave:
  "leaves j sy \<Longrightarrow> leaves j (fold stop_client ks sy)" "j \<in> set ks \<Longrightarrow> leaves j (fold stop_client ks sy)"
  by (auto simp: leaves_def stop_clients)

lemma stop_sessions_reg:
  assumes "ls_proto l \<in> {telnet_protocol sq, http_protocol sq}"
    and "kd0 = (if po_name (ls_proto l) = ''telnet'' then Kd_telnet else Kd_http)"
  shows "rg_head (kind_reg kd (stop_sessions l ps)) = rg_head (kind_reg kd ps)"
    "rg_down (kind_reg kd (stop_sessions l ps)) \<longleftrightarrow> kd = kd0 \<or> rg_down (kind_reg kd ps)"
proof -
  have "kd0 = Kd_telnet \<longleftrightarrow> ls_proto l = telnet_protocol sq"
    using assms by (auto simp: telnet_protocol_def http_protocol_def)
  with stop_sessions_shared [OF assms(1), of ps] telnet_reg.shutdown_members http_reg.shutdown_members
  show "rg_head (kind_reg kd (stop_sessions l ps)) = rg_head (kind_reg kd ps)"
    "rg_down (kind_reg kd (stop_sessions l ps)) \<longleftrightarrow> kd = kd0 \<or> rg_down (kind_reg kd ps)"
    by (cases kd; cases kd0; simp)+
qed

lemma reg_link_cong:
  assumes "reg_link sq ls ps sy kd" "kind_reg kd ps' = kind_reg kd ps" "of_kind kd sy' = of_kind kd sy"
    "\<And>k. k \<in> of_kind kd sy \<Longrightarrow> leaves k sy \<Longrightarrow> leaves k sy'"
  shows "reg_link sq ls ps' sy' kd"
  using assms by (auto simp: reg_link_def)

lemma kind_reg_shared: "ps_shared ps' = ps_shared ps \<Longrightarrow> kind_reg kd ps' = kind_reg kd ps"
  by (cases kd) simp_all

lemma main_step_link:
  assumes "net_inv sq ls m (ps, sy)" "main_step ntop6 k ps = Some ps'"
  shows "reg_link sq ls ps' (fold stop_client (stop_keys ps) sy) kd"
proof -
  note inv = net_invD [OF assms(1)]
  have same: "reg_link sq ls ps' (fold stop_client (stop_keys ps) sy) kd" if "kind_reg kd ps' = kind_reg kd ps"
    by (rule reg_link_cong [OF inv(5) that]) (simp_all add: stop_clients_frame stop_clients_leave)
  from assms(2) show ?thesis
  proof (cases rule: main_stepE)
    case (stop i)
    define l where "l = sv_listeners (ps_srv ps) ! i"
    define kd0 where "kd0 = (if po_name (ls_proto l) = ''telnet'' then Kd_telnet else Kd_http)"
    have "ls_proto l \<in> {telnet_protocol sq, http_protocol sq}"
      using inv(1) stop(2) unfolding l_def by (simp add: proc_inv_def stop_inv_def)
    note reg = stop_sessions_reg [OF this kd0_def]
    have keys: "stop_keys ps = rg_head (kind_reg kd0 ps)" using stop unfolding kd0_def l_def by (simp add: stop_keys_def)
    have "kind_reg kd ps' = kind_reg kd (stop_sessions l ps)" by (rule kind_reg_shared) (simp add: stop l_def)
    moreover have "set (stop_keys ps) = of_kind kd0 sy"
      using inv(5) [of kd0] of_kind_finite [OF inv(3), of kd0] unfolding keys reg_link_def by (metis finite_set_mset_mset_set set_mset_mset)
    ultimately show ?thesis
      using inv(5) [of kd] reg by (auto simp: reg_link_def stop_clients_frame intro: stop_clients_leave)
  qed (rule same, rule kind_reg_shared, simp)+
qed

section \<open>Turns, arrivals and departures\<close>

lemma turn_facts:
  assumes "sys_step sq (Some k) sy sy'" "sy_clients sy k = Some c" "sy' \<noteq> stop_client k sy"
  shows "left_of k sy' \<le> left_of k sy" "sy_clients sy' k = Some c' \<Longrightarrow> client_kind c' = client_kind c"
proof -
  from assms(1) have "left_of k sy' \<le> left_of k sy \<and> (\<forall>c'. sy_clients sy' k = Some c' \<longrightarrow> client_kind c' = client_kind c)"
  proof cases
    case (sys_telnet_stop t)
    then show ?thesis using assms(3) by (simp add: stop_client_def)
  next
    case (sys_http_stop h)
    then show ?thesis using assms(3) by (simp add: stop_client_def)
  qed (use assms(2) in \<open>auto simp: left_of_def put_telnet_def put_http_def drop_client_def split: loop_result.splits sse_step.splits\<close>)
  then show "left_of k sy' \<le> left_of k sy" "sy_clients sy' k = Some c' \<Longrightarrow> client_kind c' = client_kind c" by blast+
qed

lemma one_moves:
  assumes "sys_step sq (Some k) sy sy'"
  shows "sy_clients sy' = (sy_clients sy)(k := sy_clients sy' k)" "j \<noteq> k \<Longrightarrow> leaves j sy' = leaves j sy"
proof -
  have s: "sy_clients sy' j = sy_clients sy j" if "j \<noteq> k" for j using sys_step_keeps [OF assms] that by simp
  then show "sy_clients sy' = (sy_clients sy)(k := sy_clients sy' k)" by (auto simp: fun_eq_iff)
  show "j \<noteq> k \<Longrightarrow> leaves j sy' = leaves j sy" using s by (simp add: leaves_def)
qed

lemma turn_link:
  assumes "reg_link sq ls ps sy kd" "sys_step sq (Some k) sy sy'" "sy_clients sy k = Some c" "sy' \<noteq> stop_client k sy"
    "sy_clients sy' k = Some c'"
  shows "reg_link sq ls ps sy' kd"
proof (rule reg_link_cong [OF assms(1) refl])
  note m = one_moves [OF assms(2)]
  have kd: "client_kind c' = client_kind c" by (rule turn_facts(2) [OF assms(2-5)])
  have "sy_clients sy' = (sy_clients sy)(k \<mapsto> c')" using m(1) unfolding assms(5) .
  then show "of_kind kd sy' = of_kind kd sy" using assms(3) kd by (auto simp: of_kind_def)
  show "leaves j sy'" if "leaves j sy" for j
  proof (cases "j = k")
    case True
    with that assms(3) have "leaving c" by (simp add: leaves_def)
    from leaving_step [OF assms(2,3) this] True show ?thesis by blast
  qed (use m(2) that in simp)
qed

lemma begin_keeps_flag:
  assumes "telnet_create_session sq sk peer mem pipe2 = Some s"
  shows "ts_shutdown_requested (cx_s (telnet_begin sq \<lparr>cx_s = s\<lparr>ts_shutdown_requested := down\<rparr>, cx_w = w,
     cx_online = n, cx_tm = tm, cx_mem = mem', cx_overread = False\<rparr>)) = down"
proof -
  let ?cx = "\<lparr>cx_s = s\<lparr>ts_shutdown_requested := down\<rparr>, cx_w = w, cx_online = n + 1, cx_tm = tm, cx_mem = mem', cx_overread = False\<rparr>"
  obtain cx' res where a: "act_send_negotiations ?cx TEV_CONNECTED NoData = (cx', res)" by fastforce
  have "find (matches TSTATE_INIT TEV_CONNECTED) (telnet_fsm_table sq) =
      Some (row TSTATE_INIT TEV_CONNECTED act_send_negotiations TSTATE_NEGOTIATING TSTATE_CLOSING)"
    by (simp add: telnet_fsm_table_def matches_def)
  from tdispatch_row [OF _ this, of ?cx NoData] a act_send_negotiations_facts(1) [OF a] fresh_fields(1) [OF assms]
  have "tdispatch sq TEV_CONNECTED NoData ?cx = with_fsm TSTATE_NEGOTIATING cx'" by (simp add: run_action_def)
  moreover have "ts_shutdown_requested (cx_s cx') = down" using act_send_negotiations_facts [OF a] by simp
  ultimately show ?thesis by (simp add: telnet_begin_def)
qed

lemma created_facts:
  assumes "client_created sq kd down k sy sy'"
  shows "sy_clients sy' = (sy_clients sy)(k := sy_clients sy' k)
      \<and> (\<exists>c. sy_clients sy' k = Some c \<and> client_kind c = kd \<and> (down \<longrightarrow> leaving c) \<and> turns_left c \<le> 4)"
    "sy_clients sy k = None \<Longrightarrow> sys_step sq (Some k) sy sy'"
  using assms
proof (induction rule: client_created.induct)
  case (created_telnet sk peer mem pipe2 s sy down k dl tm mem')
  {
    case 1
    show ?case using begin_keeps_flag [OF created_telnet(1)] by (simp add: put_telnet_def telnet_over_def)
  next
    case 2
    show ?case by (rule sys_telnet_accept [OF created_telnet 2 refl])
  }
next
  case (created_http sk mem pipe2 c sy down k)
  {
    case 1
    show ?case by (simp add: put_http_def)
  next
    case 2
    show ?case by (rule sys_http_accept [OF created_http 2])
  }
qed

lemma register_reg:
  "rg_down (kind_reg kd' (on_reg kd (Op_register k) ps)) = rg_down (kind_reg kd' ps)"
  "mset (rg_head (kind_reg kd' (on_reg kd (Op_register k) ps))) =
     (if kd' = kd then add_mset k (mset (rg_head (kind_reg kd ps))) else mset (rg_head (kind_reg kd' ps)))"
  "rg_down (kind_reg kd' (on_reg kd (Op_unregister k) ps)) = rg_down (kind_reg kd' ps)"
  "mset (rg_head (kind_reg kd' (on_reg kd (Op_unregister k) ps))) =
     (if kd' = kd then mset (rg_head (kind_reg kd ps)) - {#k#} else mset (rg_head (kind_reg kd' ps)))"
  by (cases kd; cases kd'; simp add: Telnet_Session.session_register_def Http_Session.session_register_def
      telnet_reg.unregister_head http_reg.unregister_head telnet_reg.unregister_rest http_reg.unregister_rest Let_def)+

lemma register_flag: "rg_down (kind_reg kd ps) \<Longrightarrow> rg_stop (kind_reg kd (on_reg kd (Op_register k) ps)) k"
  by (cases kd) (simp_all add: telnet_reg.register_stop http_reg.register_stop)

lemma register_link:
  assumes "reg_link sq ls ps sy kd'" "sy_clients sy k = None" "finite (dom (sy_clients sy))"
    "client_created sq kd (rg_stop (kind_reg kd (on_reg kd (Op_register k) ps)) k) k sy sy'" "kind_proto sq kd \<in> ls_proto ` set ls" "ps_shared ps' = ps_shared ps"
  shows "reg_link sq ls (on_reg kd (Op_register k) ps') sy' kd'"
proof -
  obtain c where c0: "sy_clients sy' = (sy_clients sy)(k := sy_clients sy' k)" "sy_clients sy' k = Some c" "client_kind c = kd"
    "rg_stop (kind_reg kd (on_reg kd (Op_register k) ps)) k \<longrightarrow> leaving c"
    using created_facts(1) [OF assms(4)] by blast
  have c: "sy_clients sy' = (sy_clients sy)(k \<mapsto> c)" "client_kind c = kd" "rg_down (kind_reg kd ps) \<longrightarrow> leaving c"
    using c0(1) [unfolded c0(2)] c0(3,4) register_flag by blast+
  have k: "of_kind kd' sy' = (if kd' = kd then insert k (of_kind kd sy) else of_kind kd' sy)" "k \<notin> of_kind kd sy" "k \<notin> of_kind kd' sy"
    using c(1,2) assms(2) by (auto simp: of_kind_def)
  have l: "leaves j sy' = (if j = k then leaving c else leaves j sy)" for j using c(1) by (simp add: leaves_def)
  note r = kind_reg_shared [OF assms(6)]
  show ?thesis using assms(1,5) k l c(3) of_kind_finite [OF assms(3), of kd]
    by (auto simp: reg_link_def register_reg r)
qed

lemma unregister_link:
  assumes "reg_link sq ls ps sy kd'" "sy_clients sy k = Some c" "finite (dom (sy_clients sy))"
    "sys_step sq (Some k) sy sy'" "sy_clients sy' k = None" "ps_shared ps' = ps_shared ps"
  shows "reg_link sq ls (on_reg (client_kind c) (Op_unregister k) ps') sy' kd'"
proof -
  note m = one_moves [OF assms(4)] and r = kind_reg_shared [OF assms(6)]
  have "sy_clients sy' = (sy_clients sy)(k := None)" using m(1) unfolding assms(5) .
  then have k: "of_kind kd' sy' = (if kd' = client_kind c then of_kind kd' sy - {k} else of_kind kd' sy)"
    using assms(2) by (auto simp: of_kind_def)
  have "k \<in> of_kind (client_kind c) sy" using assms(2) by (simp add: of_kind_def)
  moreover have "leaves j sy'" if "leaves j sy" for j using that m(2) [of j] assms(5) by (cases "j = k") (auto simp: leaves_def)
  ultimately show ?thesis using assms(1) of_kind_finite [OF assms(3)] k
    by (auto simp: reg_link_def register_reg r mset_set_Diff)
qed

lemma on_reg_idle: "op \<noteq> Op_shutdown \<Longrightarrow> idle_step ps (on_reg kd op ps)"
  using idle_telnet idle_http by (cases kd) simp_all

lemma on_reg_proc:
  "op \<noteq> Op_shutdown \<Longrightarrow> proc_inv sq ls m ps \<Longrightarrow> proc_inv sq ls m (on_reg kd op ps)"
  using idle_step_inv on_reg_idle by blast

lemma on_reg_jobs [simp]: "in_session (on_reg kd op ps) = in_session ps" "jobs_ok ls (on_reg kd op ps) = jobs_ok ls ps"
  by (simp_all add: in_session_def jobs_ok_def)

text \<open>What a step of a connection thread does to the jobs in a session.\<close>

lemma job_step_session:
  assumes "job_step i created ps = Some ps'"
  shows "jobs_ok ls ps \<Longrightarrow> jobs_ok ls ps'"
    "jb_stage (job_at ps i) = Run_new \<Longrightarrow> image_mset job_key (in_session ps') =
       (if created then add_mset (job_key (job_at ps i)) (image_mset job_key (in_session ps)) else image_mset job_key (in_session ps))"
    "jb_stage (job_at ps i) = Run_session \<Longrightarrow>
       image_mset job_key (in_session ps) = add_mset (job_key (job_at ps i)) (image_mset job_key (in_session ps'))"
    "jb_stage (job_at ps i) = Run_closed \<Longrightarrow> in_session ps' = in_session ps"
proof -
  from job_step_jobs [OF assms] obtain J st where J: "jobs (pool_of ps) = add_mset (job_at ps i) J"
    "jobs (pool_of ps') = add_mset ((job_at ps i)\<lparr>jb_stage := st\<rparr>) J"
    "st = (case jb_stage (job_at ps i) of Run_new \<Rightarrow> if created then Run_session else Run_closed | Run_session \<Rightarrow> Run_closed | _ \<Rightarrow> Run_done)"
    by metis
  show "jobs_ok ls ps \<Longrightarrow> jobs_ok ls ps'"
    "jb_stage (job_at ps i) = Run_new \<Longrightarrow> image_mset job_key (in_session ps') =
       (if created then add_mset (job_key (job_at ps i)) (image_mset job_key (in_session ps)) else image_mset job_key (in_session ps))"
    "jb_stage (job_at ps i) = Run_session \<Longrightarrow>
       image_mset job_key (in_session ps) = add_mset (job_key (job_at ps i)) (image_mset job_key (in_session ps'))"
    "jb_stage (job_at ps i) = Run_closed \<Longrightarrow> in_session ps' = in_session ps"
    using J by (auto simp: jobs_ok_def in_session_def job_key_def)
qed

lemma net_inv_frame:
  assumes "net_inv sq ls m (ps, sy)" "proc_inv sq ls m ps'" "jobs_ok ls ps'" "ps_shared ps' = ps_shared ps"
    "image_mset job_key (in_session ps') = image_mset job_key (in_session ps)"
  shows "net_inv sq ls m (ps', sy)"
proof (rule net_invI)
  note inv = net_invD [OF assms(1)]
  show "reg_link sq ls ps' sy kd" for kd using inv(5) kind_reg_shared [OF assms(4)] by (rule reg_link_cong) simp_all
qed (use net_invD [OF assms(1)] assms(2,3,5) in simp_all)

lemma created_inv:
  assumes "net_inv sq ls m (ps, sy)" "jb_stage (job_at ps i) = Run_new" "co_proto (jb_conn (job_at ps i)) = kind_proto sq kd"
    "job_step i True ps = Some ps'" "client_created sq kd (rg_stop (kind_reg kd (on_reg kd (Op_register (job_key (job_at ps i))) ps)) (job_key (job_at ps i)))
      (job_key (job_at ps i)) sy sy'"
  shows "net_inv sq ls m (on_reg kd (Op_register (job_key (job_at ps i))) ps', sy')"
proof (rule net_invI)
  note inv = net_invD [OF assms(1)] and js = job_step_session [OF assms(4)]
  let ?k = "job_key (job_at ps i)"
  have free: "sy_clients sy ?k = None" by (rule new_key_free [OF assms(1,4,2)])
  have "work_step undefined ps ps'" using assms(4) by (rule work_job)
  then show "proc_inv sq ls m (on_reg kd (Op_register ?k) ps')" using work_step_inv [OF inv(1)] on_reg_proc by blast
  show "jobs_ok ls (on_reg kd (Op_register ?k) ps')" using js(1) inv(2) by simp
  have "dom (sy_clients sy') = insert ?k (dom (sy_clients sy))"
  proof -
    obtain c where "sy_clients sy' = (sy_clients sy)(?k \<mapsto> c)" using created_facts(1) [OF assms(5)] by auto
    then show ?thesis by simp
  qed
  then show "finite (dom (sy_clients sy'))" "mset_set (dom (sy_clients sy')) = image_mset job_key (in_session (on_reg kd (Op_register ?k) ps'))"
    using inv(3,4) free js(2) assms(2) by (simp_all add: domIff)
  have "job_at ps i \<in># jobs (pool_of ps)" using job_step_jobs [OF assms(4)] by (metis union_single_eq_member)
  then have "kind_proto sq kd \<in> ls_proto ` set ls" using inv(2) assms(3) unfolding jobs_ok_def by metis
  then show "reg_link sq ls (on_reg kd (Op_register ?k) ps') sy' kd'" for kd'
    using register_link [OF inv(5) free inv(3) assms(5)] job_step_frame(4) [OF assms(4)] by blast
qed

lemma finished_inv:
  assumes "net_inv sq ls m (ps, sy)" "jb_stage (job_at ps i) = Run_session" "job_step i True ps = Some ps'"
    "sy_clients sy (job_key (job_at ps i)) = Some c" "sys_step sq (Some (job_key (job_at ps i))) sy sy'"
    "sy_clients sy' (job_key (job_at ps i)) = None"
  shows "net_inv sq ls m (on_reg (client_kind c) (Op_unregister (job_key (job_at ps i))) ps', sy')"
proof (rule net_invI)
  note inv = net_invD [OF assms(1)] and js = job_step_session [OF assms(3)]
  let ?k = "job_key (job_at ps i)"
  have "work_step undefined ps ps'" using assms(3) by (rule work_job)
  then show "proc_inv sq ls m (on_reg (client_kind c) (Op_unregister ?k) ps')" using work_step_inv [OF inv(1)] on_reg_proc by blast
  show "jobs_ok ls (on_reg (client_kind c) (Op_unregister ?k) ps')" using js(1) inv(2) by simp
  have "sy_clients sy' = (sy_clients sy)(?k := None)" using one_moves(1) [OF assms(5)] unfolding assms(6) .
  then have d: "dom (sy_clients sy') = dom (sy_clients sy) - {?k}" by auto
  then show "finite (dom (sy_clients sy'))" using inv(3) by simp
  show "mset_set (dom (sy_clients sy')) = image_mset job_key (in_session (on_reg (client_kind c) (Op_unregister ?k) ps'))"
    unfolding d on_reg_jobs by (rule mset_set_remove [OF inv(3)]) (use inv(4) js(3) assms(2) in simp)
  show "reg_link sq ls (on_reg (client_kind c) (Op_unregister ?k) ps') sy' kd'" for kd'
    using unregister_link [OF inv(5) assms(4) inv(3) assms(5,6)] job_step_frame(4) [OF assms(3)] by blast
qed

lemma net_step_inv:
  assumes "net_step sq ntop6 b x y" "net_inv sq ls m x"
  shows "net_inv sq ls m y"
  using assms
proof (induction rule: net_step.induct)
  case (net_main k ps ps' sy)
  note inv = net_invD [OF net_main.prems]
  have w: "work_step ntop6 ps ps'" using net_main.hyps by (intro work_main) (simp_all add: accepts_ok_def)
  show ?case
  proof (rule net_invI)
    show "proc_inv sq ls m ps'" using inv(1) w by (rule work_step_inv)
    show "jobs_ok ls ps'" using main_step_jobs(2) [OF inv(7) net_main.hyps] inv(2,8) by simp
    show "mset_set (dom (sy_clients (fold stop_client (stop_keys ps) sy))) = image_mset job_key (in_session ps')"
      using main_step_jobs(1) [OF inv(7) net_main.hyps] inv(4) by (simp add: stop_clients_frame)
  qed (use inv(3) main_step_link [OF net_main.prems net_main.hyps(2)] in \<open>simp_all add: stop_clients_frame\<close>)
next
  case (net_thread i ps ps' sy)
  note inv = net_invD [OF net_thread.prems] and t = thread_step_jobs [OF _ net_thread.hyps]
  have "work_step ntop6 ps ps'" using net_thread.hyps by (rule work_thread)
  from work_step_inv [OF inv(1) this] show ?case
    by (rule net_inv_frame [OF net_thread.prems]) (use inv(2,6) t thread_step_frame(4) [OF net_thread.hyps] in simp_all)
next
  case (net_refused ps i ps' sy)
  note inv = net_invD [OF net_refused.prems] and t = job_step_session [OF net_refused.hyps(2)]
  have "work_step ntop6 ps ps'" using net_refused.hyps(2) by (rule work_job)
  from work_step_inv [OF inv(1) this] show ?case
    by (rule net_inv_frame [OF net_refused.prems]) (use inv(2) t(1,2) net_refused.hyps(1) job_step_frame(4) [OF net_refused.hyps(2)] in simp_all)
next
  case (net_created ps i kd ps' sy sy')
  then show ?case by (intro created_inv)
next
  case (net_turn sy k c sy' ps)
  note inv = net_invD [OF net_turn.prems]
  from net_turn.hyps(4) obtain c' where c': "sy_clients sy' k = Some c'" by blast
  have "sy_clients sy' = (sy_clients sy)(k \<mapsto> c')" using one_moves(1) [OF net_turn.hyps(2)] unfolding c' .
  then have "dom (sy_clients sy') = dom (sy_clients sy)" using net_turn.hyps(1) by auto
  then show ?case using inv turn_link [OF inv(5) net_turn.hyps(2,1,3) c'] by (intro net_invI) simp_all
next
  case (net_finished ps i ps' sy c sy')
  then show ?case by (intro finished_inv)
next
  case (net_returned ps i ps' sy)
  note inv = net_invD [OF net_returned.prems] and t = job_step_session [OF net_returned.hyps(2)]
  have "work_step ntop6 ps ps'" using net_returned.hyps(2) by (rule work_job)
  from work_step_inv [OF inv(1) this] show ?case
    by (rule net_inv_frame [OF net_returned.prems]) (use inv(2) t(1,4) net_returned.hyps(1) job_step_frame(4) [OF net_returned.hyps(2)] in simp_all)
next
  case (net_signal ps sig sy)
  note inv = net_invD [OF net_signal.prems]
  have "idle_step ps (sig_handler sig ps)" using net_signal.hyps by (rule idle_signal)
  from idle_step_inv [OF inv(1) this] show ?case
    by (rule net_inv_frame [OF net_signal.prems]) (use inv(2) in \<open>simp_all add: in_session_def jobs_ok_def sig_handler_def\<close>)
next
  case (net_clock sy sy' ps)
  note inv = net_invD [OF net_clock.prems]
  have "sy_clients sy' = sy_clients sy" using sys_step_keeps [OF net_clock.hyps] by auto
  then show ?case using inv by (intro net_invI) (simp_all add: reg_link_def of_kind_def leaves_def)
qed

section \<open>The shutdown ends\<close>

definition client_turns :: "'db system \<Rightarrow> nat" where
  "client_turns sy = (\<Sum>k \<in> dom (sy_clients sy). left_of k sy)"

text \<open>Once the shutdown flag is up: the steps the process has left, each of which may start a
  connection with its turns, and the turns of the clients that are there.\<close>

definition net_left :: "'db net \<Rightarrow> nat" where
  "net_left = (\<lambda>(ps, sy). 5 * work_left ps + client_turns sy)"

lemma client_turns_move:
  fixes sy sy' :: "'db system"
  assumes "finite (dom (sy_clients sy))" "\<And>j. j \<noteq> k \<Longrightarrow> sy_clients sy' j = sy_clients sy j"
  shows "client_turns sy' + left_of k sy = client_turns sy + left_of k sy'"
proof -
  let ?D = "dom (sy_clients sy) - {k}"
  have split: "client_turns sx = left_of k sx + (\<Sum>j \<in> dom (sy_clients sx) - {k}. left_of j sx)"
    if "finite (dom (sy_clients sx))" for sx :: "'db system"
  proof (cases "k \<in> dom (sy_clients sx)")
    case True
    then show ?thesis unfolding client_turns_def using that by (rule sum.remove [rotated])
  next
    case False
    then show ?thesis by (simp add: client_turns_def left_of_def domIff)
  qed
  have d: "dom (sy_clients sy') - {k} = ?D" using assms(2) by (auto simp: domIff)
  have "finite (dom (sy_clients sy') - {k})" unfolding d using assms(1) by simp
  then have "finite (dom (sy_clients sy'))" by simp
  moreover have "(\<Sum>j \<in> ?D. left_of j sy') = (\<Sum>j \<in> ?D. left_of j sy)"
    using assms(2) by (intro sum.cong) (simp_all add: left_of_def)
  ultimately show ?thesis using split [of sy] split [of sy'] assms(1) d by simp
qed

lemma turns_left_bound: "turns_left c \<le> 4"
  by (cases c) (simp_all split: http_phase.split)

lemma work_left_on_reg [simp]: "work_left (on_reg kd op ps) = work_left ps"
  by (simp add: work_left_def)

lemma net_step_left:
  assumes "net_step sq ntop6 b (ps, sy) (ps', sy')" "net_inv sq ls m (ps, sy)" "ps_shutdown ps"
  shows "ps_shutdown ps' \<and> net_left (ps', sy') + (if b then 1 else 0) \<le> net_left (ps, sy)"
  using assms(1)
proof cases
  case (net_main k)
  note inv = net_invD [OF assms(2)]
  have "work_step ntop6 ps ps'" using net_main by (intro work_main) (simp_all add: accepts_ok_def)
  from work_step_left [OF inv(1) assms(3) this] net_main show ?thesis
    by (simp add: net_left_def client_turns_def stop_clients_frame)
next
  case (net_thread i)
  have "work_step ntop6 ps ps'" using net_thread(3) by (rule work_thread)
  from work_step_left [OF net_invD(1) [OF assms(2)] assms(3) this] net_thread show ?thesis by (simp add: net_left_def)
next
  case (net_refused i)
  with job_step_left [OF net_refused(4)] job_step_frame(3) [OF net_refused(4)] assms(3) show ?thesis by (simp add: net_left_def)
next
  case (net_created i kd ps1)
  let ?k = "job_key (job_at ps i)"
  obtain c where c: "sy_clients sy' = (sy_clients sy)(?k \<mapsto> c)" using created_facts(1) [OF net_created(6)] by auto
  have "client_turns sy' + left_of ?k sy = client_turns sy + left_of ?k sy'"
    by (rule client_turns_move [OF net_invD(3) [OF assms(2)]]) (simp add: c)
  moreover have "left_of ?k sy' \<le> 4" using turns_left_bound [of c] by (simp add: left_of_def c)
  ultimately show ?thesis
    using job_step_left [OF net_created(5)] job_step_frame(3) [OF net_created(5)] assms(3) net_created(1,2) by (simp add: net_left_def)
next
  case (net_turn k c)
  have m: "client_turns sy' + left_of k sy = client_turns sy + left_of k sy'"
    by (rule client_turns_move [OF net_invD(3) [OF assms(2)]]) (use sys_step_keeps [OF net_turn(4)] in simp)
  have "left_of k sy' < left_of k sy" if "leaving c"
    using leaving_step [OF net_turn(4,3) that] net_turn(5) by blast
  with m turn_facts(1) [OF net_turn(4,3,5)] net_turn(1,2) assms(3) show ?thesis by (auto simp: net_left_def)
next
  case (net_finished i ps1 c)
  let ?k = "job_key (job_at ps i)"
  have "client_turns sy' + left_of ?k sy = client_turns sy + left_of ?k sy'"
    by (rule client_turns_move [OF net_invD(3) [OF assms(2)]]) (use sys_step_keeps [OF net_finished(6)] in simp)
  moreover have "left_of ?k sy' = 0" using net_finished(7) by (simp add: left_of_def)
  ultimately show ?thesis
    using job_step_left [OF net_finished(4)] job_step_frame(3) [OF net_finished(4)] assms(3) net_finished(1,2) by (simp add: net_left_def)
next
  case (net_returned i)
  with job_step_left [OF net_returned(4)] job_step_frame(3) [OF net_returned(4)] assms(3) show ?thesis by (simp add: net_left_def)
next
  case (net_signal sig)
  with assms(3) show ?thesis by (simp add: net_left_def work_left_def sig_handler_def)
next
  case net_clock
  have "sy_clients sy' = sy_clients sy" using sys_step_keeps [OF net_clock(3)] by auto
  with net_clock assms(3) show ?thesis by (simp add: net_left_def client_turns_def left_of_def)
qed

text \<open>Some step of the program is always possible: while the main thread waits, of the first
  thread, whose session has been told to stop.\<close>

lemma main_enabled:
  assumes "wait_inv ps" "ps_pc ps \<noteq> Pc_end"
    and "\<And>i. ps_pc ps = Pc_drain i \<Longrightarrow> i < unat (cn_max_connections (pl_c (pool_of ps))) \<Longrightarrow> pl_threads (pool_of ps) = []"
  shows "\<exists>k ps'. accepts_ok k ps \<and> main_step ntop6 k ps = Some ps'"
proof -
  define k where "k = \<lparr>k_select = Sel_eintr, k_accept = Acc_error, k_conn_mem = True, k_wrap_mem = True,
     k_thread = True, k_now = 0, k_eintr = False\<rparr>"
  from assms(1) obtain n where n: "pool_ok n (pool_of ps)" "wait_ok (unat (cn_max_connections (pl_c (pool_of ps)))) (ps_pc ps) (ps_eintr ps) n"
    by (auto simp: wait_inv_def)
  have "main_step ntop6 k ps \<noteq> None"
  proof (cases "ps_pc ps")
    case (Pc_drain i)
    then show ?thesis using assms(3) n
      by (auto simp: main_step_def server_run_step_def server_destroy_step_def destroy_round_def sem_trywait_def pool_ok_def k_def Let_def)
  qed (use assms(2) in \<open>simp_all add: main_step_def server_run_step_def server_destroy_step_def Let_def\<close>)
  moreover have "accepts_ok k ps" by (simp add: accepts_ok_def kernel_ok_def k_def)
  ultimately show ?thesis by blast
qed

lemma all_leave:
  assumes "net_inv sq ls m (ps, sy)" "ps_pc ps = Pc_drain i" "sy_clients sy k = Some c"
  shows "leaving c"
proof -
  note inv = net_invD [OF assms(1)]
  let ?kd = "client_kind c"
  have k: "k \<in> of_kind ?kd sy" using assms(3) by (simp add: of_kind_def)
  then obtain l where l: "l \<in> set ls" "ls_proto l = kind_proto sq ?kd" using inv(5) [of ?kd] by (force simp: reg_link_def)
  have "rg_down (kind_reg ?kd ps)"
    using inv(1) assms(2) l by (cases ?kd) (auto simp: proc_inv_def stop_inv_def downs_def)
  with inv(5) [of ?kd] k assms(3) show ?thesis by (auto simp: reg_link_def leaves_def)
qed

lemma session_enabled:
  assumes "net_inv sq ls m (ps, sy)" "ps_pc ps = Pc_drain n" "i < length (pl_threads (pool_of ps))"
    "cw_phase (pl_threads (pool_of ps) ! i) = Ph_work" "jb_stage (job_at ps i) = Run_session"
  shows "\<exists>y. net_step sq ntop6 True (ps, sy) y"
proof -
  note inv = net_invD [OF assms(1)]
  let ?k = "job_key (job_at ps i)"
  obtain ps' where js: "job_step i True ps = Some ps'"
    using assms(3-5) by (auto simp: job_step_def job_at_def Let_def)
  have "?k \<in># mset_set (dom (sy_clients sy))" unfolding inv(4) using job_step_session(3) [OF js assms(5)] by simp
  then obtain c where c: "sy_clients sy ?k = Some c" using inv(3) by auto
  have lv: "leaving c" by (rule all_leave [OF assms(1,2) c])
  obtain sy' where sy': "sys_step sq (Some ?k) sy sy'" "left_of ?k sy' < left_of ?k sy" using leaving_enabled [OF c lv] by blast
  show ?thesis
  proof (cases "sy_clients sy' ?k")
    case None
    from net_finished [OF assms(5) js c sy'(1) None] show ?thesis by blast
  next
    case (Some c')
    have "sy' \<noteq> stop_client ?k sy" using sy'(2) stop_client_left [of ?k sy] by auto
    from net_turn [OF c sy'(1) this] Some lv show ?thesis by (metis option.distinct(1))
  qed
qed

lemma net_enabled:
  assumes "net_inv sq ls m (ps, sy)" "ps_pc ps \<noteq> Pc_end"
  shows "\<exists>y. net_step sq ntop6 True (ps, sy) y"
proof (cases "\<exists>i. ps_pc ps = Pc_drain i \<and> pl_threads (pool_of ps) \<noteq> []")
  case False
  then obtain k ps' where "accepts_ok k ps" "main_step ntop6 k ps = Some ps'"
    using main_enabled [OF net_invD(7) [OF assms(1)] assms(2)] by blast
  then show ?thesis using net_main by blast
next
  case True
  then obtain n where n: "ps_pc ps = Pc_drain n" by blast
  from True have z: "0 < length (pl_threads (pool_of ps))" by auto
  show ?thesis
  proof (cases "cw_phase (pl_threads (pool_of ps) ! 0) = Ph_work")
    case work: True
    show ?thesis
    proof (cases "jb_stage (job_at ps 0)")
      case Run_new
      then have "job_step 0 False ps \<noteq> None" using z work by (simp add: job_step_def job_at_def Let_def)
      with net_refused [OF Run_new] show ?thesis by blast
    next
      case Run_session
      show ?thesis by (rule session_enabled [OF assms(1) n z work Run_session])
    next
      case Run_closed
      then have "job_step 0 True ps \<noteq> None" using z work by (simp add: job_step_def job_at_def Let_def)
      with net_returned [OF Run_closed] show ?thesis by blast
    next
      case Run_done
      then have "thread_step 0 ps \<noteq> None" using z work by (simp add: thread_step_def thread_entry_def job_at_def Let_def)
      with net_thread show ?thesis by blast
    qed
  next
    case False
    then have "thread_step 0 ps \<noteq> None" using z by (simp add: thread_step_def thread_entry_def Let_def)
    with net_thread show ?thesis by blast
  qed
qed

inductive net_run :: "'db sqlite \<Rightarrow> (byte list \<Rightarrow> string) \<Rightarrow> nat \<Rightarrow> 'db net \<Rightarrow> 'db net \<Rightarrow> bool" for sq ntop6 where
  nr_start: "net_run sq ntop6 0 x x"
| nr_step: "net_run sq ntop6 n x y \<Longrightarrow> net_step sq ntop6 b y z \<Longrightarrow> net_run sq ntop6 (if b then Suc n else n) x z"

lemma net_run_left:
  assumes "net_run sq ntop6 n x y" "net_inv sq ls m x"
  shows "net_inv sq ls m y \<and> (ps_shutdown (fst x) \<longrightarrow> ps_shutdown (fst y) \<and> n + net_left y \<le> net_left x)"
  using assms
proof induction
  case (nr_step n x y b z)
  obtain ps sy ps' sy' where yz: "y = (ps, sy)" "z = (ps', sy')" by (metis prod.exhaust)
  note ih = nr_step.IH [OF nr_step.prems]
  have "net_inv sq ls m z" using net_step_inv [OF nr_step.hyps(2)] ih by blast
  moreover have "ps_shutdown ps \<Longrightarrow> ps_shutdown ps' \<and> net_left z + (if b then 1 else 0) \<le> net_left y"
    using net_step_left [of sq ntop6 b ps sy ps' sy' ls m] nr_step.hyps(2) ih yz by simp
  ultimately show ?case using ih yz by fastforce
qed simp

section \<open>Both views are of one run\<close>

lemma stop_clients_reach: "sys_reach sq sy (fold stop_client ks sy)"
proof (induction ks arbitrary: sy)
  case (Cons k ks)
  have "sys_reach sq sy (stop_client k sy)"
  proof (cases "sy_clients sy k")
    case None
    then show ?thesis by (simp add: stop_client_def sys_reach_def)
  next
    case (Some c)
    from stop_client_step [OF this, of sq] show ?thesis unfolding sys_reach_def by blast
  qed
  with Cons [of "stop_client k sy"] show ?case unfolding sys_reach_def by simp
qed (simp add: sys_reach_def)

lemma net_step_views:
  assumes "net_step sq ntop6 b (ps, sy) (ps', sy')" "net_inv sq ls m (ps, sy)"
  shows "(proc_step ntop6)\<^sup>*\<^sup>* ps ps' \<and> sys_reach sq sy sy'"
proof -
  have job: "(proc_step ntop6)\<^sup>*\<^sup>* ps ps1" if "job_step i created ps = Some ps1" for i created ps1
    using work_job [OF that, of ntop6] by (blast intro: r_into_rtranclp proc_step_def [THEN iffD2])
  have reg: "(proc_step ntop6)\<^sup>*\<^sup>* ps (on_reg kd op ps1)" if "(proc_step ntop6)\<^sup>*\<^sup>* ps ps1" "op \<noteq> Op_shutdown" for ps1 kd op
    using that(1) on_reg_idle [OF that(2), of ps1 kd] by (simp add: proc_step_def rtranclp.rtrancl_into_rtrancl)
  have one: "sys_reach sq sy sy'" if "sys_step sq l sy sy'" for l using that unfolding sys_reach_def by blast
  from assms(1) show ?thesis
  proof cases
    case (net_main k)
    then have "work_step ntop6 ps ps'" by (intro work_main) (simp_all add: accepts_ok_def)
    then have "proc_step ntop6 ps ps'" by (simp add: proc_step_def)
    with net_main stop_clients_reach show ?thesis by blast
  next
    case (net_thread i)
    from work_thread [OF net_thread(3), of ntop6] have "proc_step ntop6 ps ps'" by (simp add: proc_step_def)
    with net_thread show ?thesis by (simp add: sys_reach_def r_into_rtranclp)
  next
    case (net_created i kd ps1)
    have "sys_step sq (Some (job_key (job_at ps i))) sy sy'"
      by (rule created_facts(2) [OF net_created(6) new_key_free [OF assms(2) net_created(5,3)]])
    with one reg [OF job [OF net_created(5)]] net_created(2) show ?thesis by blast
  next
    case (net_finished i ps1 c)
    with one reg [OF job [OF net_finished(4)]] show ?thesis by blast
  next
    case (net_signal sig)
    from idle_signal [OF net_signal(4)] have "proc_step ntop6 ps ps'" using net_signal by (simp add: proc_step_def)
    with net_signal show ?thesis by (simp add: sys_reach_def r_into_rtranclp)
  qed (use job one in \<open>auto simp: sys_reach_def\<close>)
qed

lemma net_run_views:
  assumes "net_run sq ntop6 n x y" "net_inv sq ls m x"
  shows "(proc_step ntop6)\<^sup>*\<^sup>* (fst x) (fst y) \<and> sys_reach sq (snd x) (snd y)"
  using assms
proof induction
  case (nr_step n x y b z)
  obtain ps sy ps' sy' where yz: "y = (ps, sy)" "z = (ps', sy')" by (metis prod.exhaust)
  have "net_inv sq ls m y" using net_run_left [OF nr_step.hyps(1) nr_step.prems] by blast
  with net_step_views [of sq ntop6 b ps sy ps' sy' ls m] nr_step.hyps(2) yz
  have "(proc_step ntop6)\<^sup>*\<^sup>* (fst y) (fst z) \<and> sys_reach sq (snd y) (snd z)" by simp
  with nr_step.IH [OF nr_step.prems] show ?case unfolding sys_reach_def by (meson rtranclp_trans)
qed (simp add: sys_reach_def)

lemma start_inv:
  assumes "main_start sq os w calls s1 s2 cr = Some (Done (ps0, cr'))" "fst s1 \<noteq> fst s2"
  shows "net_inv sq (sv_listeners (ps_srv ps0)) (cn_max_connections (pl_c (pool_of ps0))) (ps0, sys_boot now sd ps)"
proof (rule net_invI)
  have r: "server_ready sq ps0" using assms by (rule main_start_ready)
  show "proc_inv sq (sv_listeners (ps_srv ps0)) (cn_max_connections (pl_c (pool_of ps0))) ps0" by (rule proc_inv_ready [OF r])
  have j: "jobs (pool_of ps0) = {#}" using r by (simp add: server_ready_def jobs_def)
  then show "jobs_ok (sv_listeners (ps_srv ps0)) ps0" by (simp add: jobs_ok_def)
  show "finite (dom (sy_clients (sys_boot now sd ps)))"
    "mset_set (dom (sy_clients (sys_boot now sd ps))) = image_mset job_key (in_session ps0)"
    using j by (simp_all add: sys_boot_def in_session_def)
  have "kind_reg kd ps0 = empty_registry" for kd
    using assms(1) by (cases rule: main_startE; cases kd) (simp_all add: initial_process_def)
  then show "reg_link sq (sv_listeners (ps_srv ps0)) ps0 (sys_boot now sd ps) kd" for kd
    by (simp add: reg_link_def of_kind_def sys_boot_def empty_registry_def)
qed

lemma unsubscribed:
  assumes "sub_only fd None w" "i < length (w_rooms w)" "fd \<in> set (sub_fds (room_at w i))"
  shows "fd < 0"
proof (rule ccontr)
  assume "\<not> fd < 0"
  then have "count (mset (sub_fds (room_at w i))) fd = 0" using assms(1,2) by (simp add: sub_only_def subs_of_def)
  with assms(3) show False by simp
qed

text \<open>A fair run takes a step of the program again and again while one is possible.\<close>

definition fair_run :: "'db sqlite \<Rightarrow> (byte list \<Rightarrow> string) \<Rightarrow> (nat \<Rightarrow> bool) \<Rightarrow> (nat \<Rightarrow> 'db net) \<Rightarrow> bool" where
  "fair_run sq ntop6 b f \<longleftrightarrow> (\<forall>i. net_step sq ntop6 (b i) (f i) (f (Suc i)))
     \<and> (\<forall>i. (\<exists>y. net_step sq ntop6 True (f i) y) \<longrightarrow> (\<exists>j \<ge> i. b j))"

lemma fair_run_prefix:
  assumes "fair_run sq ntop6 b f"
  shows "\<exists>n. net_run sq ntop6 n (f i) (f (i + k))"
proof (induction k)
  case 0
  then show ?case using nr_start [of sq ntop6 "f i"] by auto
next
  case (Suc k)
  then obtain n where "net_run sq ntop6 n (f i) (f (i + k))" by blast
  moreover have "net_step sq ntop6 (b (i + k)) (f (i + k)) (f (Suc (i + k)))" using assms by (simp add: fair_run_def)
  ultimately show ?case using nr_step by (metis add_Suc_right)
qed

lemma fair_run_inv:
  assumes "fair_run sq ntop6 b f" "net_inv sq ls m (f 0)" "ps_shutdown (fst (f 0))"
  shows "net_inv sq ls m (f i) \<and> ps_shutdown (fst (f i)) \<and> net_left (f (Suc i)) + (if b i then 1 else 0) \<le> net_left (f i)"
proof -
  obtain n where "net_run sq ntop6 n (f 0) (f i)" using fair_run_prefix [OF assms(1), of 0 i] by auto
  from net_run_left [OF this assms(2)] assms(3) have inv: "net_inv sq ls m (f i)" "ps_shutdown (fst (f i))" by blast+
  have "net_step sq ntop6 (b i) (f i) (f (Suc i))" using assms(1) by (simp add: fair_run_def)
  with net_step_left [of sq ntop6 "b i" "fst (f i)" "snd (f i)" "fst (f (Suc i))" "snd (f (Suc i))" ls m] inv show ?thesis by simp
qed

lemma fair_run_ends:
  assumes "fair_run sq ntop6 b f" "net_inv sq ls m (f 0)" "ps_shutdown (fst (f 0))"
  shows "\<exists>i. ps_pc (fst (f i)) = Pc_end"
proof (rule ccontr)
  assume never: "\<not> ?thesis"
  note st = fair_run_inv [OF assms]
  have mono: "net_left (f (i + k)) \<le> net_left (f i)" for i k
  proof (induction k)
    case (Suc k)
    with st [of "i + k"] show ?case by simp
  qed simp
  have "\<exists>j. net_left (f j) + n \<le> net_left (f 0)" for n
  proof (induction n)
    case (Suc n)
    then obtain i where i: "net_left (f i) + n \<le> net_left (f 0)" by blast
    have "\<exists>y. net_step sq ntop6 True (f i) y"
      using net_enabled [of sq ls m "fst (f i)" "snd (f i)" ntop6] st [of i] never by simp
    then obtain j where j: "i \<le> j" "b j" using assms(1) unfolding fair_run_def by blast
    have "net_left (f j) \<le> net_left (f i)" using mono [of i "j - i"] j(1) by simp
    with st [of j] j(2) i show ?case by (intro exI [of _ "Suc j"]) simp
  qed auto
  from this [of "Suc (net_left (f 0))"] show False by auto
qed

text \<open>There are fair runs from everywhere: take a step of the program while there is one, and let
  the clock go on otherwise.\<close>

lemma fair_run_exists: "\<exists>f b. fair_run sq ntop6 b f \<and> f 0 = x"
proof -
  define g where "g = (\<lambda>x. if \<exists>y. net_step sq ntop6 True x y then SOME y. net_step sq ntop6 True x y else x)"
  define f where "f = (\<lambda>i. (g ^^ i) x)"
  define b where "b = (\<lambda>i. \<exists>y. net_step sq ntop6 True (f i) y)"
  have idle: "net_step sq ntop6 False y y" for y
    using net_clock [OF sys_clock [of sq "snd y" "w_now (sy_w (snd y))"], of ntop6 "fst y"] by simp
  have "net_step sq ntop6 (b i) (f i) (f (Suc i))" for i
  proof (cases "b i")
    case True
    then have "\<exists>y. net_step sq ntop6 True (f i) y" by (simp add: b_def)
    from someI_ex [OF this] this True show ?thesis by (simp add: f_def g_def)
  next
    case False
    then have "f (Suc i) = f i" by (simp add: b_def f_def g_def)
    with False idle show ?thesis by simp
  qed
  then have "fair_run sq ntop6 b f" by (auto simp: fair_run_def b_def)
  moreover have "f 0 = x" by (simp add: f_def)
  ultimately show ?thesis by blast
qed

section \<open>Properties\<close>

text \<open>C7: The program composes. From the start of \<^verbatim>\<open>main\<close>, every run of the main thread, the
  connection threads with their sessions, signals and clock is at the same time a run of the
  server and a run of the chat system, so what is proved of either holds of the program. The
  clients of the chat are, each once, the connections whose thread is in its session; they
  are never more than the command line allows; and the two registries together list
  exactly them, each under its own protocol.\<close>

theorem netserver_composes:
  assumes "main_start sq os (boot_world now sd pps) calls s1 s2 cr = Some (Done (ps0, cr'))" and "fst s1 \<noteq> fst s2"
    and "net_run sq ntop6 n (ps0, sys_boot now sd pps) (ps, sy)"
  shows "(proc_step ntop6)\<^sup>*\<^sup>* ps0 ps \<and> sys_reach sq (sys_boot now sd pps) sy
    \<and> mset_set (dom (sy_clients sy)) = image_mset job_key (in_session ps)
    \<and> (\<exists>a. args_parse calls = Some (NS_OK, a) \<and> card (dom (sy_clients sy)) \<le> unat (ar_max_conn a))
    \<and> (\<forall>kd. mset (rg_head (kind_reg kd ps)) = mset_set (of_kind kd sy))"
proof -
  note st = start_inv [OF assms(1,2), of now sd pps]
  have inv: "net_inv sq (sv_listeners (ps_srv ps0)) (cn_max_connections (pl_c (pool_of ps0))) (ps, sy)"
    using net_run_left [OF assms(3) st] by blast
  note d = net_invD [OF inv]
  from assms(1) obtain a where a: "args_parse calls = Some (NS_OK, a)" "cn_max_connections (pl_c (pool_of ps0)) = ar_max_conn a"
    by (cases rule: main_startE) (auto simp: initial_process_def server_init_ready)
  have "card (dom (sy_clients sy)) = size (in_session ps)" using arg_cong [OF d(4), of size] by simp
  also have "\<dots> \<le> size (jobs (pool_of ps))" by (simp add: in_session_def size_filter_mset_lesseq)
  also have "\<dots> \<le> unat (ar_max_conn a)" using wait_inv_size [OF d(7)] d(1) a(2) by (simp add: proc_inv_def)
  finally have "card (dom (sy_clients sy)) \<le> unat (ar_max_conn a)" .
  with a(1) d(4,5) net_run_views [OF assms(3) st] show ?thesis by (auto simp: reg_link_def)
qed



section \<open>Examples\<close>

lemma demo_signal:
  assumes "demo_start root_creds = Some (Done (ps, cr))"
  shows "net_run ref_sqlite ntop6 0 (ps, sy) (ps\<lparr>ps_shutdown := True\<rparr>, sy)"
proof -
  have "ps_signals ps SIGTERM = Sig_handled"
    using assms unfolding demo_start_def by (cases rule: main_startE) (simp add: initial_process_def server_install_signals_def)
  from net_signal [OF this] have "net_step ref_sqlite ntop6 False (ps, sy) (ps\<lparr>ps_shutdown := True\<rparr>, sy)" by (simp add: sig_handler_def)
  from nr_step [OF nr_start this] show ?thesis by simp
qed

theorem netserver_composes_witness:
  "\<exists>ps cr. demo_start root_creds = Some (Done (ps, cr))
    \<and> (proc_step (\<lambda>_. []))\<^sup>*\<^sup>* ps (ps\<lparr>ps_shutdown := True\<rparr>) \<and> rg_head (kind_reg Kd_telnet ps) = []"
proof -
  obtain ps cr where run: "demo_start root_creds = Some (Done (ps, cr))" using demo_start_runs by blast
  have ne: "fst (Some (3 :: int), True) \<noteq> fst (Some (4 :: int), True)" by simp
  note main = run [unfolded demo_start_def demo_boot_def]
  from netserver_composes [OF main ne demo_signal [OF run]] netserver_composes [OF main ne nr_start] run show ?thesis
    by (auto simp: of_kind_def sys_boot_def simp del: kind_reg.simps)
qed



end
