(* ===== verification/Presence.thy ===== *)
theory Presence
  imports Chat_Room
begin

text \<open>
  Who is online. The presence table of the chat service, kept by the calls of both
  protocols, implements a board: per room, when each name was last seen. The locale
  \<open>presence_board\<close> states what the board promises to its readers, and the functions of
  \<^verbatim>\<open>chat_db.c\<close> and \<^verbatim>\<open>room.c\<close> refine it.
\<close>

section \<open>The board\<close>

definition user_ok :: "string \<Rightarrow> bool" where
  "user_ok u \<longleftrightarrow> list_all is_word_char u \<and> u \<noteq> [] \<and> length u < CHAT_USER_MAX"

type_synonym board = "int \<Rightarrow> string \<Rightarrow> int option"

datatype board_op = Seen int int string | Gone int string

fun board_step :: "board_op \<Rightarrow> board \<Rightarrow> board" where
  "board_step (Seen now r u) b = b(r := (b r)(u := Some now))"
| "board_step (Gone r u) b = b(r := (b r)(u := None))"

text \<open>The names of a room seen in the last \<open>ttl\<close> seconds.\<close>

definition online :: "board \<Rightarrow> int \<Rightarrow> int \<Rightarrow> int \<Rightarrow> string set" where
  "online b now ttl r = {u. \<exists>ts. b r u = Some ts \<and> now - ttl \<le> ts}"

lemma online_step:
  "online (board_step (Seen t r u) b) now ttl r' =
     (if r' = r then (if now - ttl \<le> t then insert u (online b now ttl r) else online b now ttl r - {u}) else online b now ttl r')"
  "online (board_step (Gone r u) b) now ttl r' = (if r' = r then online b now ttl r - {u} else online b now ttl r')"
  by (auto simp: online_def)

text \<open>What the readers of the board rely on: a write the store accepts is one step of the
  board, one it refuses is none, and a list of names is the sorted list of who is online,
  cut to the space there is.\<close>

locale presence_board =
  fixes board :: "'s \<Rightarrow> board" and ok :: "'s \<Rightarrow> bool" and can_list :: "'s \<Rightarrow> bool"
    and can_put :: "int \<Rightarrow> 's \<Rightarrow> int \<Rightarrow> string \<Rightarrow> bool" and can_del :: "'s \<Rightarrow> int \<Rightarrow> string \<Rightarrow> bool"
    and put :: "int \<Rightarrow> 's \<Rightarrow> int \<Rightarrow> string \<Rightarrow> 's" and del :: "'s \<Rightarrow> int \<Rightarrow> string \<Rightarrow> 's"
    and names :: "int \<Rightarrow> 's \<Rightarrow> int \<Rightarrow> int \<Rightarrow> nat \<Rightarrow> string list"
  assumes put_step: "ok s \<Longrightarrow> user_ok u \<Longrightarrow>
      ok (put now s r u) \<and> board (put now s r u) = (if can_put now s r u then board_step (Seen now r u) (board s) else board s)"
    and del_step: "ok s \<Longrightarrow> user_ok u \<Longrightarrow>
      ok (del s r u) \<and> board (del s r u) = (if can_del s r u then board_step (Gone r u) (board s) else board s)"
    and board_finite: "ok s \<Longrightarrow> finite (dom (board s r))"
    and names_listed: "ok s \<Longrightarrow> can_list s \<Longrightarrow> names now s r ttl mx = take mx (sorted_list_of_set (online (board s) now ttl r))"
begin

lemma online_finite: "ok s \<Longrightarrow> finite (online (board s) now ttl r)"
  by (rule finite_subset [OF _ board_finite [of s r]]) (auto simp: online_def)

lemma names_facts:
  assumes "ok s" "can_list s"
  shows "sorted (names now s r ttl mx)" "distinct (names now s r ttl mx)"
    "set (names now s r ttl mx) \<subseteq> online (board s) now ttl r"
    "card (online (board s) now ttl r) \<le> mx \<Longrightarrow> set (names now s r ttl mx) = online (board s) now ttl r"
proof -
  let ?on = "online (board s) now ttl r"
  note l = names_listed [OF assms] and f = online_finite [OF assms(1), of now ttl r]
  show "sorted (names now s r ttl mx)" "distinct (names now s r ttl mx)" unfolding l by (simp_all add: sorted_wrt_take)
  show "set (names now s r ttl mx) \<subseteq> ?on" unfolding l using f set_take_subset by fastforce
  show "card ?on \<le> mx \<Longrightarrow> set (names now s r ttl mx) = ?on" unfolding l using f by simp
qed

text \<open>A name not refreshed for longer than \<open>ttl\<close> is not listed.\<close>

lemma expired_not_named:
  assumes "ok s" "can_list s" "board s r u = Some ts" "ts < now - ttl"
  shows "u \<notin> set (names now s r ttl mx)"
  using names_facts(3) [OF assms(1,2), of now r ttl mx] assms(3,4) by (auto simp: online_def)

end

section \<open>The table as a board\<close>

definition row_key :: "int \<times> string \<times> int \<Rightarrow> int \<times> string" where
  "row_key p = (fst p, fst (snd p))"

definition rows_board :: "(int \<times> string \<times> int) list \<Rightarrow> board" where
  "rows_board ps r u = map_of (map (\<lambda>p. (row_key p, snd (snd p))) ps) (r, u)"

text \<open>The primary key of the table, and names as the sanitizer leaves them.\<close>

definition rows_ok :: "(int \<times> string \<times> int) list \<Rightarrow> bool" where
  "rows_ok ps \<longleftrightarrow> distinct (map row_key ps) \<and> list_all (\<lambda>p. user_ok (fst (snd p))) ps"

lemma rows_board_Some:
  assumes "rows_ok ps"
  shows "rows_board ps r u = Some ts \<longleftrightarrow> (r, u, ts) \<in> set ps"
proof -
  have "distinct (map fst (map (\<lambda>p. (row_key p, snd (snd p))) ps))" using assms by (simp add: rows_ok_def comp_def)
  then have "rows_board ps r u = Some ts \<longleftrightarrow> ((r, u), ts) \<in> set (map (\<lambda>p. (row_key p, snd (snd p))) ps)"
    unfolding rows_board_def by (rule map_of_eq_Some_iff)
  then show ?thesis by (force simp: row_key_def)
qed

lemma rows_board_eqI:
  assumes "rows_ok ps" "\<And>r u ts. b r u = Some ts \<longleftrightarrow> (r, u, ts) \<in> set ps"
  shows "rows_board ps = b"
proof (intro ext)
  fix r u
  have "rows_board ps r u = Some ts \<longleftrightarrow> b r u = Some ts" for ts
    using rows_board_Some [OF assms(1)] assms(2) by simp
  then show "rows_board ps r u = b r u" by (metis option.exhaust)
qed

lemma rows_upsert:
  assumes "rows_ok ps" "user_ok u"
  shows "rows_ok (upsert r u ts ps)" "rows_board (upsert r u ts ps) = board_step (Seen ts r u) (rows_board ps)"
proof -
  let ?f = "\<lambda>(r', u', ts'). if r' = r \<and> u' = u then (r', u', ts) else (r', u', ts')"
  have key: "row_key (?f p) = row_key p" "fst (snd (?f p)) = fst (snd p)" for p by (simp_all add: row_key_def split_beta)
  have "map row_key (map ?f ps) = map row_key ps" by (simp add: key)
  then have "rows_ok (map ?f ps)" using assms(1) by (simp add: rows_ok_def list_all_iff key del: map_map)
  moreover have "rows_ok (ps @ [(r, u, ts)])" if "\<not> (\<exists>p \<in> set ps. fst p = r \<and> fst (snd p) = u)"
    using assms that by (auto simp: rows_ok_def row_key_def)
  ultimately show ok: "rows_ok (upsert r u ts ps)" unfolding upsert_def by presburger
  have mem: "(r', u', ts') \<in> ?f ` set ps \<longleftrightarrow>
      (if r' = r \<and> u' = u then ts' = ts \<and> (\<exists>b. (r, u, b) \<in> set ps) else (r', u', ts') \<in> set ps)" for r' u' ts'
    by (auto split: if_splits intro: rev_image_eqI)
  show "rows_board (upsert r u ts ps) = board_step (Seen ts r u) (rows_board ps)"
  proof (rule rows_board_eqI [OF ok])
    fix r' u' ts'
    show "board_step (Seen ts r u) (rows_board ps) r' u' = Some ts' \<longleftrightarrow> (r', u', ts') \<in> set (upsert r u ts ps)"
      using rows_board_Some [OF assms(1), of r' u' ts'] mem by (auto simp: upsert_def)
  qed
qed

lemma rows_delete:
  assumes "rows_ok ps"
  shows "rows_ok (filter (\<lambda>p. \<not> (fst p = r \<and> fst (snd p) = u)) ps)"
    "rows_board (filter (\<lambda>p. \<not> (fst p = r \<and> fst (snd p) = u)) ps) = board_step (Gone r u) (rows_board ps)"
proof -
  let ?ps = "filter (\<lambda>p. \<not> (fst p = r \<and> fst (snd p) = u)) ps"
  show ok: "rows_ok ?ps" using assms by (auto simp: rows_ok_def list_all_iff distinct_map_filter)
  show "rows_board ?ps = board_step (Gone r u) (rows_board ps)"
    by (rule rows_board_eqI [OF ok]) (use rows_board_Some [OF assms] in auto)
qed

definition board_of :: "('db \<Rightarrow> chat_tables) \<Rightarrow> 'db option \<Rightarrow> board" where
  "board_of tables s_db = (case s_db of None \<Rightarrow> (\<lambda>_ _. None) | Some db \<Rightarrow> rows_board (tb_presence (tables db)))"

definition board_ok :: "('db \<Rightarrow> chat_tables) \<Rightarrow> 'db option \<Rightarrow> bool" where
  "board_ok tables s_db = (case s_db of None \<Rightarrow> True | Some db \<Rightarrow> rows_ok (tb_presence (tables db)))"

definition who_readable :: "'db sqlite \<Rightarrow> 'db option \<Rightarrow> bool" where
  "who_readable sq s_db = (case s_db of None \<Rightarrow> True | Some db \<Rightarrow> sqlite3_prepare_v2 sq db SQL_ACTIVE_USERS)"

definition presence_stored :: "'db sqlite \<Rightarrow> int \<Rightarrow> 'db option \<Rightarrow> int \<Rightarrow> string \<Rightarrow> bool" where
  "presence_stored sq now s_db r u = (case s_db of None \<Rightarrow> False
     | Some db \<Rightarrow> sqlite3_prepare_v2 sq db SQL_PRESENCE_SET
         \<and> snd (sqlite3_step_write sq db SQL_PRESENCE_SET [Sql_int r, Sql_text u, Sql_int now]))"

definition presence_removed :: "'db sqlite \<Rightarrow> 'db option \<Rightarrow> int \<Rightarrow> string \<Rightarrow> bool" where
  "presence_removed sq s_db r u = (case s_db of None \<Rightarrow> False
     | Some db \<Rightarrow> sqlite3_prepare_v2 sq db SQL_PRESENCE_CLEAR
         \<and> snd (sqlite3_step_write sq db SQL_PRESENCE_CLEAR [Sql_int r, Sql_text u]))"

lemma active_names:
  assumes "rows_ok (tb_presence t)"
  shows "q_active t r t0 = sorted_list_of_set {u. \<exists>ts. rows_board (tb_presence t) r u = Some ts \<and> t0 \<le> ts}"
proof -
  let ?ps = "filter (\<lambda>p. fst p = r \<and> t0 \<le> snd (snd p)) (tb_presence t)" and ?us = "\<lambda>ps. map (\<lambda>p. fst (snd p)) ps"
  have "distinct (map row_key ?ps)" using assms by (simp add: rows_ok_def distinct_map_filter)
  then have "distinct (?us ?ps)" by (auto simp: distinct_map inj_on_def row_key_def)
  then have "sorted_list_of_set (set (?us ?ps)) = sort (?us ?ps)"
    using sorted_list_of_set_sort_remdups [of "?us ?ps"] by (simp only: distinct_remdups_id)
  moreover have "set (?us ?ps) = {u. \<exists>ts. rows_board (tb_presence t) r u = Some ts \<and> t0 \<le> ts}"
    by (force simp: rows_board_Some [OF assms])
  ultimately show ?thesis by (simp only: q_active_def)
qed

lemma user_ok_text: "user_ok u \<Longrightarrow> cstr u = u \<and> str_copy CHAT_USER_MAX u = u"
  by (auto simp: user_ok_def list_all_iff chat_sizes nul_free_printable word_char_printable intro!: str_copy_fits cstr_nul_free)

section \<open>The storage keeps the board\<close>

sublocale sqlite_chat \<subseteq> who: presence_board "board_of tables" "board_ok tables" "who_readable sq"
  "presence_stored sq" "presence_removed sq" "chat_db_presence_set sq" "chat_db_presence_clear sq" "chat_db_active_users sq"
proof (unfold_locales, goal_cases)
  case (1 s u now r)
  show ?case
  proof (cases s)
    case (Some db)
    obtain db' don where st: "sqlite3_step_write sq db SQL_PRESENCE_SET [Sql_int r, Sql_text u, Sql_int now] = (db', don)" by fastforce
    have "tables db' = (if don then (tables db)\<lparr>tb_presence := upsert r u now (tb_presence (tables db))\<rparr> else tables db)"
      using presence_set_done [of db r u now db'] write_failed st by (cases don) auto
    with 1 Some st show ?thesis
      using rows_upsert [of "tb_presence (tables db)" u r now] user_ok_text [of u]
      by (auto simp: chat_db_presence_set_def presence_stored_def board_of_def board_ok_def split: if_splits)
  qed (simp add: chat_db_presence_set_def board_ok_def presence_stored_def)
next
  case (2 s u r)
  show ?case
  proof (cases s)
    case (Some db)
    obtain db' don where st: "sqlite3_step_write sq db SQL_PRESENCE_CLEAR [Sql_int r, Sql_text u] = (db', don)" by fastforce
    have "tables db' = (if don then (tables db)\<lparr>tb_presence :=
        filter (\<lambda>p. \<not> (fst p = r \<and> fst (snd p) = u)) (tb_presence (tables db))\<rparr> else tables db)"
      using presence_clear_done [of db r u db'] write_failed st by (cases don) auto
    with 2 Some st show ?thesis
      using rows_delete [of "tb_presence (tables db)" r u] user_ok_text [of u]
      by (auto simp: chat_db_presence_clear_def presence_removed_def board_of_def board_ok_def split: if_splits)
  qed (simp add: chat_db_presence_clear_def board_ok_def presence_removed_def)
next
  case (3 s r)
  show ?case
  proof (cases s)
    case (Some db)
    have "dom (board_of tables s r) \<subseteq> (\<lambda>p. fst (snd p)) ` set (tb_presence (tables db))"
      using 3 Some rows_board_Some by (force simp: board_of_def board_ok_def)
    then show ?thesis by (rule finite_subset) simp
  qed (simp add: board_of_def)
next
  case (4 s now r ttl mx)
  show ?case
  proof (cases s)
    case (Some db)
    let ?t = "tables db"
    have ok: "rows_ok (tb_presence ?t)" using 4 Some by (simp add: board_ok_def)
    let ?us = "q_active ?t r (now - ttl)"
    have "set ?us \<subseteq> {u. user_ok u}" using ok by (auto simp: q_active_def rows_ok_def list_all_iff)
    then have "map (str_copy CHAT_USER_MAX) (take mx ?us) = take mx ?us"
      by (intro map_idI) (use user_ok_text in \<open>blast dest: in_set_takeD\<close>)
    moreover have "chat_db_active_users sq now s r ttl mx = map (str_copy CHAT_USER_MAX) (take mx ?us)"
      using 4 Some by (simp add: chat_db_active_users_def who_readable_def active_rows take_map comp_def column_text_def)
    moreover have "?us = sorted_list_of_set (online (board_of tables s) now ttl r)"
      using Some by (simp add: active_names [OF ok] board_of_def online_def)
    ultimately show ?thesis by simp
  qed (simp add: chat_db_active_users_def board_of_def online_def)
qed

text \<open>What the service needs of the database file found at start.\<close>

definition opened_boards :: "'db sqlite \<Rightarrow> ('db \<Rightarrow> chat_tables) \<Rightarrow> bool" where
  "opened_boards sq tables \<longleftrightarrow> (\<forall>p db. sqlite3_open sq p = Some db \<longrightarrow> rows_ok (tb_presence (tables db)))"

abbreviation wboard :: "('db \<Rightarrow> chat_tables) \<Rightarrow> 'db chat_world \<Rightarrow> board" where
  "wboard tables w \<equiv> board_of tables (w_db w)"

lemma user_ok_sanitized: "sanitize_user u CHAT_USER_MAX \<noteq> [] \<Longrightarrow> user_ok (sanitize_user u CHAT_USER_MAX)"
  using sanitize_user_word sanitize_user_length [of u CHAT_USER_MAX] by (auto simp: user_ok_def list_all_iff chat_sizes)

context sqlite_chat
begin

lemma insert_board:
  assumes "chat_db_insert_message sq now s r u b = (s', mid)"
  shows "board_of tables s' = board_of tables s \<and> board_ok tables s' = board_ok tables s"
proof (cases s)
  case (Some db)
  obtain db' don where st: "sqlite3_step_write sq db SQL_INSERT_MESSAGE
      [Sql_int r, Sql_text (cstr u), Sql_int now, Sql_text (cstr b)] = (db', don)" by fastforce
  have "tb_presence (tables db') = tb_presence (tables db)"
    using insert_done [of db r "cstr u" now "cstr b" db'] write_failed st by (cases don) auto
  with Some st assms show ?thesis
    by (auto simp: chat_db_insert_message_def board_of_def board_ok_def split: if_splits)
qed (use assms in \<open>simp add: chat_db_insert_message_def\<close>)

lemma seed_rooms_board: "tb_presence (tables (fold (seed_room sq) ns db)) = tb_presence (tables db)"
proof (induction ns arbitrary: db)
  case (Cons n ns)
  obtain db' don where st: "sqlite3_step_write sq db SQL_SEED_ROOM [Sql_text n] = (db', don)" by fastforce
  then have "tb_presence (tables (seed_room sq n db)) = tb_presence (tables db)"
    using seed_done [of db n db'] write_failed [of db SQL_SEED_ROOM "[Sql_text n]" db'] by (cases don) (auto simp: seed_room_def)
  with Cons show ?case by simp
qed simp

lemma init_board:
  assumes "opened_boards sq tables" "board_ok tables s" "chat_db_init sq s p = (s', rc)"
  shows "board_ok tables s'"
proof (cases s)
  case None
  have "rows_ok (tb_presence (tables db'))" if "sqlite3_open sq p = Some db" "sqlite3_exec sq db SCHEMA = Some db'" for db db'
    using assms(1) that schema_keeps [OF that(2)] by (auto simp: opened_boards_def)
  with None assms(3) show ?thesis
    by (auto simp: chat_db_init_def board_ok_def seed_rooms_board split: option.splits)
qed (use assms(2,3) in \<open>simp add: chat_db_init_def\<close>)

lemma set_board:
  assumes "board_ok tables (w_db w)"
  shows "board_ok tables (w_db (chat_room_presence_set sq w i user))
    \<and> wboard tables (chat_room_presence_set sq w i user) =
       (let u = sanitize_user user CHAT_USER_MAX; r = r_id (room_at w i)
        in if u \<noteq> [] \<and> presence_stored sq (w_now w) (w_db w) r u
           then board_step (Seen (w_now w) r u) (wboard tables w) else wboard tables w)"
  using who.put_step [OF assms user_ok_sanitized] assms by (simp add: chat_room_presence_set_def Let_def)

lemma clear_board:
  assumes "board_ok tables (w_db w)"
  shows "board_ok tables (w_db (chat_room_presence_clear sq w i user))
    \<and> wboard tables (chat_room_presence_clear sq w i user) =
       (let u = sanitize_user user CHAT_USER_MAX; r = r_id (room_at w i)
        in if u \<noteq> [] \<and> presence_removed sq (w_db w) r u
           then board_step (Gone r u) (wboard tables w) else wboard tables w)"
  using who.del_step [OF assms user_ok_sanitized] assms by (simp add: chat_room_presence_clear_def Let_def)

lemma post_board:
  "wboard tables (fst (chat_room_post sq w i user body)) = wboard tables w
   \<and> board_ok tables (w_db (fst (chat_room_post sq w i user body))) = board_ok tables (w_db w)"
proof -
  obtain db mid where "chat_db_insert_message sq (w_now w) (w_db w) (r_id (room_at w i))
      (sanitize_user user CHAT_USER_MAX) (sanitize_text body CHAT_BODY_MAX) = (db, mid)" by fastforce
  with insert_board [OF this] show ?thesis by (simp add: chat_room_post_def notify_room_def Let_def)
qed

lemma users_listed:
  "board_ok tables (w_db w) \<Longrightarrow> who_readable sq (w_db w) \<Longrightarrow> chat_room_users sq w i mx =
     take mx (sorted_list_of_set (online (wboard tables w) (w_now w) CHAT_PRESENCE_TTL (r_id (room_at w i))))"
  unfolding chat_room_users_def by (rule who.names_listed)

text \<open>Two visits under one name share one row: when one of them leaves, the name is off the
  list although the other is still there.\<close>

lemma shared_name_leaves:
  assumes ok: "board_ok tables (w_db w)" and room: "w' = chat_room_presence_clear sq w i user"
    and name: "u = sanitize_user user CHAT_USER_MAX" "u \<noteq> []"
    and gone: "presence_removed sq (w_db w) (r_id (room_at w i)) u" "who_readable sq (w_db w')"
  shows "u \<notin> set (chat_room_users sq w' i mx)"
proof -
  have b: "board_ok tables (w_db w')" "wboard tables w' = board_step (Gone (r_id (room_at w i)) u) (wboard tables w)"
    using clear_board [OF ok, of i user] assms(2-5) by (simp_all add: Let_def)
  moreover have "w_rooms w' = w_rooms w" unfolding room by (simp add: chat_room_presence_clear_def Let_def)
  ultimately show ?thesis
    using who.names_facts(3) [OF b(1) gone(2), of "w_now w'" "r_id (room_at w i)" CHAT_PRESENCE_TTL mx]
    by (auto simp: chat_room_users_def online_step(2) simp del: board_step.simps)
qed

text \<open>A user in a room whose name is not refreshed is off the list after five minutes, in the
  room or not.\<close>

lemma reader_drops_off:
  assumes "board_ok tables (w_db w)" "who_readable sq (w_db w)"
    and "wboard tables w (r_id (room_at w i)) u = Some ts" "ts + CHAT_PRESENCE_TTL < w_now w"
  shows "u \<notin> set (chat_room_users sq w i mx)"
  unfolding chat_room_users_def by (rule who.expired_not_named [OF assms(1-3)]) (use assms(4) in simp)

lemma service_init_board:
  assumes "opened_boards sq tables" "board_ok tables (w_db w)"
  shows "board_ok tables (w_db (chat_service_init sq w))"
proof -
  obtain path made where p: "chat_db_default_path (w_statedir w) 512 = (path, made)" by fastforce
  with assms(2) show ?thesis
    by (auto simp: chat_service_init_def service_init_once_def Let_def split: option.split prod.split
        intro: init_board [OF assms(1)])
qed

lemma service_step_board:
  assumes "opened_boards sq tables" "service_step sq w w'" "board_ok tables (w_db w)"
  shows "board_ok tables (w_db w')"
  using assms(2,3) service_init_board [OF assms(1)] post_board set_board clear_board
  by (induction rule: service_step.induct)
     (simp_all add: chat_room_subscribe_def chat_room_unsubscribe_def update_subs_def)

end

section \<open>Properties\<close>

text \<open>C17: The service implements the board of who is online. In every state that calls on the
  service reach from the start, the list of users of a room is, in order and without
  repetition, who was seen there in the last 300 seconds, cut to the space the caller
  gives; marking a user present or absent is, once the name is sanitized and unless the
  store refuses, exactly one step of the board for that room and that name; and posting,
  subscribing, unsubscribing and a repeated initialisation leave the board alone.\<close>

theorem presence_refines_board:
  assumes "sqlite_chat sq tables" and "opened_boards sq tables"
    and "(service_step sq)\<^sup>*\<^sup>* (boot_world now sd ps) w"
  shows "(who_readable sq (w_db w) \<longrightarrow> chat_room_users sq w i mx =
        take mx (sorted_list_of_set (online (wboard tables w) (w_now w) CHAT_PRESENCE_TTL (r_id (room_at w i)))))
    \<and> wboard tables (chat_room_presence_set sq w i user) =
       (let u = sanitize_user user CHAT_USER_MAX; r = r_id (room_at w i)
        in if u \<noteq> [] \<and> presence_stored sq (w_now w) (w_db w) r u
           then board_step (Seen (w_now w) r u) (wboard tables w) else wboard tables w)
    \<and> wboard tables (chat_room_presence_clear sq w i user) =
       (let u = sanitize_user user CHAT_USER_MAX; r = r_id (room_at w i)
        in if u \<noteq> [] \<and> presence_removed sq (w_db w) r u
           then board_step (Gone r u) (wboard tables w) else wboard tables w)
    \<and> wboard tables (fst (chat_room_post sq w i user body)) = wboard tables w
    \<and> wboard tables (chat_room_subscribe w i wfd) = wboard tables w
    \<and> wboard tables (chat_room_unsubscribe w i wfd) = wboard tables w
    \<and> (w_once w \<longrightarrow> wboard tables (chat_service_init sq w) = wboard tables w)"
proof -
  have ok: "board_ok tables (w_db w)" using assms(3)
  proof (induction rule: rtranclp_induct)
    case base
    show ?case by (simp add: boot_world_def board_ok_def)
  qed (rule sqlite_chat.service_step_board [OF assms(1,2)])
  show ?thesis
    using sqlite_chat.users_listed [OF assms(1) ok, of i mx] sqlite_chat.set_board [OF assms(1) ok]
      sqlite_chat.clear_board [OF assms(1) ok] sqlite_chat.post_board [OF assms(1), of w i user body]
    by (simp add: chat_room_subscribe_def chat_room_unsubscribe_def update_subs_def chat_service_init_def)
qed

section \<open>A running example\<close>

definition demo_present :: "chat_tables chat_world" where
  "demo_present = chat_room_presence_set ref_sqlite demo_world 0 ''bob!''"

lemma demo_present_eq:
  "demo_present = demo_world\<lparr>w_db := Some (demo_tables\<lparr>tb_presence := [(1, ''bob'', 1000)]\<rparr>)\<rparr>"
proof -
  have "sanitize_user ''bob!'' CHAT_USER_MAX = ''bob''" by (simp add: chat_sizes char_class_defs)
  then show ?thesis
    by (simp add: demo_present_def chat_room_presence_set_def demo_world_eq demo_tables_def chat_db_presence_set_def upsert_def)
qed

lemma demo_present_steps: "(service_step ref_sqlite)\<^sup>*\<^sup>* (boot_world 1000 None (Map.empty(7 \<mapsto> 0))) demo_present"
proof -
  have "service_step ref_sqlite demo_world demo_present"
    unfolding demo_present_def by (rule svc_presence_set) (simp add: demo_world_eq)
  with demo_world_steps show ?thesis unfolding demo_boot_def by (rule rtranclp.rtrancl_into_rtrancl)
qed

theorem presence_refines_board_witness:
  "chat_room_users ref_sqlite demo_present 0 8 = [''bob'']
   \<and> online (wboard (\<lambda>t. t) (chat_room_presence_clear ref_sqlite demo_present 0 ''bob'')) 1000 CHAT_PRESENCE_TTL 1 = {}"
proof -
  have "opened_boards ref_sqlite (\<lambda>t. t)" by (simp add: opened_boards_def rows_ok_def empty_tables_def)
  note ref = presence_refines_board [OF ref_engine.sqlite_chat_axioms this demo_present_steps, of 0 8 "''bob''" "[]" 0]
  have on: "online (wboard (\<lambda>t. t) demo_present) now ttl 1 = (if now - ttl \<le> 1000 then {''bob''} else {})" for now ttl
    by (auto simp: online_def demo_present_eq board_of_def rows_board_def row_key_def)
  have "sanitize_user ''bob'' CHAT_USER_MAX = ''bob''" by (simp add: chat_sizes char_class_defs)
  moreover have "who_readable ref_sqlite (w_db demo_present)" "r_id (room_at demo_present 0) = 1" "w_now demo_present = 1000"
    "presence_removed ref_sqlite (w_db demo_present) 1 ''bob''"
    by (simp_all add: who_readable_def presence_removed_def demo_present_eq demo_world_eq)
  ultimately show ?thesis using ref on by (simp add: online_step(2) CHAT_PRESENCE_TTL_def Let_def del: board_step.simps)
qed

end
