(* ===== verification/Spec2Isabelle.thy ===== *)
theory Spec2Isabelle
  imports Errors Bbs Netserver Presence
begin

text \<open>
  \<^bold>\<open>netserver\<close>: a telnet bulletin board and an HTTP chat interface over one chat service.

  \<^bold>\<open>The program.\<close> \<^verbatim>\<open>main\<close> parses the command line, binds a telnet and an HTTP listener, drops
  its privileges and runs the accept loop. Every accepted connection runs on a detached
  thread of its own, taken from a bounded number of slots, through a protocol vtable. A
  telnet session is a state machine over keys: it negotiates options, shows a menu and
  runs a game or feature, of which the chat is the one with state. An HTTP connection
  carries one request: a page, a JSON answer, or an event stream. Both protocols are
  clients of the chat service, which stores messages in SQLite and wakes its subscribers
  by writing a byte to their pipes. A signal raises a flag; the main thread then tells
  every registered session to stop and waits for the threads.

  \<^bold>\<open>Theories and sources\<close> (paths under \<^verbatim>\<open>src/src\<close>):

  \<^item> \<open>Prelude\<close>: C strings, \<^verbatim>\<open>snprintf\<close>, searching, decimal numbers; shared lemmas.
  \<^item> \<open>Errors\<close>: \<^verbatim>\<open>core/err.h\<close>. \<open>Fsm\<close>: \<^verbatim>\<open>core/fsm.c\<close>, with the locale of a machine that
    keeps an invariant.
  \<^item> \<open>Iac_Parser\<close>: \<^verbatim>\<open>protocol/telnet/telnet_proto.c\<close>. \<open>Ansi_Menu\<close>, \<open>Bbs\<close>: \<^verbatim>\<open>ui/\<close>.
  \<^item> \<open>Sqlite_Api\<close>, \<open>Chat_Db\<close>: the database interface and \<^verbatim>\<open>features/chat/chat_db.c\<close>.
    SQLite is a record of functions; the locale \<open>sqlite_chat\<close> states what its documentation
    says of the statements the program runs, and a reference engine satisfies it.
  \<^item> \<open>Net_Io\<close>: sending on a socket and the self-pipes. \<open>Registry\<close>: the contract of the
    session registries, interpreted for both protocols.
  \<^item> \<open>Chat_Room\<close>: \<^verbatim>\<open>features/chat/room.c\<close>. \<open>Chat_Client\<close>: what its two clients share.
    \<open>Presence\<close>: the presence table as a board of who is online.
  \<^item> \<open>Telnet_Types\<close>, \<open>Chat_Ui\<close>, \<open>Features\<close>, \<open>Telnet_Session\<close>:
    \<^verbatim>\<open>protocol/telnet/telnet_session.c\<close>, \<^verbatim>\<open>features/chat/chat.c\<close>, \<^verbatim>\<open>features/stubs.c\<close> and
    \<^verbatim>\<open>games/\<close>. A session and the service it sees are one context that every operation
    takes and returns.
  \<^item> \<open>Http_Proto\<close>, \<open>Http_Session\<close>, \<open>Http_Chat\<close>: \<^verbatim>\<open>protocol/http/http_proto.c\<close>,
    \<^verbatim>\<open>protocol/http/http_session.c\<close>, \<^verbatim>\<open>features/chat/http_chat.c\<close>. \<open>Http_Stream\<close> and
    \<open>Http_Api\<close> hold what they guarantee together.
  \<^item> \<open>Connector\<close>: \<^verbatim>\<open>core/connector.c\<close>. \<open>Connection\<close>: \<^verbatim>\<open>protocol/protocol.h\<close>,
    \<^verbatim>\<open>protocol/protocol.c\<close> and \<^verbatim>\<open>core/connection.c\<close>. \<open>Server\<close>: \<^verbatim>\<open>core/server.c\<close>.
  \<^item> \<open>Startup\<close>: \<^verbatim>\<open>core/args.c\<close>, \<^verbatim>\<open>core/priv.c\<close>, \<^verbatim>\<open>main.c\<close>.
  \<^item> \<open>Threads\<close>, \<open>System\<close>, \<open>Delivery\<close>, \<open>Stopping\<close>: all sessions and requests at once over one chat
    service. \<open>Threads\<close> shows what each handler guarantees to the other threads, \<open>System\<close> is the
    step relation of any number of clients with its invariant, \<open>Delivery\<close> follows a message
    from one transport to the other, \<open>Stopping\<close> a stop request to the end of the client.
  \<^item> \<open>Netserver\<close>: the server and the sessions its threads run as one program, from \<^verbatim>\<open>main\<close> to the
    end of the shutdown.

  \<^bold>\<open>How the code is modelled.\<close> A struct is a record, an enum a datatype, a fixed-width
  integer that can wrap a machine word. Every function of the sources is a definition on
  that state. What the kernel, the allocator and the other threads do is an argument:
  the result of each call, and between two steps of a session a change of the shared
  state that keeps to the interface of the service. A loop that waits for input is a
  recursion over the list of what the waits report; \<open>None\<close> then means that it is waiting
  again. The connector and the server, where the order of steps of several threads
  matters, are step relations, with reachable states and invariants by rule induction.

  \<^bold>\<open>What is proved.\<close>

  \<^item> The chat service keeps stored text printable, its logs ordered and its subscriber
    lists bounded under any sequence of calls; a post stores one message and wakes every
    subscriber, or changes nothing. The presence calls implement a board of who was last seen
    when, and the user list of a room is what the board says of the last five minutes.
  \<^item> A telnet session stays in its machine whatever arrives, decodes the telnet stream
    independently of how it is cut, posts exactly the line typed, and leaves nothing
    behind. Every menu item keeps the contract of a feature.
  \<^item> A well-formed request parses back to what was sent, in whatever pieces it arrives; a
    connection gets one answer; an event stream delivers every message once and in order.
  \<^item> What one session may assume of the others is discharged: every turn of every handler keeps
    the rely condition of all other clients, so that in every state the whole system
    reaches, every session is safe, every event stream exact, and no room lists a descriptor
    that is closed or belongs to someone else. A line typed over telnet reaches the web clients of the
    room and a message posted over HTTP the telnet screens, whatever runs in between, and a
    client told to stop leaves within a bounded number of its turns.
  \<^item> The two views are of one program: its clients are the connections in their session, its
    registries list exactly them, and after a shutdown signal every fair run of all threads
    reaches the end with no session, no socket and no subscription left.
  \<^item> The spawner refines a bounded pool of jobs; every open socket has one owner; a
    shutdown reaches every session, ends after a bounded number of steps and closes
    everything; \<^verbatim>\<open>main\<close> serves only when all of its setup succeeded and not as root when a
    user is given.

  \<^bold>\<open>Interfaces.\<close> The locales are \<open>fsm_machine\<close> (a table that keeps an invariant), \<open>iac_sink\<close>
  (callbacks that do not see where a read ended), \<open>bounded_append\<close> (a renderer into a
  buffer), \<open>message_log\<close> (the storage as a log), \<open>presence_board\<close> (the storage as a board), \<open>feature\<close> (a menu item), \<open>registry\<close> (live
  sessions), \<open>http_app\<close> (the dispatch hook), \<open>bounded_spawner\<close> (the connector) and
  \<open>protocol_impl\<close> (the vtable), each interpreted on the definitions of the component that
  provides it. \<open>sqlite_chat\<close> and \<open>http_world\<close> state what is outside the program, the
  database engine and the other threads; \<open>message_log\<close>, \<open>presence_board\<close> and \<open>http_app\<close> follow from them by
  \<^theory_text>\<open>sublocale\<close>, and a reference engine satisfies them.

  \<^bold>\<open>Bounds.\<close> No definition needs fuel: recursion is structural or has a measure, and the
  loops that wait are total over their list of inputs. That the server's loops end is a
  theorem over its step relation.

  \<^bold>\<open>Granularity.\<close> A call that runs under the mutex of a room or of a registry is one step; so is
  a post, which stores the message and then writes to the subscribers under the mutex. In
  \<open>System\<close> a step is what a thread does between two waits, with the opening of an event
  stream in two steps, as the cursor is taken before the subscription. In
  the server, accepting a connection up to the spawn of its thread is one step of the
  main thread. A session inside the server model is the interval between its creation
  and its return; that it has then closed its socket is proved for both protocols in
  \<open>Connection\<close>. What happens in between is the system of clients; \<open>Netserver\<close> runs both
  together, so that the end of the shutdown does not rest on an assumption that sessions
  return. It joins the creation of a session with its registration and the code before
  its first wait, and the code after its last wait with its removal from the registry.
  The registry changes only by the session itself while it runs alone
  (\<open>telnet_run_session\<close>, \<open>http_run_session\<close>); the registrations of the others in between
  are steps of \<open>Netserver\<close>.

  \<^bold>\<open>Idealisations for liveness.\<close> \<open>send_all\<close> and \<open>session_flush\<close> return: a blocking \<^verbatim>\<open>send\<close>
  to a peer that stops reading for ever does not, and a shutdown then waits for it. In
  \<open>System\<close> the reading of a request is one turn over the events the environment delivers;
  as \<^verbatim>\<open>read_request\<close> polls the socket alone, such a turn ends when the peer or the timeout
  ends it, not when the stop flag is raised, and the fair runs of \<open>Netserver\<close> are those in which
  it ends. In \<open>Connector\<close> and \<open>Server\<close> alone the work function and the session can always
  return; \<open>Netserver\<close> replaces that by the turns of the sessions.

  \<^bold>\<open>Not modelled.\<close> Logging (\<^verbatim>\<open>core/log.h\<close>): it writes to stderr and nothing depends on it.
  SQLite and GNU argp: parameters; a prepared \<^verbatim>\<open>SELECT\<close> delivers all its rows or fails at once, not
  midway. The cast of the request length to \<^verbatim>\<open>int\<close> is the identity for the 16384 bytes of the
  receive buffer. Thread attributes other than the stack size, memory
  ordering of the atomics, and the text of IPv6 addresses, which no listener produces.
  The web client, which the server only delivers.
\<close>

section \<open>The whole program\<close>

text \<open>C4: From its start to its end the program keeps its promises. After \<^verbatim>\<open>main\<close> has started the
  server, in every state that the main thread, the connection threads, the signals and
  any failing call can lead to: the open sockets are exactly those of the open listeners
  and of the live connections, which are never more than the command line allows; once
  the shutdown flag is up, some step of the program is possible until \<^verbatim>\<open>server_destroy\<close> has
  returned; and when it has, with no wait cut short by a signal, every thread is gone and
  every socket is closed.\<close>

theorem netserver_lifecycle:
  assumes "main_start sq os w calls s1 s2 cr = Some (Done (ps0, cr'))" and "fst s1 \<noteq> fst s2"
    and "(proc_step ntop6)\<^sup>*\<^sup>* ps0 ps"
  shows "mset_set (ps_open ps) = mset (map ls_fd (open_listeners ps)) + image_mset job_fd (filter_mset open_job (jobs (sv_pool (ps_srv ps))))
    \<and> (\<exists>a. args_parse calls = Some (NS_OK, a) \<and> size (jobs (sv_pool (ps_srv ps))) \<le> unat (ar_max_conn a))
    \<and> (ps_shutdown ps \<longrightarrow> ps_pc ps = Pc_end \<or> (\<exists>ps'. work_step ntop6 ps ps'))
    \<and> (ps_pc ps = Pc_end \<and> ps_eintr ps = 0 \<longrightarrow>
        pl_threads (sv_pool (ps_srv ps)) = [] \<and> ps_open ps = {} \<and> sv_active_connections (ps_srv ps) = 0)"
proof -
  have ready: "server_ready sq ps0" using assms(1,2) by (rule main_start_ready)
  note inv = reach_inv [OF assms(3) ready]
  from assms(1) obtain a where a: "args_parse calls = Some (NS_OK, a)" "cn_max_connections (pl_c (sv_pool (ps_srv ps0))) = ar_max_conn a"
    by (cases rule: main_startE) (auto simp: initial_process_def server_init_ready)
  from inv wait_inv_size [of ps] a have "size (jobs (sv_pool (ps_srv ps))) \<le> unat (ar_max_conn a)" by (simp add: proc_inv_def)
  with inv a(1) never_stuck [OF inv] server_end_state [OF inv] show ?thesis
    by (auto simp: proc_inv_def own_inv_def held_def job_fds_def)
qed

theorem netserver_lifecycle_witness:
  "\<exists>ps cr. demo_start root_creds = Some (Done (ps, cr)) \<and> ps_open ps = {3, 4}"
proof -
  obtain ps cr where run: "demo_start root_creds = Some (Done (ps, cr))" using demo_start_runs by blast
  have "fst (Some (3 :: int), True) \<noteq> fst (Some (4 :: int), True)" by simp
  from netserver_lifecycle [OF run [unfolded demo_start_def] this rtranclp.rtrancl_refl] run
  have "mset_set (ps_open ps) = mset (map ls_fd (open_listeners ps)) + image_mset job_fd (filter_mset open_job (jobs (sv_pool (ps_srv ps))))"
    by blast
  moreover have "map ls_fd (open_listeners ps) = [3, 4]" "jobs (sv_pool (ps_srv ps)) = {#}" "finite (ps_open ps)"
    using run by (auto simp: demo_start_def start_defs initial_process_def open_listeners_def jobs_def split: if_splits)
  ultimately show ?thesis using run by (metis finite_set_mset_mset_set set_mset_mset mset_map image_mset_empty filter_empty_mset
      add.right_neutral list.set(1,2) set_mset_add_mset_insert mset.simps)
qed

end
